(* ===== verification/Prelude.thy ===== *)
theory Prelude
  imports Main "HOL-Library.Word"
begin

text \<open>
  Shared vocabulary of the development: the machine types of the C sources, the error
  values that stand for the ways a C program can go wrong, the result type with its
  sequencing operator, positions in a concatenation of blocks, and the collections of
  rewrite rules the component theories extend.

  The widths are those of the LP64 targets the repository is built for (x86-64 and
  aarch64): \<open>size_t\<close>, \<open>ssize_t\<close> and \<open>loff_t\<close> have 64 bits.
\<close>

section \<open>Machine types\<close>

type_synonym uint8 = "8 word"
type_synonym uint32 = "32 word"
type_synonym size_t = "64 word"
type_synonym loff_t = "64 word"   \<comment> \<open>read with \<open>sint\<close>: a signed quantity\<close>
type_synonym byte = "8 word"

text \<open>
  A pointer is an address or \<open>NULL\<close> (that is, \<open>None\<close>); a heap maps the address of every
  live dynamically allocated block to the bytes of the block.
\<close>

type_synonym addr = nat
type_synonym ptr = "addr option"
type_synonym heap = "addr \<rightharpoonup> byte list"

abbreviation NULL :: "'a option" where
  "NULL \<equiv> None"

abbreviation newline :: byte where
  "newline \<equiv> 10"

section \<open>Errors and results\<close>

text \<open>
  What ends a C function abnormally: a failed \<open>assert\<close> (\<open>BUG_ON\<close> in the kernel), or
  one of the undefined behaviours the sources could run into.
\<close>

datatype c_error =
    Assert_Failed      \<comment> \<open>\<open>assert(e)\<close> with \<open>e\<close> false\<close>
  | Null_Deref         \<comment> \<open>access through \<open>NULL\<close>\<close>
  | Out_Of_Bounds      \<comment> \<open>array or block access out of range\<close>
  | Use_After_Free     \<comment> \<open>access to a block that is not live\<close>
  | Bad_Free           \<comment> \<open>release of a block that is not live\<close>
  | Signed_Overflow    \<comment> \<open>a result of type \<open>int\<close> out of range\<close>
  | No_Return          \<comment> \<open>a loop has not ended within the number of rounds given\<close>

type_synonym 'a res = "c_error + 'a"

definition res_bind :: "'e + 'a \<Rightarrow> ('a \<Rightarrow> 'e + 'b) \<Rightarrow> 'e + 'b" where
  "res_bind m f = (case m of Inl e \<Rightarrow> Inl e | Inr x \<Rightarrow> f x)"

definition check :: "bool \<Rightarrow> 'e \<Rightarrow> 'e + unit" where
  "check b e = (if b then Inr () else Inl e)"

text \<open>\<open>assert(b);\<close> followed by the rest of the function.\<close>

definition c_assert :: "bool \<Rightarrow> 'a res \<Rightarrow> 'a res" where
  "c_assert b k = (if b then k else Inl Assert_Failed)"

text \<open>\<open>*p\<close> for a pointer to an object that is live whenever \<open>p\<close> is not \<open>NULL\<close>.\<close>

definition deref :: "'a option \<Rightarrow> 'a res" where
  "deref p = (case p of None \<Rightarrow> Inl Null_Deref | Some x \<Rightarrow> Inr x)"

text \<open>\<open>*p = v\<close>: an out-parameter is the pointed-to value, or \<open>None\<close> for \<open>NULL\<close>.\<close>

definition store_out :: "'a option \<Rightarrow> 'a \<Rightarrow> 'a option res" where
  "store_out p v = (case p of None \<Rightarrow> Inl Null_Deref | Some _ \<Rightarrow> Inr (Some v))"

text \<open>\<open>a[i]\<close> on an array of \<open>length a\<close> elements.\<close>

definition array_get :: "'a list \<Rightarrow> nat \<Rightarrow> 'a res" where
  "array_get a i = (if i < length a then Inr (a ! i) else Inl Out_Of_Bounds)"

definition array_set :: "'a list \<Rightarrow> nat \<Rightarrow> 'a \<Rightarrow> 'a list res" where
  "array_set a i v = (if i < length a then Inr (a[i := v]) else Inl Out_Of_Bounds)"

named_theorems res_simps \<open>evaluation of the result operators\<close>
named_theorems res_iff \<open>when a composite result is a success\<close>

lemma res_bind_simps [simp, res_simps]:
  "res_bind (Inl e) f = Inl e"
  "res_bind (Inr x) f = f x"
  by (simp_all add: res_bind_def)

lemma res_bind_cong [fundef_cong]:
  "m = m' \<Longrightarrow> (\<And>x. m' = Inr x \<Longrightarrow> f x = g x) \<Longrightarrow> res_bind m f = res_bind m' g"
  by (cases m') auto

lemma res_bind_assoc: "res_bind (res_bind m f) g = res_bind m (\<lambda>x. res_bind (f x) g)"
  by (cases m) auto

lemma res_bind_Inr_iff [res_iff]:
  "res_bind m f = Inr y \<longleftrightarrow> (\<exists>x. m = Inr x \<and> f x = Inr y)"
  by (cases m) auto

lemma check_simps [simp, res_simps]: "check True e = Inr ()" "check False e = Inl e"
  by (simp_all add: check_def)

lemma c_assert_simps [simp, res_simps]:
  "c_assert True k = k" "c_assert False k = Inl Assert_Failed"
  by (simp_all add: c_assert_def)

lemma c_assert_Inr_iff [res_iff]: "c_assert b k = Inr y \<longleftrightarrow> b \<and> k = Inr y"
  by (simp add: c_assert_def)

lemma deref_simps [simp, res_simps]: "deref (Some x) = Inr x" "deref None = Inl Null_Deref"
  by (simp_all add: deref_def)

lemma deref_Inr_iff [res_iff]: "deref p = Inr x \<longleftrightarrow> p = Some x"
  by (cases p) auto

lemma store_out_simps [simp, res_simps]:
  "store_out (Some x) v = Inr (Some v)" "store_out None v = Inl Null_Deref"
  by (simp_all add: store_out_def)

lemma array_get_in [simp]: "i < length a \<Longrightarrow> array_get a i = Inr (a ! i)"
  by (simp add: array_get_def)

lemma array_get_Inr_iff [res_iff]: "array_get a i = Inr x \<longleftrightarrow> i < length a \<and> x = a ! i"
  by (auto simp: array_get_def)

lemma array_set_in [simp]: "i < length a \<Longrightarrow> array_set a i v = Inr (a[i := v])"
  by (simp add: array_set_def)

section \<open>Positions in a concatenation\<close>

text \<open>
  \<open>locate p ns\<close> finds position \<open>p\<close> in a sequence of blocks with lengths \<open>ns\<close> laid end to
  end: the number of the block and the position inside it. \<open>global_pos\<close> goes the other
  way. They are the reference definitions for the two search routines of the circular
  buffer.
\<close>

fun locate :: "nat \<Rightarrow> nat list \<Rightarrow> (nat \<times> nat) option" where
  "locate p [] = None"
| "locate p (n # ns) =
     (if p < n then Some (0, p) else map_option (apfst Suc) (locate (p - n) ns))"

definition global_pos :: "nat list \<Rightarrow> nat \<Rightarrow> nat \<Rightarrow> nat option" where
  "global_pos ns i j =
     (if i < length ns \<and> j < ns ! i then Some (sum_list (take i ns) + j) else None)"

lemma locate_None_iff: "locate p ns = None \<longleftrightarrow> sum_list ns \<le> p"
  by (induction p ns rule: locate.induct) auto

lemma locate_Some_bounds:
  "locate p ns = Some (k, j) \<Longrightarrow>
     k < length ns \<and> j < ns ! k \<and> p = sum_list (take k ns) + j"
proof (induction p ns arbitrary: k rule: locate.induct)
  case (2 p n ns)
  then show ?case by (fastforce split: if_splits)
qed simp

lemma locate_global:
  "k < length ns \<Longrightarrow> j < ns ! k \<Longrightarrow> locate (sum_list (take k ns) + j) ns = Some (k, j)"
proof (induction ns arbitrary: k)
  case (Cons n ns)
  then show ?case by (cases k) auto
qed simp

lemma locate_iff_global_pos: "locate p ns = Some (k, j) \<longleftrightarrow> global_pos ns k j = Some p"
  by (auto simp: global_pos_def locate_global dest: locate_Some_bounds)

lemma global_pos_less: "global_pos ns i j = Some p \<Longrightarrow> p < sum_list ns"
proof -
  assume "global_pos ns i j = Some p"
  then have "locate p ns = Some (i, j)" by (simp only: locate_iff_global_pos)
  then have "locate p ns \<noteq> None" by simp
  then show ?thesis by (simp add: locate_None_iff)
qed

lemma locate_drop_concat:
  "locate p (map length xss) = Some (k, j) \<Longrightarrow>
     drop p (concat xss) = drop j (xss ! k) @ concat (drop (Suc k) xss)"
proof (induction xss arbitrary: p k)
  case (Cons xs xss)
  then show ?case by (cases k) (auto split: if_splits)
qed simp

lemma sum_list_map_length: "sum_list (map length xss) = length (concat xss)"
  by (simp add: length_concat)

lemma sum_list_bound: "(\<And>n. n \<in> set ns \<Longrightarrow> n \<le> b) \<Longrightarrow> sum_list ns \<le> length ns * (b :: nat)"
  by (induction ns) (auto simp: add_mono)

section \<open>Words\<close>

lemma unat_add_lt:
  fixes a b :: "'a::len word"
  shows "unat a + unat b < 2 ^ LENGTH('a) \<Longrightarrow> unat (a + b) = unat a + unat b"
  by (simp add: unat_word_ariths)

lemma unat_sub_le:
  fixes a b :: "'a::len word"
  shows "b \<le> a \<Longrightarrow> unat (a - b) = unat a - unat b"
  by (simp add: unat_sub)

lemma word_less_add_iff:
  fixes a b c :: "'a::len word"
  shows "unat a + unat b < 2 ^ LENGTH('a) \<Longrightarrow> c < a + b \<longleftrightarrow> unat c < unat a + unat b"
  by (simp add: word_less_nat_alt unat_add_lt)

lemma unat_ucast_8_64 [simp]: "unat (ucast (w :: 8 word) :: 64 word) = unat w"
  unfolding unat_eq_nat_uint by (subst uint_up_ucast) (simp_all add: is_up)

lemma unat_ucast_32_64 [simp]: "unat (ucast (w :: 32 word) :: 64 word) = unat w"
  unfolding unat_eq_nat_uint by (subst uint_up_ucast) (simp_all add: is_up)

end
