(* ===== verification/Circular_Buffer.thy ===== *)
theory Circular_Buffer
  imports Prelude
begin

text \<open>
  The circular buffer of write operations: \<open>aesd-char-driver/aesd-circular-buffer.{h,c}\<close>.
  The C structures are records, the fixed array is a list, every array access is bounds
  checked, every \<open>assert\<close> is a branch, and the arithmetic keeps the widths of the source
  (\<open>uint8_t\<close> offsets, \<open>size_t\<close> sizes). The buffer is then related to the list of its live
  entries, oldest first, and the operations to their specification on that list. The
  interface the char driver relies on is the locale \<open>write_log\<close>.
\<close>

section \<open>Data\<close>

definition AESDCHAR_MAX_WRITE_OPERATIONS_SUPPORTED :: nat where
  "AESDCHAR_MAX_WRITE_OPERATIONS_SUPPORTED = 10"

record aesd_buffer_entry =
  buffptr :: ptr
  esize :: size_t    \<comment> \<open>the field \<open>size\<close>\<close>

record aesd_circular_buffer =
  entry :: "aesd_buffer_entry list"   \<comment> \<open>\<open>entry[AESDCHAR_MAX_WRITE_OPERATIONS_SUPPORTED]\<close>\<close>
  in_offs :: uint8
  out_offs :: uint8
  full :: bool

definition no_entry :: aesd_buffer_entry where
  "no_entry = \<lparr>buffptr = NULL, esize = 0\<rparr>"

section \<open>Operations\<close>

definition aesd_circular_buffer_init :: aesd_circular_buffer where
  "aesd_circular_buffer_init =
     \<lparr>entry = replicate AESDCHAR_MAX_WRITE_OPERATIONS_SUPPORTED no_entry,
      in_offs = 0, out_offs = 0, full = False\<rparr>"

text \<open>
  The operands are promoted to \<open>int\<close>, so the difference may be negative before it is
  converted to \<open>size_t\<close>.
\<close>

definition aesd_circular_buffer_size :: "aesd_circular_buffer \<Rightarrow> size_t" where
  "aesd_circular_buffer_size b =
     (if \<not> full b \<and> in_offs b \<ge> out_offs b
      then word_of_int (uint (in_offs b) - uint (out_offs b))
      else word_of_int (uint (in_offs b) + int AESDCHAR_MAX_WRITE_OPERATIONS_SUPPORTED
                          - uint (out_offs b)))"

text \<open>\<open>index += 1; if (index == MAX) index = 0;\<close>, shared by the three loops.\<close>

definition next_index :: "size_t \<Rightarrow> size_t" where
  "next_index i =
     (if i + 1 = of_nat AESDCHAR_MAX_WRITE_OPERATIONS_SUPPORTED then 0 else i + 1)"

text \<open>The three assertions at the head of the search and of the insertion.\<close>

definition buffer_asserts :: "aesd_circular_buffer \<Rightarrow> bool" where
  "buffer_asserts b \<longleftrightarrow>
     unat (in_offs b) < AESDCHAR_MAX_WRITE_OPERATIONS_SUPPORTED \<and>
     unat (out_offs b) < AESDCHAR_MAX_WRITE_OPERATIONS_SUPPORTED \<and>
     (\<not> full b \<or> in_offs b = out_offs b)"

text \<open>
  The search loop, by recursion on the loop variable \<open>size\<close> (here \<open>left\<close>). The returned pointer
  \<open>buffer->entry + index\<close> is the index.
\<close>

fun find_entry_loop ::
  "aesd_circular_buffer \<Rightarrow> size_t \<Rightarrow> nat \<Rightarrow> size_t \<Rightarrow> size_t \<Rightarrow> size_t option
     \<Rightarrow> (nat option \<times> size_t option) res" where
  "find_entry_loop b char_offset 0 offset index rtn = Inr (NULL, rtn)"
| "find_entry_loop b char_offset (Suc left) offset index rtn =
     res_bind (array_get (entry b) (unat index)) (\<lambda>e.
       if char_offset < offset + esize e
       then res_bind (store_out rtn (char_offset - offset)) (\<lambda>rtn'. Inr (Some (unat index), rtn'))
       else find_entry_loop b char_offset left (offset + esize e) (next_index index) rtn)"

definition aesd_circular_buffer_find_entry_offset_for_fpos ::
  "aesd_circular_buffer option \<Rightarrow> size_t \<Rightarrow> size_t option
     \<Rightarrow> (nat option \<times> size_t option) res" where
  "aesd_circular_buffer_find_entry_offset_for_fpos buffer char_offset rtn =
     (case buffer of
        None \<Rightarrow> Inr (NULL, rtn)
      | Some b \<Rightarrow>
          c_assert (buffer_asserts b)
            (find_entry_loop b char_offset (unat (aesd_circular_buffer_size b)) 0
               (ucast (out_offs b)) rtn))"

definition aesd_circular_buffer_add_entry ::
  "aesd_circular_buffer option \<Rightarrow> aesd_buffer_entry
     \<Rightarrow> (aesd_buffer_entry \<times> aesd_circular_buffer option) res" where
  "aesd_circular_buffer_add_entry buffer new_entry =
     (case buffer of
        None \<Rightarrow> Inr (no_entry, None)
      | Some b \<Rightarrow>
          c_assert (buffer_asserts b)
           (res_bind (if full b then array_get (entry b) (unat (in_offs b)) else Inr no_entry)
             (\<lambda>evicted_entry.
              res_bind (array_set (entry b) (unat (in_offs b)) new_entry) (\<lambda>entry'.
               let in1 = in_offs b + 1;
                   in2 = (if unat in1 = AESDCHAR_MAX_WRITE_OPERATIONS_SUPPORTED then 0 else in1);
                   b1 = b\<lparr>entry := entry', in_offs := in2\<rparr>;
                   b2 = (if full b1 then b1\<lparr>out_offs := in2\<rparr>
                         else if in2 = out_offs b1 then b1\<lparr>full := True\<rparr> else b1)
               in Inr (evicted_entry, Some b2)))))"

fun bytes_size_loop :: "aesd_circular_buffer \<Rightarrow> nat \<Rightarrow> size_t \<Rightarrow> size_t \<Rightarrow> size_t res" where
  "bytes_size_loop b 0 index bytes = Inr bytes"
| "bytes_size_loop b (Suc left) index bytes =
     res_bind (array_get (entry b) (unat index)) (\<lambda>e.
       bytes_size_loop b left (next_index index) (bytes + esize e))"

definition aesd_circular_buffer_bytes_size :: "aesd_circular_buffer \<Rightarrow> size_t res" where
  "aesd_circular_buffer_bytes_size b =
     bytes_size_loop b (unat (aesd_circular_buffer_size b)) (ucast (out_offs b)) 0"

text \<open>The loop over \<open>index < entry_index\<close>, by recursion on the number of rounds left.\<close>

fun offset_at_loop ::
  "aesd_circular_buffer \<Rightarrow> nat \<Rightarrow> size_t \<Rightarrow> size_t \<Rightarrow> (size_t \<times> size_t) res" where
  "offset_at_loop b 0 global_offset out = Inr (global_offset, out)"
| "offset_at_loop b (Suc n) global_offset out =
     res_bind (array_get (entry b) (unat out)) (\<lambda>e.
       offset_at_loop b n (global_offset + esize e) (next_index out))"

definition aesd_circular_buffer_offset_at ::
  "aesd_circular_buffer \<Rightarrow> size_t \<Rightarrow> size_t \<Rightarrow> size_t option \<Rightarrow> (bool \<times> size_t option) res" where
  "aesd_circular_buffer_offset_at b entry_index entry_offset offset_rtn =
     c_assert (offset_rtn \<noteq> NULL)
      (if entry_index \<ge> aesd_circular_buffer_size b then Inr (False, offset_rtn)
       else res_bind (offset_at_loop b (unat entry_index) 0 (ucast (out_offs b)))
         (\<lambda>(global_offset, out).
          res_bind (array_get (entry b) (unat out)) (\<lambda>e.
            if entry_offset \<ge> esize e then Inr (False, offset_rtn)
            else res_bind (store_out offset_rtn (global_offset + entry_offset))
                   (\<lambda>rtn'. Inr (True, rtn')))))"

text \<open>
  The loop over all slots, used or not: \<open>body\<close> is run for every index from \<open>i\<close> on, \<open>left\<close> times.
  The pointer \<open>entryptr\<close> is formed behind the last slot but not followed.
\<close>

fun buffer_foreach_from :: "(nat \<Rightarrow> 's \<Rightarrow> 's res) \<Rightarrow> nat \<Rightarrow> nat \<Rightarrow> 's \<Rightarrow> 's res" where
  "buffer_foreach_from body 0 i s = Inr s"
| "buffer_foreach_from body (Suc left) i s = res_bind (body i s) (buffer_foreach_from body left (Suc i))"

definition AESD_CIRCULAR_BUFFER_FOREACH :: "(nat \<Rightarrow> 's \<Rightarrow> 's res) \<Rightarrow> 's \<Rightarrow> 's res" where
  "AESD_CIRCULAR_BUFFER_FOREACH body s =
     buffer_foreach_from body AESDCHAR_MAX_WRITE_OPERATIONS_SUPPORTED 0 s"

section \<open>Well-formedness and the live entries\<close>

text \<open>The array has its declared length and the assertions hold.\<close>

definition cb_wf :: "aesd_circular_buffer \<Rightarrow> bool" where
  "cb_wf b \<longleftrightarrow>
     length (entry b) = AESDCHAR_MAX_WRITE_OPERATIONS_SUPPORTED \<and> buffer_asserts b"

definition cb_window :: "aesd_circular_buffer \<Rightarrow> nat \<Rightarrow> nat \<Rightarrow> aesd_buffer_entry list" where
  "cb_window b i n =
     map (\<lambda>k. entry b ! ((i + k) mod AESDCHAR_MAX_WRITE_OPERATIONS_SUPPORTED)) [0..<n]"

text \<open>The live entries, oldest first.\<close>

definition cb_entries :: "aesd_circular_buffer \<Rightarrow> aesd_buffer_entry list" where
  "cb_entries b = cb_window b (unat (out_offs b)) (unat (aesd_circular_buffer_size b))"

abbreviation cb_sizes :: "aesd_buffer_entry list \<Rightarrow> nat list" where
  "cb_sizes es \<equiv> map (\<lambda>e. unat (esize e)) es"

text \<open>The sizes of the live entries add up without leaving \<open>size_t\<close>.\<close>

definition fits :: "aesd_buffer_entry list \<Rightarrow> bool" where
  "fits es \<longleftrightarrow> sum_list (cb_sizes es) < 2 ^ 64"

text \<open>The array slot that holds the \<open>k\<close>-th live entry.\<close>

definition cb_slot :: "aesd_circular_buffer \<Rightarrow> nat \<Rightarrow> nat" where
  "cb_slot b k = (unat (out_offs b) + k) mod AESDCHAR_MAX_WRITE_OPERATIONS_SUPPORTED"

text \<open>What insertion means for the list: the oldest entry leaves when there is no room.\<close>

definition log_push :: "nat \<Rightarrow> 'a \<Rightarrow> 'a list \<Rightarrow> 'a list" where
  "log_push n x xs = (if length xs < n then xs @ [x] else tl xs @ [x])"

definition log_evicted :: "nat \<Rightarrow> 'a \<Rightarrow> 'a list \<Rightarrow> 'a" where
  "log_evicted n d xs = (if length xs < n then d else hd xs)"

lemma set_log_push_subset: "set (log_push n x xs) \<subseteq> insert x (set xs)"
  by (cases xs) (auto simp: log_push_def)

lemmas cb_max = AESDCHAR_MAX_WRITE_OPERATIONS_SUPPORTED_def

lemma cb_window_Suc:
  "cb_window b i (Suc n) =
     entry b ! (i mod AESDCHAR_MAX_WRITE_OPERATIONS_SUPPORTED) # cb_window b (Suc i) n"
  by (simp add: cb_window_def upt_conv_Cons map_Suc_upt [symmetric] del: upt_Suc)

lemma cb_window_0 [simp]: "cb_window b i 0 = []"
  by (simp add: cb_window_def)

lemma length_cb_window [simp]: "length (cb_window b i n) = n"
  by (simp add: cb_window_def)

lemma cb_window_mod: "cb_window b (i mod AESDCHAR_MAX_WRITE_OPERATIONS_SUPPORTED) n = cb_window b i n"
  by (simp add: cb_window_def mod_simps)

lemma unat_next_index:
  assumes "unat i < AESDCHAR_MAX_WRITE_OPERATIONS_SUPPORTED"
  shows "unat (next_index i) = Suc (unat i) mod AESDCHAR_MAX_WRITE_OPERATIONS_SUPPORTED"
proof -
  have u: "unat (i + 1) = Suc (unat i)"
    using assms by (simp add: cb_max unat_word_ariths)
  moreover have "i + 1 = 10 \<longleftrightarrow> unat (i + 1) = 10"
    by (simp add: word_unat_eq_iff)
  ultimately have "i + 1 = 10 \<longleftrightarrow> Suc (unat i) = 10"
    by simp
  then show ?thesis
    using assms u by (auto simp: next_index_def cb_max)
qed

section \<open>The ring geometry\<close>

text \<open>
  \<open>cb_rep b p n\<close>: the live window starts at slot \<open>p\<close> and holds \<open>n\<close> entries. Every
  well-formed buffer has exactly this shape, and insertion moves the window.
\<close>

definition cb_rep :: "aesd_circular_buffer \<Rightarrow> nat \<Rightarrow> nat \<Rightarrow> bool" where
  "cb_rep b p n \<longleftrightarrow>
     length (entry b) = 10 \<and> unat (out_offs b) = p \<and> p < 10 \<and> n \<le> 10 \<and>
     unat (in_offs b) = (p + n) mod 10 \<and> (full b \<longleftrightarrow> n = 10)"

lemma unat_buffer_size:
  assumes "unat (in_offs b) < 10" "unat (out_offs b) < 10"
  shows "unat (aesd_circular_buffer_size b) =
    (if \<not> full b \<and> unat (out_offs b) \<le> unat (in_offs b)
     then unat (in_offs b) - unat (out_offs b)
     else unat (in_offs b) + 10 - unat (out_offs b))"
proof -
  define i j where ij: "i = unat (in_offs b)" "j = unat (out_offs b)"
  have u: "uint (in_offs b) = int i" "uint (out_offs b) = int j"
    by (simp_all add: ij)
  have small: "unat (word_of_int z :: size_t) = nat z" if "0 \<le> z" "z < 100" for z
    using that by (simp add: unat_eq_nat_uint uint_word_of_int)
  have "i < 10" "j < 10" using assms by (simp_all add: ij)
  then have "j \<le> i \<Longrightarrow> unat (word_of_int (int i - int j) :: size_t) = i - j"
    and "unat (word_of_int (int i + 10 - int j) :: size_t) = i + 10 - j"
    by (subst small; simp)+
  then show ?thesis
    by (simp add: aesd_circular_buffer_size_def cb_max word_le_nat_alt u flip: ij)
qed

lemma cb_rep_size: "cb_rep b p n \<Longrightarrow> unat (aesd_circular_buffer_size b) = n"
  by (subst unat_buffer_size) (auto simp: cb_rep_def mod_if split: if_splits)

lemma cb_rep_wf: "cb_rep b p n \<Longrightarrow> cb_wf b"
  by (auto simp: cb_rep_def cb_wf_def buffer_asserts_def cb_max word_unat_eq_iff)

lemma cb_wf_rep:
  assumes "cb_wf b"
  shows "cb_rep b (unat (out_offs b)) (unat (aesd_circular_buffer_size b))"
proof -
  have "unat (in_offs b) < 10" "unat (out_offs b) < 10"
    using assms by (auto simp: cb_wf_def buffer_asserts_def cb_max)
  note sz = unat_buffer_size [OF this]
  show ?thesis
    using assms
    by (auto simp: cb_rep_def sz cb_wf_def buffer_asserts_def cb_max mod_if)
qed

lemma cb_wf_iff_rep: "cb_wf b \<longleftrightarrow> (\<exists>p n. cb_rep b p n)"
  using cb_rep_wf cb_wf_rep by blast

lemma cb_entries_rep: "cb_rep b p n \<Longrightarrow> cb_entries b = cb_window b p n"
  by (auto simp: cb_entries_def cb_rep_size) (simp add: cb_rep_def)

lemma cb_wf_array: "cb_wf b \<Longrightarrow> length (entry b) = 10 \<and> unat (out_offs b) < 10"
  by (simp add: cb_wf_def buffer_asserts_def cb_max)

lemma length_cb_entries: "length (cb_entries b) = unat (aesd_circular_buffer_size b)"
  by (simp add: cb_entries_def)

lemma length_cb_entries_le: "cb_wf b \<Longrightarrow> length (cb_entries b) \<le> 10"
  using cb_wf_rep by (fastforce simp: cb_rep_def length_cb_entries)

lemma cb_wf_full_iff: "cb_wf b \<Longrightarrow> full b \<longleftrightarrow> length (cb_entries b) = 10"
  using cb_wf_rep by (fastforce simp: cb_rep_def length_cb_entries)

lemma window_slots_differ:
  fixes p k n :: nat
  shows "k < n \<Longrightarrow> n < k + 10 \<Longrightarrow> (p + k) mod 10 \<noteq> (p + n) mod 10"
  using mod_eq_dvd_iff_nat [of "p + k" "p + n" 10] by (auto dest: dvd_imp_le)

text \<open>Storing at the slot after the window leaves the window alone and extends it.\<close>

lemma cb_window_store:
  assumes "length (entry b) = 10" "m \<le> n" "n < 10"
  shows "cb_window (b\<lparr>entry := (entry b)[(p + n) mod 10 := e]\<rparr>) p m = cb_window b p m"
proof -
  have "(entry b)[(p + n) mod 10 := e] ! ((p + k) mod 10) = entry b ! ((p + k) mod 10)"
    if "k < m" for k
    using that assms window_slots_differ [of k n p] by (simp add: nth_list_update)
  then show ?thesis by (simp add: cb_window_def cb_max)
qed

lemma cb_window_snoc:
  "cb_window b p (Suc n) = cb_window b p n @ [entry b ! ((p + n) mod 10)]"
  by (simp add: cb_window_def cb_max)

lemma cb_window_upd [simp]:
  "cb_window (b\<lparr>in_offs := i\<rparr>) p n = cb_window b p n"
  "cb_window (b\<lparr>out_offs := i\<rparr>) p n = cb_window b p n"
  "cb_window (b\<lparr>full := f\<rparr>) p n = cb_window b p n"
  by (simp_all add: cb_window_def)

section \<open>The loops\<close>

text \<open>
  Each loop is compared with a function on the list of the entries it still has to visit:
  the window of \<open>n\<close> entries that starts at its current index.
\<close>

lemma window_step:
  assumes "length (entry b) = 10" "unat i < 10"
  shows "cb_window b (unat i) (Suc n) = entry b ! unat i # cb_window b (unat (next_index i)) n"
    and "unat (next_index i) < 10"
    and "array_get (entry b) (unat i) = Inr (entry b ! unat i)"
  using assms
  by (simp_all add: cb_window_Suc unat_next_index cb_max)
    (metis cb_max cb_window_mod)

lemma find_entry_loop_eq:
  assumes "length (entry b) = 10"
  shows "unat index < 10 \<Longrightarrow> unat offset \<le> unat co \<Longrightarrow>
    unat offset + sum_list (cb_sizes (cb_window b (unat index) n)) < 2 ^ 64 \<Longrightarrow>
    find_entry_loop b co n offset index (Some v) =
      Inr (case locate (unat co - unat offset) (cb_sizes (cb_window b (unat index) n)) of
             None \<Rightarrow> (NULL, Some v)
           | Some (k, j) \<Rightarrow> (Some ((unat index + k) mod 10), Some (of_nat j)))"
proof (induction n arbitrary: offset index)
  case 0
  then show ?case by simp
next
  case (Suc n)
  define e where "e = entry b ! unat index"
  note w = window_step [OF assms Suc.prems(1), folded e_def]
  have ns: "unat (next_index index) = Suc (unat index) mod 10"
    using unat_next_index [of index] Suc.prems(1) by (simp add: cb_max)
  have sum: "unat offset + unat (esize e) +
      sum_list (cb_sizes (cb_window b (unat (next_index index)) n)) < 2 ^ 64"
    using Suc.prems(3) by (simp add: w)
  then have o: "unat (offset + esize e) = unat offset + unat (esize e)"
    by (simp add: unat_add_lt)
  show ?case
  proof (cases "unat co < unat offset + unat (esize e)")
    case True
    have "co - offset = of_nat (unat co - unat offset)"
      using Suc.prems(2) by (simp add: unat_sub_le word_le_nat_alt flip: unat_sub_le)
    moreover have "unat co - unat offset < unat (esize e)"
      using True Suc.prems(2) by linarith
    ultimately show ?thesis
      using True o Suc.prems(1) by (simp add: w word_less_nat_alt)
  next
    case False
    then have "unat (offset + esize e) \<le> unat co" by (simp add: o)
    from Suc.IH [OF w(2) this] False show ?thesis
      using Suc.prems(2) sum
      by (auto simp: w o word_less_nat_alt ns mod_simps split: option.splits)
  qed
qed

lemma bytes_size_loop_eq:
  assumes "length (entry b) = 10"
  shows "unat index < 10 \<Longrightarrow>
    bytes_size_loop b n index bytes =
      Inr (bytes + of_nat (sum_list (cb_sizes (cb_window b (unat index) n))))"
proof (induction n arbitrary: index bytes)
  case (Suc n)
  note w = window_step [OF assms Suc.prems]
  show ?case by (simp add: w Suc.IH [OF w(2)] add.assoc)
qed simp

lemma offset_at_loop_eq:
  assumes "length (entry b) = 10"
  shows "unat out < 10 \<Longrightarrow>
    \<exists>out'. offset_at_loop b n global_offset out =
        Inr (global_offset + of_nat (sum_list (cb_sizes (cb_window b (unat out) n))), out')
      \<and> unat out' = (unat out + n) mod 10"
proof (induction n arbitrary: out global_offset)
  case (Suc n)
  note w = window_step [OF assms Suc.prems]
  have ns: "unat (next_index out) = Suc (unat out) mod 10"
    using unat_next_index [of out] Suc.prems by (simp add: cb_max)
  from Suc.IH [OF w(2), of "global_offset + esize (entry b ! unat out)"]
  show ?case by (auto simp: w ns mod_simps add.assoc)
qed simp

section \<open>The operations on the live entries\<close>

lemma cb_wf_init [simp]: "cb_wf aesd_circular_buffer_init"
  by (simp add: cb_wf_def buffer_asserts_def aesd_circular_buffer_init_def cb_max)

lemma cb_entries_init [simp]: "cb_entries aesd_circular_buffer_init = []"
  by (simp add: cb_entries_def aesd_circular_buffer_size_def aesd_circular_buffer_init_def)

lemma nth_cb_entries:
  "k < length (cb_entries b) \<Longrightarrow> cb_entries b ! k = entry b ! cb_slot b k"
  by (simp add: cb_entries_def cb_window_def cb_slot_def)

lemma find_entry_eq:
  assumes "cb_wf b" "fits (cb_entries b)"
  shows "aesd_circular_buffer_find_entry_offset_for_fpos (Some b) co (Some v) =
    Inr (case locate (unat co) (cb_sizes (cb_entries b)) of
           None \<Rightarrow> (NULL, Some v)
         | Some (k, j) \<Rightarrow> (Some (cb_slot b k), Some (of_nat j)))"
proof -
  have "length (entry b) = 10" "unat (out_offs b) < 10" "buffer_asserts b"
    using assms(1) by (auto simp: cb_wf_def buffer_asserts_def cb_max)
  with find_entry_loop_eq [of b "ucast (out_offs b)" 0 co "unat (aesd_circular_buffer_size b)" v]
  show ?thesis
    using assms(2)
    by (simp add: aesd_circular_buffer_find_entry_offset_for_fpos_def fits_def
        cb_slot_def cb_max split: option.split flip: cb_entries_def)
qed

lemma bytes_size_eq:
  assumes "cb_wf b"
  shows "aesd_circular_buffer_bytes_size b = Inr (of_nat (sum_list (cb_sizes (cb_entries b))))"
proof -
  show ?thesis
    using cb_wf_array [OF assms]
    by (simp add: aesd_circular_buffer_bytes_size_def bytes_size_loop_eq cb_entries_def)
qed

lemma offset_at_eq:
  assumes "cb_wf b" "fits (cb_entries b)"
  shows "aesd_circular_buffer_offset_at b i j (Some v) =
    Inr (case global_pos (cb_sizes (cb_entries b)) (unat i) (unat j) of
           None \<Rightarrow> (False, Some v)
         | Some p \<Rightarrow> (True, Some (of_nat p)))"
proof (cases "unat i < length (cb_entries b)")
  case False
  then show ?thesis
    by (simp add: aesd_circular_buffer_offset_at_def global_pos_def length_cb_entries
        word_le_nat_alt)
next
  case True
  let ?es = "cb_entries b"
  note arr = cb_wf_array [OF assms(1)]
  have lt: "\<not> aesd_circular_buffer_size b \<le> i"
    using True by (simp add: word_le_nat_alt length_cb_entries)
  have "length (entry b) = 10" "unat (ucast (out_offs b) :: size_t) < 10"
    using arr by auto
  from offset_at_loop_eq [OF this, of "unat i" 0] obtain out' where
    loop: "offset_at_loop b (unat i) 0 (ucast (out_offs b)) =
      Inr (of_nat (sum_list (cb_sizes (cb_window b (unat (out_offs b)) (unat i)))), out')"
    and out': "unat out' = cb_slot b (unat i)"
    by (auto simp: cb_slot_def cb_max)
  have "cb_window b (unat (out_offs b)) (unat i) = take (unat i) ?es"
    using True by (simp add: cb_entries_def cb_window_def take_map)
  moreover have "array_get (entry b) (unat out') = Inr (?es ! unat i)"
    using True arr by (simp add: nth_cb_entries out' cb_slot_def cb_max)
  moreover have "esize (?es ! unat i) \<le> j \<longleftrightarrow> \<not> unat j < cb_sizes ?es ! unat i"
    using True by (simp add: word_le_nat_alt not_less)
  ultimately show ?thesis
    using True
    by (simp add: aesd_circular_buffer_offset_at_def lt loop global_pos_def take_map)
qed

text \<open>
  Insertion, on the geometry: the window grows by one slot, or, when it already fills the
  array, moves on by one.
\<close>

lemma uint8_step:
  assumes "unat (i :: uint8) < 10"
  shows "unat (if unat (i + 1) = 10 then 0 else i + 1) = Suc (unat i) mod 10"
proof -
  have "unat (i + 1) = Suc (unat i)" using assms by (simp add: unat_word_ariths)
  with assms show ?thesis by auto
qed

lemma add_entry_rep:
  assumes "cb_rep b p n"
  shows "\<exists>b'. aesd_circular_buffer_add_entry (Some b) e =
      Inr (if n = 10 then entry b ! p else no_entry, Some b') \<and>
    entry b' = (entry b)[(p + n) mod 10 := e] \<and>
    cb_rep b' (if n = 10 then Suc p mod 10 else p) (if n = 10 then 10 else Suc n)"
proof -
  define i' where "i' = (if unat (in_offs b + 1) = 10 then 0 else in_offs b + 1)"
  have b: "buffer_asserts b" "length (entry b) = 10" "unat (in_offs b) = (p + n) mod 10"
    "unat (out_offs b) = p" "p < 10" "n \<le> 10" "full b \<longleftrightarrow> n = 10"
    using cb_rep_wf [OF assms] assms by (auto simp: cb_rep_def cb_wf_def)
  have i': "unat i' = Suc ((p + n) mod 10) mod 10"
    unfolding i'_def using b(3) by (subst uint8_step) simp_all
  have eq: "i' = out_offs b \<longleftrightarrow> n = 9" if "n < 10"
  proof -
    have "i' = out_offs b \<longleftrightarrow> Suc (p + n) mod 10 = p"
      using i' by (simp add: word_unat_eq_iff b(4) mod_Suc_eq)
    also have "\<dots> \<longleftrightarrow> n = 9"
      using that b(5) le_mod_geq [of 10 "Suc (p + n)"] by (cases "Suc (p + n) < 10") auto
    finally show ?thesis .
  qed
  have wrap: "(11 + p) mod 10 = Suc p mod 10" by presburger
  show ?thesis
    using b i' eq wrap
    by (auto simp: aesd_circular_buffer_add_entry_def cb_max Let_def cb_rep_def mod_simps
        simp flip: i'_def)
qed

lemma add_entry_eq:
  assumes "cb_wf b"
  obtains b' where
    "aesd_circular_buffer_add_entry (Some b) e =
       Inr (log_evicted 10 no_entry (cb_entries b), Some b')"
    "cb_wf b'" "cb_entries b' = log_push 10 e (cb_entries b)"
    "entry b' = (entry b)[unat (in_offs b) := e]"
proof -
  obtain p n where r: "cb_rep b p n" using assms by (auto simp: cb_wf_iff_rep)
  note ent = cb_entries_rep [OF r]
  from r have b: "length (entry b) = 10" "p < 10" "n \<le> 10" "unat (in_offs b) = (p + n) mod 10"
    by (auto simp: cb_rep_def)
  from add_entry_rep [OF r] obtain b' where
    add: "aesd_circular_buffer_add_entry (Some b) e =
      Inr (if n = 10 then entry b ! p else no_entry, Some b')"
    and e': "entry b' = (entry b)[(p + n) mod 10 := e]"
    and r': "cb_rep b' (if n = 10 then Suc p mod 10 else p) (if n = 10 then 10 else Suc n)"
    by blast
  have win: "cb_window b' q m = cb_window (b\<lparr>entry := entry b'\<rparr>) q m" for q m
    by (simp add: cb_window_def)
  have "cb_entries b' = log_push 10 e (cb_entries b)"
  proof (cases "n = 10")
    case True
    have "cb_window b' (Suc p mod 10) 10 = cb_window b' (Suc p) 9 @ [entry b' ! ((Suc p + 9) mod 10)]"
      using cb_window_mod [of b' "Suc p" 10] cb_window_snoc [of b' "Suc p" 9] by (simp add: cb_max)
    moreover have "cb_window b' (Suc p) 9 = cb_window b (Suc p) 9"
      using cb_window_store [of b 9 9 "Suc p" e] b by (simp add: win e' True mod_simps)
    moreover have "tl (cb_window b p 10) = cb_window b (Suc p) 9"
      using cb_window_Suc [of b p 9] by simp
    ultimately show ?thesis
      using True b by (simp add: cb_entries_rep [OF r'] ent log_push_def e' mod_simps)
  next
    case False
    with b have "n < 10" by simp
    then have "cb_window b' p n = cb_window b p n"
      using cb_window_store [of b n n p e] b by (simp add: win e')
    with \<open>n < 10\<close> b show ?thesis
      by (simp add: cb_entries_rep [OF r'] ent log_push_def cb_window_snoc e')
  qed
  moreover have "(if n = 10 then entry b ! p else no_entry) = log_evicted 10 no_entry (cb_entries b)"
    using b cb_window_Suc [of b p 9] by (simp add: log_evicted_def ent cb_max)
  ultimately show thesis
    using that add cb_rep_wf [OF r'] e' b by simp
qed

text \<open>
  The slots outside the live window. Together with the live entries they are the array, up
  to rotation; insertion consumes the first of them.
\<close>

definition cb_spare :: "aesd_circular_buffer \<Rightarrow> aesd_buffer_entry list" where
  "cb_spare b = cb_window b (unat (out_offs b) + length (cb_entries b)) (10 - length (cb_entries b))"

lemma cb_window_split: "cb_window b p (m + n) = cb_window b p m @ cb_window b (p + m) n"
proof -
  have "map f [m..<m + n] = map (\<lambda>k. f (m + k)) [0..<n]" for f :: "nat \<Rightarrow> aesd_buffer_entry"
    by (rule nth_equalityI) auto
  then show ?thesis
    by (simp add: cb_window_def upt_add_eq_append [of 0] add.assoc)
qed

lemma cb_entries_spare:
  assumes "cb_wf b"
  shows "cb_entries b @ cb_spare b = rotate (unat (out_offs b)) (entry b)"
proof -
  let ?p = "unat (out_offs b)" and ?n = "length (cb_entries b)"
  have "cb_entries b = cb_window b ?p ?n" by (simp add: cb_entries_def)
  then have "cb_entries b @ cb_spare b = cb_window b ?p 10"
    using cb_window_split [of b ?p ?n "10 - ?n"] length_cb_entries_le [OF assms]
    by (simp add: cb_spare_def)
  also have "\<dots> = rotate ?p (entry b)"
    using cb_wf_array [OF assms]
    by (intro nth_equalityI) (simp_all add: cb_window_def nth_rotate cb_max)
  finally show ?thesis .
qed

lemma cb_spare_init [simp]: "cb_spare aesd_circular_buffer_init = replicate 10 no_entry"
proof (rule replicate_eqI)
  show "x = no_entry" if "x \<in> set (cb_spare aesd_circular_buffer_init)" for x
    using that by (auto simp: cb_spare_def cb_window_def aesd_circular_buffer_init_def cb_max)
qed (simp add: cb_spare_def)

lemma cb_spare_add:
  assumes "cb_wf b" "aesd_circular_buffer_add_entry (Some b) e = Inr (ev, Some b')"
  shows "cb_spare b' = tl (cb_spare b)"
proof -
  obtain p n where r: "cb_rep b p n" using assms(1) by (auto simp: cb_wf_iff_rep)
  then have n: "length (entry b) = 10" "n \<le> 10" "length (cb_entries b) = n" "unat (out_offs b) = p"
    using cb_entries_rep [OF r] by (simp_all add: cb_rep_def)
  from add_entry_rep [OF r, of e] assms(2) have
    e': "entry b' = (entry b)[(p + n) mod 10 := e]"
    and r': "cb_rep b' (if n = 10 then Suc p mod 10 else p) (if n = 10 then 10 else Suc n)"
    by auto
  have out': "unat (out_offs b') = (if n = 10 then Suc p mod 10 else p)"
    "length (cb_entries b') = (if n = 10 then 10 else Suc n)"
    using r' cb_entries_rep [OF r'] by (auto simp: cb_rep_def)
  have keep: "entry b' ! ((Suc (p + n) + k) mod 10) = entry b ! ((Suc (p + n) + k) mod 10)"
    if "k < 9 - n" for k
    using that n window_slots_differ [of 0 "Suc k" "p + n"] by (simp add: e' nth_list_update)
  show ?thesis
  proof (cases "n = 10")
    case True
    then show ?thesis by (simp add: cb_spare_def out' n)
  next
    case False
    then obtain m where m: "10 - n = Suc m" "9 - n = m" using n by (cases "10 - n") auto
    have "cb_spare b' = cb_window b' (Suc (p + n)) m"
      using False m by (simp add: cb_spare_def out')
    also have "\<dots> = cb_window b (Suc (p + n)) m"
      using keep m by (simp add: cb_window_def cb_max)
    also have "\<dots> = tl (cb_spare b)"
      using m by (simp add: cb_spare_def n cb_window_Suc)
    finally show ?thesis .
  qed
qed

section \<open>The interface of a bounded log of writes\<close>

text \<open>
  What a client relies on: a state with an invariant, the list of its live entries, and
  four operations whose effect is described on that list only. The client lemmas below
  are proved once from these laws.
\<close>

fun add_seq :: "('b option \<Rightarrow> 'e \<Rightarrow> ('e \<times> 'b option) res) \<Rightarrow> 'b option \<Rightarrow> 'e list
    \<Rightarrow> ('e list \<times> 'b option) res" where
  "add_seq add b [] = Inr ([], b)"
| "add_seq add b (e # es) =
     res_bind (add b e) (\<lambda>(ev, b').
       res_bind (add_seq add b' es) (\<lambda>(evs, b''). Inr (ev # evs, b'')))"

locale write_log =
  fixes invar :: "'b \<Rightarrow> bool"
    and live :: "'b \<Rightarrow> 'e list"
    and esz :: "'e \<Rightarrow> size_t"
    and cap :: nat
    and none :: 'e
    and slot :: "'b \<Rightarrow> nat \<Rightarrow> nat"
    and init :: 'b
    and add :: "'b option \<Rightarrow> 'e \<Rightarrow> ('e \<times> 'b option) res"
    and find :: "'b option \<Rightarrow> size_t \<Rightarrow> size_t option \<Rightarrow> (nat option \<times> size_t option) res"
    and total :: "'b \<Rightarrow> size_t res"
    and offset_at :: "'b \<Rightarrow> size_t \<Rightarrow> size_t \<Rightarrow> size_t option \<Rightarrow> (bool \<times> size_t option) res"
  assumes cap_pos: "0 < cap"
    and invar_init: "invar init"
    and live_init: "live init = []"
    and live_bound: "invar b \<Longrightarrow> length (live b) \<le> cap"
    and add_law: "invar b \<Longrightarrow>
      \<exists>b'. add (Some b) e = Inr (log_evicted cap none (live b), Some b') \<and> invar b' \<and>
           live b' = log_push cap e (live b)"
    and find_law: "invar b \<Longrightarrow> sum_list (map (\<lambda>e. unat (esz e)) (live b)) < 2 ^ 64 \<Longrightarrow>
      find (Some b) p (Some v) =
        Inr (case locate (unat p) (map (\<lambda>e. unat (esz e)) (live b)) of
               None \<Rightarrow> (NULL, Some v)
             | Some (k, j) \<Rightarrow> (Some (slot b k), Some (of_nat j)))"
    and total_law: "invar b \<Longrightarrow>
      total b = Inr (of_nat (sum_list (map (\<lambda>e. unat (esz e)) (live b))))"
    and offset_at_law: "invar b \<Longrightarrow> sum_list (map (\<lambda>e. unat (esz e)) (live b)) < 2 ^ 64 \<Longrightarrow>
      offset_at b i j (Some v) =
        Inr (case global_pos (map (\<lambda>e. unat (esz e)) (live b)) (unat i) (unat j) of
               None \<Rightarrow> (False, Some v)
             | Some q \<Rightarrow> (True, Some (of_nat q)))"
begin

text \<open>
  Seeking to byte \<open>j\<close> of entry \<open>i\<close> and searching for the position obtained meet again.
\<close>

lemma offset_at_find:
  assumes "invar b" "sum_list (map (\<lambda>e. unat (esz e)) (live b)) < 2 ^ 64"
    and "offset_at b i j (Some v) = Inr (True, Some p)"
  shows "find (Some b) p (Some v') = Inr (Some (slot b (unat i)), Some j)"
proof -
  let ?ns = "map (\<lambda>e. unat (esz e)) (live b)"
  obtain q where q: "global_pos ?ns (unat i) (unat j) = Some q" "p = of_nat q"
    using assms(3) offset_at_law [OF assms(1,2)] by (auto split: option.splits)
  then have "q < 2 ^ 64" using global_pos_less assms(2) by fastforce
  then have "unat p = q" by (simp add: q(2) unat_of_nat)
  then have "locate (unat p) ?ns = Some (unat i, unat j)"
    using q(1) by (simp add: locate_iff_global_pos)
  then show ?thesis by (simp add: find_law [OF assms(1,2)])
qed

text \<open>A position is found exactly when it lies below the total size.\<close>

lemma find_iff_total:
  assumes "invar b" "sum_list (map (\<lambda>e. unat (esz e)) (live b)) < 2 ^ 64"
  shows "\<exists>r rtn n. find (Some b) p (Some v) = Inr (r, rtn) \<and> total b = Inr n \<and>
           (r \<noteq> NULL \<longleftrightarrow> p < n)"
proof -
  let ?ns = "map (\<lambda>e. unat (esz e)) (live b)"
  have "locate (unat p) ?ns \<noteq> None \<longleftrightarrow> unat p < sum_list ?ns"
    by (simp add: locate_None_iff not_le)
  moreover have "unat (of_nat (sum_list ?ns) :: size_t) = sum_list ?ns"
    using assms(2) by (simp add: unat_of_nat)
  ultimately show ?thesis
    by (auto simp: find_law [OF assms] total_law [OF assms(1)] word_less_nat_alt
        split: option.splits)
qed

text \<open>
  Any sequence of insertions succeeds, keeps the newest \<open>cap\<close> entries in order, and hands
  every displaced entry back exactly once, in order.
\<close>

lemma add_seq_live:
  assumes "invar b"
  shows "\<exists>evs b'. add_seq add (Some b) es = Inr (evs, Some b') \<and> invar b' \<and>
    live b' = drop (length (live b @ es) - cap) (live b @ es) \<and>
    drop (cap - length (live b)) evs = take (length (live b @ es) - cap) (live b @ es) \<and>
    length evs = length es \<and>
    take (cap - length (live b)) evs = replicate (min (length es) (cap - length (live b))) none"
  using assms
proof (induction es arbitrary: b)
  case Nil
  with live_bound [OF Nil] show ?case by simp
next
  case (Cons e es)
  from add_law [OF Cons.prems] obtain b1 where
    b1: "add (Some b) e = Inr (log_evicted cap none (live b), Some b1)" "invar b1"
    "live b1 = log_push cap e (live b)" by blast
  note bd = live_bound [OF Cons.prems] cap_pos
  from Cons.IH [OF b1(2)] obtain evs b' where
    IH: "add_seq add (Some b1) es = Inr (evs, Some b')" "invar b'"
    "live b' = drop (length (live b1 @ es) - cap) (live b1 @ es)"
    "drop (cap - length (live b1)) evs = take (length (live b1 @ es) - cap) (live b1 @ es)"
    "length evs = length es"
    "take (cap - length (live b1)) evs = replicate (min (length es) (cap - length (live b1))) none"
    by blast
  show ?case
  proof (cases "length (live b) < cap")
    case True
    then obtain m where m: "cap - length (live b) = Suc m" "cap - Suc (length (live b)) = m"
      by (metis Suc_diff_Suc)
    then show ?thesis
      using IH b1 True by (auto simp: log_push_def log_evicted_def)
  next
    case False
    with bd have full: "length (live b) = cap" by simp
    then obtain x xs where x: "live b = x # xs" using cap_pos by (cases "live b") auto
    then show ?thesis
      using IH b1 full by (auto simp: log_push_def log_evicted_def take_Cons' drop_Cons')
  qed
qed

end

interpretation cb: write_log cb_wf cb_entries esize 10 no_entry cb_slot
  aesd_circular_buffer_init aesd_circular_buffer_add_entry
  aesd_circular_buffer_find_entry_offset_for_fpos aesd_circular_buffer_bytes_size
  aesd_circular_buffer_offset_at
proof
  show "\<exists>b'. aesd_circular_buffer_add_entry (Some b) e =
      Inr (log_evicted 10 no_entry (cb_entries b), Some b') \<and> cb_wf b' \<and>
      cb_entries b' = log_push 10 e (cb_entries b)" if "cb_wf b" for b e
    using add_entry_eq [OF that] by metis
qed (simp_all add: length_cb_entries_le find_entry_eq bytes_size_eq offset_at_eq fits_def)

section \<open>Properties\<close>

text \<open>A full ring whose oldest entry sits in slot 3: entries of 1, 2, ..., 10 bytes.\<close>

definition ring_example :: aesd_circular_buffer where
  "ring_example =
     \<lparr>entry = map (\<lambda>n. \<lparr>buffptr = Some n, esize = of_nat n\<rparr>) [8, 9, 10, 1, 2, 3, 4, 5, 6, 7],
      in_offs = 3, out_offs = 3, full = True\<rparr>"

lemma ring_example_entries:
  "cb_entries ring_example =
     map (\<lambda>n. \<lparr>buffptr = Some n, esize = of_nat n\<rparr>) [1, 2, 3, 4, 5, 6, 7, 8, 9, 10]"
  by (simp add: cb_entries_def cb_window_def ring_example_def aesd_circular_buffer_size_def cb_max
      upt_rec)

lemma ring_example_ok: "cb_wf ring_example" "fits (cb_entries ring_example)"
  by (simp add: cb_wf_def buffer_asserts_def ring_example_def cb_max)
    (simp add: ring_example_entries fits_def)

text \<open>
  C16: On a well-formed buffer whose sizes fit in \<open>size_t\<close>, the search for a file
  position returns the slot of the entry that holds the byte and the position inside that
  entry, exactly as locating the position in the list of live entries does; it returns
  \<open>NULL\<close>, with the out-parameter untouched, when the position lies at or beyond the end.
\<close>

theorem cb_find_correct:
  assumes "cb_wf b" "fits (cb_entries b)"
  shows "aesd_circular_buffer_find_entry_offset_for_fpos (Some b) char_offset (Some v) =
    Inr (case locate (unat char_offset) (cb_sizes (cb_entries b)) of
           None \<Rightarrow> (NULL, Some v)
         | Some (k, j) \<Rightarrow> (Some (cb_slot b k), Some (of_nat j)))"
  using assms by (rule find_entry_eq)

theorem cb_find_correct_witness:
  "cb_wf ring_example \<and> fits (cb_entries ring_example) \<and>
   aesd_circular_buffer_find_entry_offset_for_fpos (Some ring_example) 54 (Some 0) =
     Inr (Some 2, Some 9)"
  using ring_example_ok cb_find_correct [OF ring_example_ok, of 54 0]
  by (simp add: ring_example_entries cb_slot_def) (simp add: ring_example_def cb_max)

text \<open>
  C12: Insertion into a well-formed buffer never fails an assertion or leaves the
  array, keeps the buffer well-formed, and implements the bounded log: the new entry becomes the
  newest one, the oldest one leaves exactly when ten are stored, and then it is the
  entry handed back to the caller (otherwise the empty entry is).
\<close>

theorem cb_add_refines:
  assumes "cb_wf b"
  shows "\<exists>b'. aesd_circular_buffer_add_entry (Some b) e =
      Inr (log_evicted 10 no_entry (cb_entries b), Some b') \<and>
    cb_wf b' \<and> cb_entries b' = log_push 10 e (cb_entries b)"
  using add_entry_eq [OF assms] by metis

theorem cb_add_refines_witness:
  "cb_wf ring_example \<and>
   (\<exists>b'. aesd_circular_buffer_add_entry (Some ring_example) no_entry =
      Inr (\<lparr>buffptr = Some 1, esize = 1\<rparr>, Some b') \<and> cb_wf b')"
  using ring_example_ok cb_add_refines [OF ring_example_ok(1), of no_entry]
  by (auto simp: ring_example_entries log_evicted_def)

text \<open>
  Starting from the initialised buffer, any sequence of insertions succeeds;
  the buffer then holds the last ten entries in insertion order, the first ten calls hand back
  the empty entry, and every later call hands back the displaced entries in order, each once.
\<close>

lemma cb_keeps_newest:
  "\<exists>evs b. add_seq aesd_circular_buffer_add_entry (Some aesd_circular_buffer_init) es =
      Inr (evs, Some b) \<and> cb_wf b \<and>
    cb_entries b = drop (length es - 10) es \<and>
    evs = replicate (min (length es) 10) no_entry @ take (length es - 10) es"
proof -
  from cb.add_seq_live [OF cb.invar_init, of es] obtain evs b where
    run: "add_seq aesd_circular_buffer_add_entry (Some aesd_circular_buffer_init) es =
      Inr (evs, Some b)" "cb_wf b" "cb_entries b = drop (length es - 10) es"
    and evs: "drop 10 evs = take (length es - 10) es"
      "take 10 evs = replicate (min (length es) 10) no_entry"
    by auto
  have "evs = take 10 evs @ drop 10 evs" by simp
  then have "evs = replicate (min (length es) 10) no_entry @ take (length es - 10) es"
    by (simp only: evs)
  with run show ?thesis by blast
qed

text \<open>
  Seeking and searching are inverse to each other: when
  \<open>aesd_circular_buffer_offset_at\<close> accepts the entry number \<open>i\<close> and the position \<open>j\<close> inside it,
  searching for the file position it returns finds the slot of entry \<open>i\<close> and position \<open>j\<close>.
\<close>

lemma cb_seek_find_roundtrip:
  assumes "cb_wf b" "fits (cb_entries b)"
    and "aesd_circular_buffer_offset_at b i j (Some v) = Inr (True, Some p)"
  shows "aesd_circular_buffer_find_entry_offset_for_fpos (Some b) p (Some v') =
    Inr (Some (cb_slot b (unat i)), Some j)"
  using assms unfolding fits_def by (rule cb.offset_at_find)

text \<open>
  A position is found exactly when it lies below the number of bytes
  \<open>aesd_circular_buffer_bytes_size\<close> reports; both calls always succeed.
\<close>

lemma cb_find_below_total:
  assumes "cb_wf b" "fits (cb_entries b)"
  shows "\<exists>r rtn n.
    aesd_circular_buffer_find_entry_offset_for_fpos (Some b) p (Some v) = Inr (r, rtn) \<and>
    aesd_circular_buffer_bytes_size b = Inr n \<and> (r \<noteq> NULL \<longleftrightarrow> p < n)"
  using assms unfolding fits_def by (rule cb.find_iff_total)

end
