(* ===== verification/Kernel_Env.thy ===== *)
theory Kernel_Env
  imports Prelude
begin

text \<open>
  The Linux kernel services the char driver calls. Their code is not part of the
  repository, so they are parameters: the record \<open>kernel\<close> holds one function per service,
  and the predicates \<open>alloc_laws\<close>, \<open>user_laws\<close>, \<open>lock_laws\<close>, \<open>seek_laws\<close> and \<open>chrdev_laws\<close>
  state what the kernel documents about them. A concrete kernel, \<open>demo_kernel\<close>, satisfies
  all of them, so the theorems that assume the laws are not vacuous.
\<close>

section \<open>State the services work on\<close>

record rw_semaphore =
  readers :: nat
  writer :: bool

type_synonym umem = "addr \<rightharpoonup> byte"     \<comment> \<open>accessible user memory\<close>
type_synonym dev_t = "nat \<times> nat"       \<comment> \<open>\<open>(MAJOR, MINOR)\<close>\<close>

section \<open>Error numbers\<close>

definition EINTR :: int where "EINTR = 4"
definition ENOMEM :: int where "ENOMEM = 12"
definition EFAULT :: int where "EFAULT = 14"
definition EINVAL :: int where "EINVAL = 22"
definition ERESTARTSYS :: int where "ERESTARTSYS = 512"

lemmas errno_defs = EINTR_def ENOMEM_def EFAULT_def EINVAL_def ERESTARTSYS_def

section \<open>The services\<close>

record kernel =
  kmalloc :: "heap \<Rightarrow> size_t \<Rightarrow> ptr \<times> heap"
  krealloc :: "heap \<Rightarrow> addr \<Rightarrow> size_t \<Rightarrow> ptr \<times> heap"
  kfree :: "heap \<Rightarrow> addr \<Rightarrow> heap"
  kmalloc_max :: nat          \<comment> \<open>the largest chunk the allocator hands out\<close>
  copy_from_user :: "umem \<Rightarrow> addr \<Rightarrow> size_t \<Rightarrow> size_t \<times> byte list"
    \<comment> \<open>bytes left uncopied, and the contents of the destination\<close>
  copy_to_user :: "umem \<Rightarrow> addr \<Rightarrow> byte list \<Rightarrow> size_t \<times> umem"
  access_ok :: "addr \<Rightarrow> size_t \<Rightarrow> bool"
  down_read_interruptible :: "rw_semaphore \<Rightarrow> int \<times> rw_semaphore"
  down_write_killable :: "rw_semaphore \<Rightarrow> int \<times> rw_semaphore"
  up_read :: "rw_semaphore \<Rightarrow> rw_semaphore"
  up_write :: "rw_semaphore \<Rightarrow> rw_semaphore"
  fixed_size_llseek :: "loff_t \<Rightarrow> loff_t \<Rightarrow> int \<Rightarrow> loff_t \<Rightarrow> loff_t \<times> loff_t"
    \<comment> \<open>of \<open>f_pos\<close>, \<open>offset\<close>, \<open>whence\<close>, \<open>size\<close>: the result and the new \<open>f_pos\<close>\<close>
  alloc_chrdev_region :: "dev_t set \<Rightarrow> nat \<Rightarrow> int \<times> dev_t \<times> dev_t set"
  unregister_chrdev_region :: "dev_t set \<Rightarrow> dev_t \<Rightarrow> dev_t set"
  cdev_add :: "dev_t set \<Rightarrow> dev_t \<Rightarrow> int \<times> dev_t set"
  cdev_del :: "dev_t set \<Rightarrow> dev_t set"

section \<open>What the kernel documents\<close>

text \<open>
  Allocation (core-api/memory-allocation): \<open>kmalloc\<close> returns a fresh chunk of the requested
  size with unspecified contents, or \<open>NULL\<close>; \<open>krealloc\<close> keeps the contents up to the
  smaller size, may move the chunk, and leaves it untouched when it fails; \<open>kfree\<close> releases
  a chunk; chunk sizes are limited (here to far less than the address space).
\<close>

definition alloc_laws :: "kernel \<Rightarrow> bool" where
  "alloc_laws K \<longleftrightarrow>
     (\<forall>h n h'. 0 < n \<longrightarrow> kmalloc K h n = (NULL, h') \<longrightarrow> h' = h) \<and>
     (\<forall>h n p h'. 0 < n \<longrightarrow> kmalloc K h n = (Some p, h') \<longrightarrow>
        h p = None \<and> unat n \<le> kmalloc_max K \<and> (\<exists>bs. length bs = unat n \<and> h' = h(p \<mapsto> bs))) \<and>
     (\<forall>h p n old h'. 0 < n \<longrightarrow> h p = Some old \<longrightarrow> krealloc K h p n = (NULL, h') \<longrightarrow> h' = h) \<and>
     (\<forall>h p n old q h'. 0 < n \<longrightarrow> h p = Some old \<longrightarrow> krealloc K h p n = (Some q, h') \<longrightarrow>
        (q = p \<or> h q = None) \<and> unat n \<le> kmalloc_max K \<and>
        (\<exists>bs. length bs = unat n \<and> take (length old) bs = take (unat n) old \<and>
              h' = (h(p := None))(q \<mapsto> bs))) \<and>
     (\<forall>h p. kfree K h p = h(p := None)) \<and>
     kmalloc_max K \<le> 2 ^ 48"

text \<open>
  User access: both copies return the number of bytes that could not be copied; zero means
  that all of them were.
\<close>

definition write_umem :: "umem \<Rightarrow> addr \<Rightarrow> byte list \<Rightarrow> umem" where
  "write_umem um a bs =
     (\<lambda>x. if a \<le> x \<and> x < a + length bs then Some (bs ! (x - a)) else um x)"

definition umem_holds :: "umem \<Rightarrow> addr \<Rightarrow> byte list \<Rightarrow> bool" where
  "umem_holds um a bs \<longleftrightarrow> (\<forall>i < length bs. um (a + i) = Some (bs ! i))"

definition user_laws :: "kernel \<Rightarrow> bool" where
  "user_laws K \<longleftrightarrow>
     (\<forall>um a n left bs. copy_from_user K um a n = (left, bs) \<longrightarrow>
        length bs = unat n \<and> (left = 0 \<longrightarrow> umem_holds um a bs)) \<and>
     (\<forall>um a bs um'. copy_to_user K um a bs = (0, um') \<longrightarrow> um' = write_umem um a bs)"

text \<open>
  Reader/writer semaphores: a \<open>down\<close> returns 0 with the lock taken, or non-zero (a signal
  arrived while waiting) with the lock as it was; an \<open>up\<close> undoes the \<open>down\<close>.
\<close>

definition lock_laws :: "kernel \<Rightarrow> bool" where
  "lock_laws K \<longleftrightarrow>
     (\<forall>l l'. down_read_interruptible K l = (0, l') \<longrightarrow>
        \<not> writer l \<and> l' = l\<lparr>readers := Suc (readers l)\<rparr>) \<and>
     (\<forall>l res l'. down_read_interruptible K l = (res, l') \<longrightarrow> res \<noteq> 0 \<longrightarrow> l' = l) \<and>
     (\<forall>l l'. down_write_killable K l = (0, l') \<longrightarrow>
        \<not> writer l \<and> readers l = 0 \<and> l' = l\<lparr>writer := True\<rparr>) \<and>
     (\<forall>l res l'. down_write_killable K l = (res, l') \<longrightarrow> res \<noteq> 0 \<longrightarrow> l' = l) \<and>
     (\<forall>l. 0 < readers l \<longrightarrow> up_read K l = l\<lparr>readers := readers l - 1\<rparr>) \<and>
     (\<forall>l. writer l \<longrightarrow> up_write K l = l\<lparr>writer := False\<rparr>)"

text \<open>
  \<open>fixed_size_llseek\<close>: a successful seek sets \<open>f_pos\<close> to the result, which lies between 0
  and the size (a \<open>SEEK_CUR\<close> by 0 just reports the position); a negative result leaves
  \<open>f_pos\<close> alone. For the three classical origins the result is determined.
\<close>

definition seek_base :: "loff_t \<Rightarrow> int \<Rightarrow> loff_t \<Rightarrow> int" where
  "seek_base pos whence sz =
     (if whence = 0 then 0 else if whence = 1 then sint pos else sint sz)"

definition seek_laws :: "kernel \<Rightarrow> bool" where
  "seek_laws K \<longleftrightarrow>
     (\<forall>pos offset whence sz r pos'. 0 \<le> sint pos \<longrightarrow> 0 \<le> sint sz \<longrightarrow>
        fixed_size_llseek K pos offset whence sz = (r, pos') \<longrightarrow>
          (if whence = 1 \<and> offset = 0 then r = pos \<and> pos' = pos
           else (if 0 \<le> sint r then pos' = r \<and> sint r \<le> sint sz else pos' = pos) \<and>
                (whence \<in> {0, 1, 2} \<longrightarrow>
                  (if 0 \<le> seek_base pos whence sz + sint offset \<and>
                      seek_base pos whence sz + sint offset \<le> sint sz
                   then sint r = seek_base pos whence sz + sint offset else sint r < 0))))"

text \<open>
  Registration of device numbers, and of the module's only character device: \<open>cdev_add\<close>
  makes it live for one number, \<open>cdev_del\<close> removes it altogether.
\<close>

definition chrdev_laws :: "kernel \<Rightarrow> bool" where
  "chrdev_laws K \<longleftrightarrow>
     (\<forall>rs minor res d rs'. alloc_chrdev_region K rs minor = (res, d, rs') \<longrightarrow>
        (if res < 0 then rs' = rs else d \<notin> rs \<and> snd d = minor \<and> rs' = insert d rs)) \<and>
     (\<forall>rs d. unregister_chrdev_region K rs d = rs - {d}) \<and>
     (\<forall>cs d err cs'. cdev_add K cs d = (err, cs') \<longrightarrow> cs' = (if err = 0 then insert d cs else cs)) \<and>
     (\<forall>cs. cdev_del K cs = {})"

definition kernel_laws :: "kernel \<Rightarrow> bool" where
  "kernel_laws K \<longleftrightarrow>
     alloc_laws K \<and> user_laws K \<and> lock_laws K \<and> seek_laws K \<and> chrdev_laws K"

section \<open>Case rules for the services\<close>

lemmas alloc_lawsD = alloc_laws_def [THEN iffD1]
lemmas kmalloc_null_law = alloc_lawsD [THEN conjunct1, rule_format]
lemmas kmalloc_some_law = alloc_lawsD [THEN conjunct2, THEN conjunct1, rule_format]
lemmas krealloc_null_law = alloc_lawsD [THEN conjunct2, THEN conjunct2, THEN conjunct1, rule_format]
lemmas krealloc_some_law =
  alloc_lawsD [THEN conjunct2, THEN conjunct2, THEN conjunct2, THEN conjunct1, rule_format]

lemma kmalloc_max_law: "alloc_laws K \<Longrightarrow> kmalloc_max K \<le> 2 ^ 48"
  by (simp add: alloc_laws_def)

lemma kmalloc_cases:
  assumes "alloc_laws K" "0 < n"
  obtains (fail) "kmalloc K h n = (NULL, h)"
  | (ok) p bs where "kmalloc K h n = (Some p, h(p \<mapsto> bs))" "h p = None" "length bs = unat n"
      "unat n \<le> 2 ^ 48"
proof (cases "kmalloc K h n")
  case (Pair r h')
  show thesis
  proof (cases r)
    case None
    with Pair have "h' = h" using kmalloc_null_law [OF assms] by simp
    with Pair None show thesis by (intro fail) simp
  next
    case (Some p)
    with Pair have k: "kmalloc K h n = (Some p, h')" by simp
    from kmalloc_some_law [OF assms this] obtain bs where
      "h p = None" "unat n \<le> kmalloc_max K" "length bs = unat n" "h' = h(p \<mapsto> bs)" by auto
    with k show thesis
      using kmalloc_max_law [OF assms(1)] by (intro ok [of p bs]) simp_all
  qed
qed

lemma krealloc_cases:
  assumes "alloc_laws K" "0 < n" "h p = Some old"
  obtains (fail) "krealloc K h p n = (NULL, h)"
  | (ok) q bs where "krealloc K h p n = (Some q, (h(p := None))(q \<mapsto> bs))" "q = p \<or> h q = None"
      "length bs = unat n" "take (length old) bs = take (unat n) old" "unat n \<le> 2 ^ 48"
proof (cases "krealloc K h p n")
  case (Pair r h')
  show thesis
  proof (cases r)
    case None
    with Pair have "h' = h" using krealloc_null_law [where h = h and p = p, OF assms] by simp
    with Pair None show thesis by (intro fail) simp
  next
    case (Some q)
    with Pair have k: "krealloc K h p n = (Some q, h')" by simp
    from krealloc_some_law [where h = h and p = p, OF assms this] obtain bs where
      "q = p \<or> h q = None" "unat n \<le> kmalloc_max K" "length bs = unat n"
      "take (length old) bs = take (unat n) old" "h' = (h(p := None))(q \<mapsto> bs)" by auto
    with k show thesis
      using kmalloc_max_law [OF assms(1)] by (intro ok [of q bs]) simp_all
  qed
qed

lemmas chrdev_lawsD = chrdev_laws_def [THEN iffD1]
lemmas alloc_region_law = chrdev_lawsD [THEN conjunct1, rule_format]
lemmas unregister_region_law = chrdev_lawsD [THEN conjunct2, THEN conjunct1, rule_format]
lemmas cdev_add_law = chrdev_lawsD [THEN conjunct2, THEN conjunct2, THEN conjunct1, rule_format]
lemmas cdev_del_law = chrdev_lawsD [THEN conjunct2, THEN conjunct2, THEN conjunct2, rule_format]

lemma kfree_law: "alloc_laws K \<Longrightarrow> kfree K h p = h(p := None)"
  by (simp add: alloc_laws_def)

lemma copy_from_user_law:
  assumes "user_laws K" "copy_from_user K um a n = (left, bs)"
  shows "length bs = unat n" and "left = 0 \<Longrightarrow> umem_holds um a bs"
  using assms unfolding user_laws_def by blast+

lemma copy_to_user_law:
  "user_laws K \<Longrightarrow> copy_to_user K um a bs = (0, um') \<Longrightarrow> um' = write_umem um a bs"
  unfolding user_laws_def by blast

lemma down_read_cases:
  assumes "lock_laws K"
  obtains (taken) "down_read_interruptible K l = (0, l\<lparr>readers := Suc (readers l)\<rparr>)"
      "up_read K (l\<lparr>readers := Suc (readers l)\<rparr>) = l" "\<not> writer l"
  | (interrupted) res where "down_read_interruptible K l = (res, l)" "res \<noteq> 0"
proof (cases "down_read_interruptible K l")
  case (Pair res l')
  have "up_read K (l\<lparr>readers := Suc (readers l)\<rparr>) = l"
    using assms by (simp add: lock_laws_def)
  with Pair assms show thesis
    using taken interrupted unfolding lock_laws_def by (cases "res = 0") metis+
qed

lemma down_write_cases:
  assumes "lock_laws K"
  obtains (taken) "down_write_killable K l = (0, l\<lparr>writer := True\<rparr>)"
      "up_write K (l\<lparr>writer := True\<rparr>) = l" "\<not> writer l" "readers l = 0"
  | (interrupted) res where "down_write_killable K l = (res, l)" "res \<noteq> 0"
proof (cases "down_write_killable K l")
  case (Pair res l')
  have "up_write K (l\<lparr>writer := True\<rparr>) = l" if "\<not> writer l"
    using assms that by (simp add: lock_laws_def)
  with Pair assms show thesis
    using taken interrupted unfolding lock_laws_def by (cases "res = 0") metis+
qed

lemma fixed_size_llseek_law:
  assumes "seek_laws K" "0 \<le> sint pos" "0 \<le> sint sz"
    "fixed_size_llseek K pos offset whence sz = (r, pos')"
  shows "if whence = 1 \<and> offset = 0 then r = pos \<and> pos' = pos
         else (if 0 \<le> sint r then pos' = r \<and> sint r \<le> sint sz else pos' = pos) \<and>
              (whence \<in> {0, 1, 2} \<longrightarrow>
                (if 0 \<le> seek_base pos whence sz + sint offset \<and>
                    seek_base pos whence sz + sint offset \<le> sint sz
                 then sint r = seek_base pos whence sz + sint offset else sint r < 0))"
  using assms(1) [unfolded seek_laws_def, rule_format, OF assms(2-4)] .

section \<open>A concrete kernel\<close>

text \<open>
  First-fit allocation over a small range of addresses, copies that succeed exactly on
  mapped memory, locks that are refused when taken. It serves as the instance of the
  parameters in the closed examples.
\<close>

definition demo_addrs :: "addr list" where "demo_addrs = [1..<64]"

definition demo_kmalloc :: "heap \<Rightarrow> size_t \<Rightarrow> ptr \<times> heap" where
  "demo_kmalloc h n =
     (case List.find (\<lambda>p. h p = None) demo_addrs of
        None \<Rightarrow> (NULL, h)
      | Some p \<Rightarrow> if unat n \<le> 4096 then (Some p, h(p \<mapsto> replicate (unat n) 0)) else (NULL, h))"

definition demo_krealloc :: "heap \<Rightarrow> addr \<Rightarrow> size_t \<Rightarrow> ptr \<times> heap" where
  "demo_krealloc h p n =
     (if unat n \<le> 4096
      then case h p of
             None \<Rightarrow> (Some p, h)
           | Some old \<Rightarrow> (Some p, (h(p := None))(p \<mapsto> take (unat n) (old @ replicate (unat n) 0)))
      else (NULL, h))"

definition demo_llseek :: "loff_t \<Rightarrow> loff_t \<Rightarrow> int \<Rightarrow> loff_t \<Rightarrow> loff_t \<times> loff_t" where
  "demo_llseek pos offset whence sz =
     (let target = seek_base pos whence sz + sint offset
      in if whence = 1 \<and> offset = 0 then (pos, pos)
         else if whence \<in> {0, 1, 2} \<and> 0 \<le> target \<and> target \<le> sint sz
         then (word_of_int target, word_of_int target) else (- 22, pos))"

definition demo_kernel :: kernel where
  "demo_kernel =
     \<lparr>kmalloc = demo_kmalloc,
      krealloc = demo_krealloc,
      kfree = (\<lambda>h p. h(p := None)),
      kmalloc_max = 4096,
      copy_from_user = (\<lambda>um a n.
        if \<forall>i \<in> set [0..<unat n]. um (a + i) \<noteq> None
        then (0, map (\<lambda>i. the (um (a + i))) [0..<unat n]) else (n, replicate (unat n) 0)),
      copy_to_user = (\<lambda>um a bs.
        if \<forall>i \<in> set [0..<length bs]. um (a + i) \<noteq> None then (0, write_umem um a bs)
        else (1, um)),
      access_ok = (\<lambda>a n. True),
      down_read_interruptible = (\<lambda>l.
        if writer l then (- EINTR, l) else (0, l\<lparr>readers := Suc (readers l)\<rparr>)),
      down_write_killable = (\<lambda>l.
        if writer l \<or> 0 < readers l then (- EINTR, l) else (0, l\<lparr>writer := True\<rparr>)),
      up_read = (\<lambda>l. l\<lparr>readers := readers l - 1\<rparr>),
      up_write = (\<lambda>l. l\<lparr>writer := False\<rparr>),
      fixed_size_llseek = demo_llseek,
      alloc_chrdev_region = (\<lambda>rs minor.
        if (240, minor) \<in> rs then (- 16, (0, 0), rs) else (0, (240, minor), insert (240, minor) rs)),
      unregister_chrdev_region = (\<lambda>rs d. rs - {d}),
      cdev_add = (\<lambda>cs d. (0, insert d cs)),
      cdev_del = (\<lambda>cs. {})\<rparr>"

lemma find_None_addr: "List.find (\<lambda>p. h p = None) ps = Some p \<Longrightarrow> h p = None"
  by (auto simp: find_Some_iff)

lemma demo_kmalloc_null: "demo_kmalloc h n = (NULL, h') \<Longrightarrow> h' = h"
  by (auto simp: demo_kmalloc_def split: option.splits if_splits)

lemma demo_kmalloc_some:
  assumes "demo_kmalloc h n = (Some p, h')"
  shows "h p = None \<and> unat n \<le> 4096 \<and> (\<exists>bs. length bs = unat n \<and> h' = h(p \<mapsto> bs))"
proof -
  from assms have "h p = None" "unat n \<le> 4096" "h' = h(p \<mapsto> replicate (unat n) 0)"
    by (auto simp: demo_kmalloc_def dest: find_None_addr split: option.splits if_splits)
  then show ?thesis by (intro conjI exI [of _ "replicate (unat n) 0"]) simp_all
qed

lemma demo_krealloc_null: "demo_krealloc h p n = (NULL, h') \<Longrightarrow> h' = h"
  by (auto simp: demo_krealloc_def split: option.splits if_splits)

lemma demo_krealloc_some:
  assumes "h p = Some old" "demo_krealloc h p n = (Some q, h')"
  shows "(q = p \<or> h q = None) \<and> unat n \<le> 4096 \<and>
    (\<exists>bs. length bs = unat n \<and> take (length old) bs = take (unat n) old \<and>
          h' = (h(p := None))(q \<mapsto> bs))"
proof -
  let ?bs = "take (unat n) (old @ replicate (unat n) 0)"
  have "length ?bs = unat n" by simp
  moreover have "take (length old) ?bs = take (unat n) old"
    by (simp add: take_take min_def)
  moreover have "q = p" "unat n \<le> 4096" "h' = (h(p := None))(q \<mapsto> ?bs)"
    using assms by (auto simp: demo_krealloc_def split: if_splits)
  ultimately show ?thesis by blast
qed

lemma demo_kernel_sel:
  "kmalloc demo_kernel = demo_kmalloc" "krealloc demo_kernel = demo_krealloc"
  "kfree demo_kernel h p = h(p := None)" "kmalloc_max demo_kernel = 4096"
  by (simp_all add: demo_kernel_def)

lemma demo_alloc_laws: "alloc_laws demo_kernel"
  unfolding alloc_laws_def demo_kernel_sel
proof (intro conjI allI impI, goal_cases)
  case 1 from demo_kmalloc_null [OF this(2)] show ?case .
next
  case 2 then show ?case by (simp add: demo_kmalloc_some)
next
  case 3 then show ?case by (simp add: demo_kmalloc_some)
next
  case 4 then show ?case by (simp add: demo_kmalloc_some)
next
  case 5 from demo_krealloc_null [OF this(3)] show ?case .
next
  case 6 from demo_krealloc_some [OF this(2,3)] show ?case by (rule conjunct1)
next
  case 7 from demo_krealloc_some [OF this(2,3)] show ?case by simp
next
  case 8 from demo_krealloc_some [OF this(2,3)] show ?case by (elim conjE)
qed simp_all

lemma demo_user_laws: "user_laws demo_kernel"
  by (auto simp: user_laws_def demo_kernel_def umem_holds_def split: if_splits)

lemma demo_lock_laws: "lock_laws demo_kernel"
  by (auto simp: lock_laws_def demo_kernel_def errno_defs split: if_splits)

lemma demo_chrdev_laws: "chrdev_laws demo_kernel"
  by (auto simp: chrdev_laws_def demo_kernel_def split: if_splits)

lemma sint_word_of_int:
  assumes "0 \<le> t" "t < 2 ^ 63"
  shows "sint (word_of_int t :: loff_t) = t"
proof -
  have "- (2 ^ 63) \<le> t" using assms(1) by (rule order_trans [rotated]) simp
  then have "signed_take_bit 63 t = t"
    using assms(2) by (rule signed_take_bit_int_eq_self)
  moreover have "t mod 2 ^ 64 = t" using assms by (intro mod_pos_pos_trivial) simp_all
  ultimately show ?thesis by (simp add: sint_uint uint_word_of_int)
qed

lemma demo_seek_laws: "seek_laws demo_kernel"
  unfolding seek_laws_def
proof (intro allI impI, goal_cases)
  case (1 pos offset whence sz r pos')
  let ?t = "seek_base pos whence sz + sint offset"
  have e: "demo_llseek pos offset whence sz = (r, pos')"
    using 1(3) by (simp add: demo_kernel_def)
  have w: "sint (word_of_int ?t :: loff_t) = ?t" if "0 \<le> ?t" "?t \<le> sint sz"
    using that sint_lt [of sz] by (intro sint_word_of_int) simp_all
  show ?case
  proof (cases "whence = 1 \<and> offset = 0")
    case True
    with e show ?thesis by (auto simp: demo_llseek_def)
  next
    case F: False
    show ?thesis
    proof (cases "whence \<in> {0, 1, 2} \<and> 0 \<le> ?t \<and> ?t \<le> sint sz")
      case True
      then have "r = word_of_int ?t" "pos' = r" using e F by (auto simp: demo_llseek_def)
      with True w have "sint r = ?t" "pos' = r" by simp_all
      with True F show ?thesis by auto
    next
      case False
      then have "r = - 22" "pos' = pos" using e F by (auto simp: demo_llseek_def Let_def split: if_splits)
      with False F show ?thesis by auto
    qed
  qed
qed

lemma demo_copy_from_user:
  assumes "umem_holds um a bs" "length bs = unat n"
  shows "copy_from_user demo_kernel um a n = (0, bs)"
proof -
  have "map (\<lambda>i. the (um (a + i))) [0..<unat n] = bs"
    using assms by (intro nth_equalityI) (auto simp: umem_holds_def)
  with assms show ?thesis by (auto simp: demo_kernel_def umem_holds_def)
qed

lemma demo_kernel_laws: "kernel_laws demo_kernel"
  by (simp add: kernel_laws_def demo_alloc_laws demo_user_laws demo_lock_laws demo_seek_laws
      demo_chrdev_laws)

end
