(* ===== verification/Char_Driver.thy ===== *)
theory Char_Driver
  imports Circular_Buffer Kernel_Env
begin

text \<open>
  The character device driver: \<open>aesd-char-driver/main.c\<close>, \<open>aesdchar.h\<close> and
  \<open>aesd_ioctl.h\<close>. One definition per entry point of \<open>aesd_fops\<close> and per module function,
  over an explicit state with the kernel heap, the user memory, the device structure and
  the registration tables. Kernel services are the parameter \<open>K\<close> of theory \<open>Kernel_Env\<close>.
  Debug output is not modelled.
\<close>

section \<open>Data\<close>

datatype fops_ref = Aesd_fops    \<comment> \<open>\<open>&aesd_fops\<close>, the only operation table\<close>

record cdev =
  cdev_ops :: "fops_ref option"
  cdev_owner :: bool             \<comment> \<open>\<open>owner == THIS_MODULE\<close>\<close>

record aesd_dev =
  cdev :: cdev
  lock :: rw_semaphore
  buffer :: aesd_circular_buffer
  temp_entry :: aesd_buffer_entry

text \<open>The only object of type \<open>struct aesd_dev\<close> is the global \<open>aesd_device\<close>.\<close>

datatype dev_ref = Null_Dev | Aesd_Device

record kfile =                   \<comment> \<open>\<open>struct file\<close>\<close>
  f_pos :: loff_t
  private_data :: dev_ref

record inode =
  i_cdev :: dev_ref              \<comment> \<open>the device whose \<open>cdev\<close> member it points to\<close>

record kstate =
  kmem :: heap
  usermem :: umem
  aesd_device :: aesd_dev
  aesd_major :: nat
  regions :: "dev_t set"         \<comment> \<open>device number regions registered by the module\<close>
  cdevs :: "dev_t set"           \<comment> \<open>device numbers served by the module's \<open>cdev\<close>\<close>

definition aesd_minor :: nat where "aesd_minor = 0"

record aesd_seekto =
  write_cmd :: uint32
  write_cmd_offset :: uint32

abbreviation set_dev :: "(aesd_dev \<Rightarrow> aesd_dev) \<Rightarrow> kstate \<Rightarrow> kstate" where
  "set_dev f s \<equiv> s\<lparr>aesd_device := f (aesd_device s)\<rparr>"

abbreviation set_lock :: "rw_semaphore \<Rightarrow> kstate \<Rightarrow> kstate" where
  "set_lock l s \<equiv> set_dev (\<lambda>d. d\<lparr>lock := l\<rparr>) s"

section \<open>Access to kernel memory\<close>

definition load_block :: "heap \<Rightarrow> addr \<Rightarrow> nat \<Rightarrow> nat \<Rightarrow> byte list res" where
  "load_block h p off n =
     (case h p of None \<Rightarrow> Inl Use_After_Free
      | Some bs \<Rightarrow> if off + n \<le> length bs then Inr (take n (drop off bs)) else Inl Out_Of_Bounds)"

definition store_block :: "heap \<Rightarrow> addr \<Rightarrow> nat \<Rightarrow> byte list \<Rightarrow> heap res" where
  "store_block h p off data =
     (case h p of None \<Rightarrow> Inl Use_After_Free
      | Some bs \<Rightarrow>
          if off + length data \<le> length bs
          then Inr (h(p \<mapsto> take off bs @ data @ drop (off + length data) bs))
          else Inl Out_Of_Bounds)"

definition kfree_block :: "kernel \<Rightarrow> heap \<Rightarrow> addr \<Rightarrow> heap res" where
  "kfree_block K h p = (case h p of None \<Rightarrow> Inl Bad_Free | Some _ \<Rightarrow> Inr (kfree K h p))"

text \<open>\<open>if (p) kfree(p);\<close>\<close>

definition kfree_opt :: "kernel \<Rightarrow> heap \<Rightarrow> ptr \<Rightarrow> heap res" where
  "kfree_opt K h p = (case p of None \<Rightarrow> Inr h | Some a \<Rightarrow> kfree_block K h a)"

section \<open>open and release\<close>

definition aesd_open :: "inode \<Rightarrow> kfile \<Rightarrow> int \<times> kfile" where
  "aesd_open i filp = (0, filp\<lparr>private_data := i_cdev i\<rparr>)"

definition aesd_release :: "inode \<Rightarrow> kfile \<Rightarrow> int" where
  "aesd_release i filp = 0"

section \<open>read\<close>

text \<open>
  The part between \<open>down_read_interruptible\<close> and \<open>up_read\<close>: the search, then the branch for an
  entry that was found, with the entry given by its slot \<open>i\<close>. The local \<open>offset\<close> is not
  initialised in the source; it is only read after the search has set it.
\<close>

definition aesd_read_copy ::
  "kernel \<Rightarrow> addr \<Rightarrow> size_t \<Rightarrow> loff_t \<Rightarrow> nat \<Rightarrow> size_t \<Rightarrow> kstate \<Rightarrow> (int \<times> loff_t \<times> kstate) res" where
  "aesd_read_copy K buf count fpos i offset s =
     res_bind (array_get (entry (buffer (aesd_device s))) i) (\<lambda>e.
       c_assert (buffptr e \<noteq> NULL)
       (c_assert (offset < esize e)
        (let sz = min count (esize e - offset)
         in res_bind (load_block (kmem s) (the (buffptr e)) (unat offset) (unat sz)) (\<lambda>bs.
              case copy_to_user K (usermem s) buf bs of (left, um) \<Rightarrow>
                if left = 0 then Inr (sint sz, fpos + sz, s\<lparr>usermem := um\<rparr>)
                else Inr (- EFAULT, fpos, s\<lparr>usermem := um\<rparr>)))))"

definition aesd_read_locked ::
  "kernel \<Rightarrow> addr \<Rightarrow> size_t \<Rightarrow> loff_t \<Rightarrow> kstate \<Rightarrow> (int \<times> loff_t \<times> kstate) res" where
  "aesd_read_locked K buf count fpos s =
     res_bind (aesd_circular_buffer_find_entry_offset_for_fpos
                 (Some (buffer (aesd_device s))) fpos (Some 0)) (\<lambda>(entryp, offsetp).
       case entryp of
         None \<Rightarrow> Inr (0, fpos, s)
       | Some i \<Rightarrow> res_bind (deref offsetp) (\<lambda>offset. aesd_read_copy K buf count fpos i offset s))"

definition aesd_read ::
  "kernel \<Rightarrow> kfile \<Rightarrow> addr \<Rightarrow> size_t \<Rightarrow> loff_t \<Rightarrow> kstate \<Rightarrow> (int \<times> loff_t \<times> kstate) res" where
  "aesd_read K filp buf count fpos s =
     (if count = 0 then Inr (0, fpos, s)
      else c_assert (private_data filp \<noteq> Null_Dev)
        (case down_read_interruptible K (lock (aesd_device s)) of (res, l) \<Rightarrow>
           if res = 0 then
             res_bind (aesd_read_locked K buf count fpos (set_lock l s)) (\<lambda>(retval, fpos', s').
               Inr (retval, fpos', set_lock (up_read K (lock (aesd_device s'))) s'))
           else Inr (- ERESTARTSYS, fpos, set_lock l s)))"

section \<open>write\<close>

text \<open>The local variables that are live across the \<open>do { ... } while (0)\<close> block.\<close>

record write_locals =
  kern_buf :: ptr
  is_locked :: bool
  retval :: int
  evicted_entry :: aesd_buffer_entry

text \<open>
  Appending the fragment to \<open>temp_entry\<close>. The first component of the result tells whether
  the block was left by \<open>break\<close>.
\<close>

definition aesd_write_append ::
  "kernel \<Rightarrow> addr \<Rightarrow> size_t \<Rightarrow> write_locals \<Rightarrow> kstate \<Rightarrow> (bool \<times> write_locals \<times> kstate) res" where
  "aesd_write_append K kbuf count l s =
     (let temp = temp_entry (aesd_device s) in
      case buffptr temp of
        Some tp \<Rightarrow>
          (let new_size = esize temp + count in
           case krealloc K (kmem s) tp new_size of (new_buffptr, m) \<Rightarrow>
             (case new_buffptr of
                None \<Rightarrow> Inr (True, l\<lparr>retval := - ENOMEM\<rparr>, s\<lparr>kmem := m\<rparr>)
              | Some np \<Rightarrow>
                  res_bind (load_block m kbuf 0 (unat count)) (\<lambda>data.
                  res_bind (store_block m np (unat (esize temp)) data) (\<lambda>m'.
                    Inr (False, l,
                      set_dev (\<lambda>d. d\<lparr>temp_entry := \<lparr>buffptr = Some np, esize = new_size\<rparr>\<rparr>)
                        (s\<lparr>kmem := m'\<rparr>))))))
      | None \<Rightarrow>
          Inr (False, l\<lparr>kern_buf := NULL\<rparr>,
               set_dev (\<lambda>d. d\<lparr>temp_entry := \<lparr>buffptr = Some kbuf, esize = count\<rparr>\<rparr>) s))"

text \<open>The rest of the critical section: a complete command moves to the buffer.\<close>

definition aesd_write_commit ::
  "size_t \<Rightarrow> bool \<Rightarrow> write_locals \<Rightarrow> kstate \<Rightarrow> (write_locals \<times> kstate) res" where
  "aesd_write_commit count newline_terminated l s =
     (let l1 = l\<lparr>retval := sint count\<rparr> in
      if newline_terminated then
        res_bind (aesd_circular_buffer_add_entry (Some (buffer (aesd_device s)))
                    (temp_entry (aesd_device s))) (\<lambda>(evicted, b').
        res_bind (deref b') (\<lambda>b.
          Inr (l1\<lparr>evicted_entry := evicted\<rparr>,
               set_dev (\<lambda>d. d\<lparr>buffer := b, temp_entry := \<lparr>buffptr = NULL, esize = 0\<rparr>\<rparr>) s)))
      else Inr (l1, s))"

text \<open>The \<open>do { ... } while (0)\<close> block.\<close>

definition aesd_write_body ::
  "kernel \<Rightarrow> addr \<Rightarrow> size_t \<Rightarrow> kstate \<Rightarrow> (write_locals \<times> kstate) res" where
  "aesd_write_body K user_buf count s =
     (let l0 = \<lparr>kern_buf = NULL, is_locked = False, retval = - ENOMEM, evicted_entry = no_entry\<rparr> in
      case kmalloc K (kmem s) count of (kb, m) \<Rightarrow>
        (case kb of
           None \<Rightarrow> Inr (l0\<lparr>retval := - ENOMEM\<rparr>, s\<lparr>kmem := m\<rparr>)
         | Some kbuf \<Rightarrow>
             (let l1 = l0\<lparr>kern_buf := Some kbuf\<rparr> in
              case copy_from_user K (usermem s) user_buf count of (left, bs) \<Rightarrow>
                res_bind (store_block m kbuf 0 bs) (\<lambda>m1.
                  let s1 = s\<lparr>kmem := m1\<rparr> in
                  if left \<noteq> 0 then Inr (l1\<lparr>retval := - EFAULT\<rparr>, s1)
                  else
                    res_bind (load_block m1 kbuf (unat (count - 1)) 1) (\<lambda>lastb.
                      let newline_terminated = (lastb = [newline]) in
                      case down_write_killable K (lock (aesd_device s1)) of (res, lk) \<Rightarrow>
                        let s2 = set_lock lk s1 in
                        if res \<noteq> 0 then Inr (l1\<lparr>retval := - EINTR\<rparr>, s2)
                        else
                          res_bind (aesd_write_append K kbuf count (l1\<lparr>is_locked := True\<rparr>) s2)
                            (\<lambda>(brk, l2, s3).
                              if brk then Inr (l2, s3)
                              else aesd_write_commit count newline_terminated l2 s3))))))"

text \<open>What follows the block: unlock, then release the evicted entry and the fragment.\<close>

definition aesd_write_exit :: "kernel \<Rightarrow> write_locals \<Rightarrow> kstate \<Rightarrow> (int \<times> kstate) res" where
  "aesd_write_exit K l s =
     (let s1 = (if is_locked l then set_lock (up_write K (lock (aesd_device s))) s else s) in
      res_bind (kfree_opt K (kmem s1) (buffptr (evicted_entry l))) (\<lambda>m1.
      res_bind (kfree_opt K m1 (kern_buf l)) (\<lambda>m2.
        Inr (retval l, s1\<lparr>kmem := m2\<rparr>))))"

definition aesd_write ::
  "kernel \<Rightarrow> kfile \<Rightarrow> addr \<Rightarrow> size_t \<Rightarrow> loff_t \<Rightarrow> kstate \<Rightarrow> (int \<times> loff_t \<times> kstate) res" where
  "aesd_write K filp user_buf count fpos s =
     (if count = 0 then Inr (0, fpos, s)
      else c_assert (private_data filp \<noteq> Null_Dev)
        (res_bind (aesd_write_body K user_buf count s) (\<lambda>(l, s1).
         res_bind (aesd_write_exit K l s1) (\<lambda>(r, s2). Inr (r, fpos, s2)))))"

section \<open>ioctl and llseek\<close>

text \<open>
  The layout of an ioctl number (userspace-api/ioctl/ioctl-decoding): direction in bits
  30-31 (1 for a write), argument size in bits 16-29, type in bits 8-15, number below.
\<close>

definition IOW :: "nat \<Rightarrow> nat \<Rightarrow> nat \<Rightarrow> uint32" where
  "IOW ty nr sz = of_nat (1 * 2 ^ 30 + sz * 2 ^ 16 + ty * 2 ^ 8 + nr)"

definition IOC_SIZE :: "uint32 \<Rightarrow> nat" where
  "IOC_SIZE cmd = (unat cmd div 2 ^ 16) mod 2 ^ 14"

definition AESD_IOC_MAGIC :: nat where "AESD_IOC_MAGIC = 0x16"

definition sizeof_seekto :: nat where "sizeof_seekto = 8"

definition AESDCHAR_IOCSEEKTO :: uint32 where
  "AESDCHAR_IOCSEEKTO = IOW AESD_IOC_MAGIC 1 sizeof_seekto"

text \<open>The bytes of \<open>struct aesd_seekto\<close>: two little-endian 32-bit words.\<close>

definition u32_of_bytes :: "byte list \<Rightarrow> uint32" where
  "u32_of_bytes bs = of_nat (\<Sum>i<4. unat (bs ! i) * 256 ^ i)"

definition bytes_of_u32 :: "uint32 \<Rightarrow> byte list" where
  "bytes_of_u32 w = map (\<lambda>i. of_nat (unat w div 256 ^ i mod 256)) [0..<4]"

definition seekto_of_bytes :: "byte list \<Rightarrow> aesd_seekto" where
  "seekto_of_bytes bs =
     \<lparr>write_cmd = u32_of_bytes (take 4 bs), write_cmd_offset = u32_of_bytes (drop 4 bs)\<rparr>"

definition bytes_of_seekto :: "aesd_seekto \<Rightarrow> byte list" where
  "bytes_of_seekto t = bytes_of_u32 (write_cmd t) @ bytes_of_u32 (write_cmd_offset t)"

text \<open>The block between \<open>down_write_killable\<close> and \<open>up_write\<close>.\<close>

definition aesd_ioctl_locked :: "kfile \<Rightarrow> aesd_seekto \<Rightarrow> kstate \<Rightarrow> (int \<times> kfile) res" where
  "aesd_ioctl_locked filp seekto s =
     res_bind (aesd_circular_buffer_offset_at (buffer (aesd_device s))
         (ucast (write_cmd seekto)) (ucast (write_cmd_offset seekto)) (Some 0))
       (\<lambda>(ok, seek_offset).
        if ok then res_bind (deref seek_offset) (\<lambda>o'. Inr (0, filp\<lparr>f_pos := o'\<rparr>))
        else Inr (- EINVAL, filp))"

definition aesd_ioctl ::
  "kernel \<Rightarrow> kfile \<Rightarrow> uint32 \<Rightarrow> addr \<Rightarrow> kstate \<Rightarrow> (int \<times> kfile \<times> kstate) res" where
  "aesd_ioctl K filp cmd arg s =
     c_assert (private_data filp \<noteq> Null_Dev)
      (if cmd = AESDCHAR_IOCSEEKTO then
         if IOC_SIZE cmd \<noteq> sizeof_seekto then Inr (- EINVAL, filp, s)
         else if \<not> access_ok K arg (of_nat (IOC_SIZE cmd)) then Inr (- EFAULT, filp, s)
         else case copy_from_user K (usermem s) arg (of_nat (IOC_SIZE cmd)) of (left, bs) \<Rightarrow>
           if left \<noteq> 0 then Inr (- EFAULT, filp, s)
           else
            let seekto = seekto_of_bytes bs in
            case down_write_killable K (lock (aesd_device s)) of (res, lk) \<Rightarrow>
              let s1 = set_lock lk s in
              if res \<noteq> 0 then Inr (- EINTR, filp, s1)
              else
                res_bind (aesd_ioctl_locked filp seekto s1) (\<lambda>(r, filp').
                  Inr (r, filp', set_lock (up_write K (lock (aesd_device s1))) s1))
       else Inr (- EINVAL, filp, s))"

definition aesd_llseek ::
  "kernel \<Rightarrow> kfile \<Rightarrow> loff_t \<Rightarrow> int \<Rightarrow> kstate \<Rightarrow> (int \<times> kfile \<times> kstate) res" where
  "aesd_llseek K filp offset whence s =
     c_assert (private_data filp \<noteq> Null_Dev)
      (case down_write_killable K (lock (aesd_device s)) of (res, lk) \<Rightarrow>
         let s1 = set_lock lk s in
         if res \<noteq> 0 then Inr (- EINTR, filp, s1)
         else
           res_bind (aesd_circular_buffer_bytes_size (buffer (aesd_device s1)))
             (\<lambda>buffer_bytes_size.
               let s2 = set_lock (up_write K (lock (aesd_device s1))) s1 in
               case fixed_size_llseek K (f_pos filp) offset whence buffer_bytes_size of (r, pos) \<Rightarrow>
                 Inr (sint r, filp\<lparr>f_pos := pos\<rparr>, s2)))"

section \<open>Module initialisation and cleanup\<close>

definition aesd_setup_cdev :: "kernel \<Rightarrow> kstate \<Rightarrow> int \<times> kstate" where
  "aesd_setup_cdev K s =
     (let devno = (aesd_major s, aesd_minor);
          s1 = set_dev (\<lambda>d. d\<lparr>cdev := \<lparr>cdev_ops = Some Aesd_fops, cdev_owner = True\<rparr>\<rparr>) s
      in case cdev_add K (cdevs s1) devno of (err, cs) \<Rightarrow> (err, s1\<lparr>cdevs := cs\<rparr>))"

definition zero_dev :: aesd_dev where
  "zero_dev =
     \<lparr>cdev = \<lparr>cdev_ops = None, cdev_owner = False\<rparr>,
      lock = \<lparr>readers = 0, writer = False\<rparr>,
      buffer = aesd_circular_buffer_init,
      temp_entry = no_entry\<rparr>"

text \<open>
  \<open>memset\<close> clears the structure, \<open>init_rwsem\<close> makes the lock free; the two assignments to
  \<open>temp_entry\<close> and \<open>aesd_circular_buffer_init\<close> then store the values written out here.
\<close>

definition aesd_init_module :: "kernel \<Rightarrow> kstate \<Rightarrow> int \<times> kstate" where
  "aesd_init_module K s =
     (case alloc_chrdev_region K (regions s) aesd_minor of (result, dev, rs) \<Rightarrow>
        let s1 = s\<lparr>regions := rs, aesd_major := fst dev\<rparr> in
        if result < 0 then (result, s1)
        else
          let s2 = s1\<lparr>aesd_device := zero_dev\<rparr>;
              s3 = set_dev (\<lambda>d. d\<lparr>lock := \<lparr>readers = 0, writer = False\<rparr>,
                                  temp_entry := \<lparr>buffptr = NULL, esize = 0\<rparr>,
                                  buffer := aesd_circular_buffer_init\<rparr>) s2
          in case aesd_setup_cdev K s3 of (result', s4) \<Rightarrow>
               if result' \<noteq> 0
               then (result', s4\<lparr>regions := unregister_chrdev_region K (regions s4) dev\<rparr>)
               else (result', s4))"

text \<open>The body of the loop over all slots; \<open>i\<close> is \<open>index\<close>.\<close>

definition cleanup_body ::
  "kernel \<Rightarrow> nat \<Rightarrow> aesd_buffer_entry list \<times> heap \<Rightarrow> (aesd_buffer_entry list \<times> heap) res" where
  "cleanup_body K i st = (case st of (es, m) \<Rightarrow>
     res_bind (array_get es i) (\<lambda>e.
       case buffptr e of
         None \<Rightarrow> Inr (es, m)
       | Some p \<Rightarrow>
           res_bind (kfree_block K m p) (\<lambda>m'.
           res_bind (array_set es i \<lparr>buffptr = NULL, esize = 0\<rparr>) (\<lambda>es'. Inr (es', m')))))"

definition aesd_cleanup_module :: "kernel \<Rightarrow> kstate \<Rightarrow> kstate res" where
  "aesd_cleanup_module K s =
     (let devno = (aesd_major s, aesd_minor);
          s1 = s\<lparr>cdevs := cdev_del K (cdevs s)\<rparr>;
          b = buffer (aesd_device s1)
      in res_bind (AESD_CIRCULAR_BUFFER_FOREACH (cleanup_body K) (entry b, kmem s1))
           (\<lambda>(es, m).
             let s2 = set_dev (\<lambda>d. d\<lparr>buffer := b\<lparr>entry := es\<rparr>\<rparr>) (s1\<lparr>kmem := m\<rparr>) in
             case buffptr (temp_entry (aesd_device s2)) of
               None \<Rightarrow> Inr (s2\<lparr>regions := unregister_chrdev_region K (regions s2) devno\<rparr>)
             | Some p \<Rightarrow>
                 res_bind (kfree_block K (kmem s2) p) (\<lambda>m'.
                   let s3 = set_dev (\<lambda>d. d\<lparr>temp_entry := \<lparr>buffptr = NULL, esize = 0\<rparr>\<rparr>)
                              (s2\<lparr>kmem := m'\<rparr>)
                   in Inr (s3\<lparr>regions := unregister_chrdev_region K (regions s3) devno\<rparr>))))"

end
