(* ===== verification/Packet_Fragment.thy ===== *)
theory Packet_Fragment
  imports Char_Driver
begin

text \<open>
  The packet fragments of a connection: \<open>server/packet_fragment.{h,c}\<close>. Fragments are C
  structures on the heap, linked through \<open>next\<close>; a fragment's data is a slice of its own
  buffer, so the pointer \<open>data\<close> is an offset. The representation predicate \<open>frag_list\<close>
  relates a chain of fragments to the list of their addresses.
\<close>

section \<open>Data\<close>

definition BUFFER_SIZE :: nat where "BUFFER_SIZE = 4096"

record packet_fragment =
  fnext :: ptr             \<comment> \<open>\<open>next\<close>\<close>
  fsize :: nat             \<comment> \<open>\<open>size\<close>\<close>
  fdata :: nat             \<comment> \<open>\<open>data - buffer\<close>\<close>
  fbuffer :: "byte list"   \<comment> \<open>\<open>buffer\<close>\<close>

type_synonym frag_heap = "addr \<rightharpoonup> packet_fragment"

text \<open>
  \<open>malloc(sizeof(struct packet_fragment))\<close> is a parameter: from the number of allocations
  made so far and the heap, the address of the new block and its (unspecified) buffer
  contents, or \<open>None\<close>.
\<close>

type_synonym frag_malloc = "nat \<Rightarrow> frag_heap \<Rightarrow> (addr \<times> byte list) option"

definition frag_malloc_laws :: "frag_malloc \<Rightarrow> bool" where
  "frag_malloc_laws mf \<longleftrightarrow>
     (\<forall>t h a junk. mf t h = Some (a, junk) \<longrightarrow> h a = None \<and> length junk = BUFFER_SIZE)"

section \<open>Operations\<close>

definition packet_fragment_alloc :: "frag_malloc \<Rightarrow> nat \<Rightarrow> frag_heap \<Rightarrow> ptr \<times> frag_heap" where
  "packet_fragment_alloc mf t h =
     (case mf t h of
        None \<Rightarrow> (NULL, h)
      | Some (a, junk) \<Rightarrow>
          (Some a, h(a \<mapsto> \<lparr>fnext = NULL, fsize = 0, fdata = 0, fbuffer = junk\<rparr>)))"

definition frag_at :: "frag_heap \<Rightarrow> ptr \<Rightarrow> packet_fragment res" where
  "frag_at h p =
     (case p of None \<Rightarrow> Inl Null_Deref
      | Some a \<Rightarrow> (case h a of None \<Rightarrow> Inl Use_After_Free | Some f \<Rightarrow> Inr f))"

definition frag_set :: "frag_heap \<Rightarrow> ptr \<Rightarrow> packet_fragment \<Rightarrow> frag_heap res" where
  "frag_set h p f = res_bind (frag_at h p) (\<lambda>_. Inr (h(the p \<mapsto> f)))"

definition frag_free :: "frag_heap \<Rightarrow> addr \<Rightarrow> frag_heap res" where
  "frag_free h a = (case h a of None \<Rightarrow> Inl Bad_Free | Some _ \<Rightarrow> Inr (h(a := None)))"

text \<open>The loop of \<open>packet_fragments_free\<close>, for at most \<open>n\<close> rounds.\<close>

fun packet_fragments_free :: "nat \<Rightarrow> ptr \<Rightarrow> frag_heap \<Rightarrow> frag_heap res" where
  "packet_fragments_free n None h = Inr h"
| "packet_fragments_free 0 (Some a) h = Inl No_Return"
| "packet_fragments_free (Suc n) (Some a) h =
     res_bind (frag_at h (Some a)) (\<lambda>f.
     res_bind (frag_free h a) (\<lambda>h'.
       packet_fragments_free n (fnext f) h'))"

section \<open>Chains\<close>

fun frag_list :: "frag_heap \<Rightarrow> ptr \<Rightarrow> addr list \<Rightarrow> bool" where
  "frag_list h p [] \<longleftrightarrow> p = NULL"
| "frag_list h p (a # as) \<longleftrightarrow>
     p = Some a \<and> (case h a of None \<Rightarrow> False | Some f \<Rightarrow> frag_list h (fnext f) as)"

definition frag_bytes :: "packet_fragment \<Rightarrow> byte list" where
  "frag_bytes f = take (fsize f) (drop (fdata f) (fbuffer f))"

definition frag_ok :: "packet_fragment \<Rightarrow> bool" where
  "frag_ok f \<longleftrightarrow> length (fbuffer f) = BUFFER_SIZE \<and> fdata f + fsize f \<le> BUFFER_SIZE"

definition chain_bytes :: "frag_heap \<Rightarrow> addr list \<Rightarrow> byte list" where
  "chain_bytes h as = concat (map (\<lambda>a. frag_bytes (the (h a))) as)"

lemma frag_at_Some [simp]: "h a = Some f \<Longrightarrow> frag_at h (Some a) = Inr f"
  by (simp add: frag_at_def)

lemma frag_set_Some [simp]: "h a = Some g \<Longrightarrow> frag_set h (Some a) f = Inr (h(a \<mapsto> f))"
  by (simp add: frag_set_def)

lemma frag_free_Some [simp]: "h a = Some f \<Longrightarrow> frag_free h a = Inr (h(a := None))"
  by (simp add: frag_free_def)

lemma frag_list_cong:
  "(\<And>a. a \<in> set as \<Longrightarrow> h' a = h a) \<Longrightarrow> frag_list h' p as = frag_list h p as"
  by (induction as arbitrary: p) (auto split: option.split)

lemma frag_list_upd [simp]: "a \<notin> set as \<Longrightarrow> frag_list (h(a := x)) p as = frag_list h p as"
  by (rule frag_list_cong) auto

lemma chain_bytes_upd [simp]: "a \<notin> set as \<Longrightarrow> chain_bytes (h(a := x)) as = chain_bytes h as"
  by (auto simp: chain_bytes_def intro!: arg_cong [where f = concat])

lemma chain_bytes_simps [simp]:
  "chain_bytes h [] = []" "chain_bytes h (a # as) = frag_bytes (the (h a)) @ chain_bytes h as"
  "chain_bytes h (as @ bs) = chain_bytes h as @ chain_bytes h bs"
  by (simp_all add: chain_bytes_def)

lemma frag_list_live: "frag_list h p as \<Longrightarrow> a \<in> set as \<Longrightarrow> \<exists>f. h a = Some f"
  by (induction as arbitrary: p) (auto split: option.splits)

text \<open>A chain splits at any fragment; the rest hangs on the last one's \<open>next\<close>.\<close>

lemma frag_list_snoc:
  assumes "frag_list h p (as @ [a])" "h a = Some f" "a \<notin> set as"
  shows "frag_list (h(a \<mapsto> f\<lparr>fnext := q\<rparr>)) p (as @ a # bs) = frag_list (h(a \<mapsto> f\<lparr>fnext := q\<rparr>)) q bs"
  using assms by (induction as arbitrary: p) (auto split: option.splits)

lemma frag_list_snoc_upd:
  assumes "frag_list h p (as @ [a])" "a \<notin> set as" "fnext f = NULL"
  shows "frag_list (h(a \<mapsto> f)) p (as @ [a])"
  using assms by (induction as arbitrary: p) (auto split: option.splits)

lemma frag_list_snoc_last:
  "frag_list h p (as @ [a]) \<Longrightarrow> \<exists>f. h a = Some f \<and> fnext f = NULL"
  by (induction as arbitrary: p) (auto split: option.splits)

text \<open>
  Freeing a chain ends after as many rounds as it has fragments, touches no freed block and frees
  none twice, and removes exactly its fragments.
\<close>

lemma packet_fragments_free_ok:
  assumes "frag_list h p as" "distinct as" "length as \<le> n"
  shows "packet_fragments_free n p h = Inr (h |` (- set as))"
  using assms
proof (induction n p h arbitrary: as rule: packet_fragments_free.induct)
  case (1 n h)
  then show ?case by (cases as) auto
next
  case (2 a h)
  then show ?case by (cases as) auto
next
  case (3 n a h)
  then obtain as' f where as: "as = a # as'" "h a = Some f" "frag_list h (fnext f) as'"
    by (cases as) (auto split: option.splits)
  have "packet_fragments_free n (fnext f) (h(a := None)) = Inr (h(a := None) |` (- set as'))"
  proof (rule "3.IH")
    show "frag_at h (Some a) = Inr f" "frag_free h a = Inr (h(a := None))" using as by simp_all
    show "frag_list (h(a := None)) (fnext f) as'" using "3.prems" as by simp
  qed (use "3.prems" as in simp_all)
  moreover have "h(a := None) |` (- set as') = h |` (- set as)"
    by (auto simp: as restrict_map_def)
  ultimately show ?case using as by simp
qed

end
