(* ===== verification/Driver_Spec.thy ===== *)
theory Driver_Spec
  imports Char_Driver
begin

text \<open>
  What the character device promises, and that the driver keeps the promise. The abstract
  device (\<open>dev_spec\<close>) is a list of at most ten complete commands and a pending, unfinished
  one; \<open>drv_spec\<close> reads it off a driver state. The invariant \<open>drv_inv\<close> says that the ring,
  the pending entry and the kernel heap agree: every entry owns its own live block of the
  recorded size, and the module holds no other block.
\<close>

section \<open>The abstract device\<close>

record dev_spec =
  commands :: "byte list list"
  pending :: "byte list"

definition spec_contents :: "dev_spec \<Rightarrow> byte list" where
  "spec_contents d = concat (commands d)"

definition spec_write :: "byte list \<Rightarrow> dev_spec \<Rightarrow> dev_spec" where
  "spec_write data d =
     (if data = [] then d
      else if last data = newline
      then \<lparr>commands = log_push 10 (pending d @ data) (commands d), pending = []\<rparr>
      else d\<lparr>pending := pending d @ data\<rparr>)"

text \<open>A read returns bytes of one command only: up to \<open>n\<close> bytes from position \<open>p\<close>.\<close>

definition spec_read :: "nat \<Rightarrow> nat \<Rightarrow> dev_spec \<Rightarrow> byte list" where
  "spec_read p n d =
     (case locate p (map length (commands d)) of
        None \<Rightarrow> []
      | Some (k, j) \<Rightarrow> take n (drop j (commands d ! k)))"

section \<open>Reading the abstract device off the state\<close>

definition entry_bytes :: "heap \<Rightarrow> aesd_buffer_entry \<Rightarrow> byte list" where
  "entry_bytes h e =
     (case buffptr e of None \<Rightarrow> []
      | Some p \<Rightarrow> (case h p of None \<Rightarrow> [] | Some bs \<Rightarrow> bs))"

definition drv_spec :: "kstate \<Rightarrow> dev_spec" where
  "drv_spec s =
     \<lparr>commands = map (entry_bytes (kmem s)) (cb_entries (buffer (aesd_device s))),
      pending = entry_bytes (kmem s) (temp_entry (aesd_device s))\<rparr>"

section \<open>The invariant\<close>

definition entry_ok :: "heap \<Rightarrow> aesd_buffer_entry \<Rightarrow> bool" where
  "entry_ok h e \<longleftrightarrow>
     (\<exists>p bs. buffptr e = Some p \<and> h p = Some bs \<and> length bs = unat (esize e) \<and>
             bs \<noteq> [] \<and> length bs \<le> 2 ^ 48)"

definition temp_entries :: "kstate \<Rightarrow> aesd_buffer_entry list" where
  "temp_entries s =
     (if buffptr (temp_entry (aesd_device s)) = NULL then [] else [temp_entry (aesd_device s)])"

definition all_entries :: "kstate \<Rightarrow> aesd_buffer_entry list" where
  "all_entries s = cb_entries (buffer (aesd_device s)) @ temp_entries s"

abbreviation eptr :: "aesd_buffer_entry \<Rightarrow> addr" where
  "eptr e \<equiv> the (buffptr e)"

text \<open>
  \<open>drv_frame X s\<close>: the invariant, with the blocks \<open>X\<close> held by the operation in progress.
\<close>

definition drv_frame :: "addr set \<Rightarrow> kstate \<Rightarrow> bool" where
  "drv_frame X s \<longleftrightarrow>
     cb_wf (buffer (aesd_device s)) \<and>
     set (cb_spare (buffer (aesd_device s))) \<subseteq> {no_entry} \<and>
     (\<forall>e \<in> set (all_entries s). entry_ok (kmem s) e) \<and>
     (\<forall>e \<in> set (cb_entries (buffer (aesd_device s))). last (entry_bytes (kmem s) e) = newline) \<and>
     (buffptr (temp_entry (aesd_device s)) = NULL \<longrightarrow> temp_entry (aesd_device s) = no_entry) \<and>
     distinct (map eptr (all_entries s)) \<and>
     set (map eptr (all_entries s)) \<inter> X = {} \<and>
     dom (kmem s) = set (map eptr (all_entries s)) \<union> X"

definition drv_inv :: "kstate \<Rightarrow> bool" where
  "drv_inv s \<longleftrightarrow> drv_frame {} s"

lemma entry_bytes_no_entry [simp]: "entry_bytes h no_entry = []"
  by (simp add: entry_bytes_def no_entry_def)

lemma entry_ok_bytes: "entry_ok h e \<Longrightarrow>
    h (eptr e) = Some (entry_bytes h e) \<and> length (entry_bytes h e) = unat (esize e) \<and>
    entry_bytes h e \<noteq> [] \<and> unat (esize e) \<le> 2 ^ 48 \<and> buffptr e = Some (eptr e)"
  by (auto simp: entry_ok_def entry_bytes_def)

lemma entry_frame:
  assumes "\<And>p. buffptr e = Some p \<Longrightarrow> h' p = h p"
  shows "entry_bytes h' e = entry_bytes h e" and "entry_ok h' e = entry_ok h e"
  using assms by (cases "buffptr e"; simp add: entry_bytes_def entry_ok_def)+

lemma entries_frame:
  assumes "\<And>e. e \<in> set es \<Longrightarrow> entry_ok h e" "\<And>p. p \<in> set (map eptr es) \<Longrightarrow> h' p = h p"
  shows "e \<in> set es \<Longrightarrow> entry_bytes h' e = entry_bytes h e"
    and "e \<in> set es \<Longrightarrow> entry_ok h' e"
proof -
  assume e: "e \<in> set es"
  have "h' p = h p" if "buffptr e = Some p" for p
    using that assms(2) e by force
  then show "entry_bytes h' e = entry_bytes h e" and "entry_ok h' e"
    using entry_frame [of e h' h] assms(1) [OF e] by auto
qed

text \<open>Changing the heap outside the entries' blocks keeps everything the entries say.\<close>

lemma drv_frame_heap:
  assumes "drv_frame X s" "\<And>p. p \<in> set (map eptr (all_entries s)) \<Longrightarrow> h' p = kmem s p"
    and "dom h' = set (map eptr (all_entries s)) \<union> Y" "set (map eptr (all_entries s)) \<inter> Y = {}"
  shows "drv_frame Y (s\<lparr>kmem := h'\<rparr>)" and "drv_spec (s\<lparr>kmem := h'\<rparr>) = drv_spec s"
proof -
  have ok: "\<And>e. e \<in> set (all_entries s) \<Longrightarrow> entry_ok (kmem s) e"
    using assms(1) by (auto simp: drv_frame_def)
  have fr: "entry_bytes h' e = entry_bytes (kmem s) e" "entry_ok h' e"
    if "e \<in> set (all_entries s)" for e
    using entries_frame [of "all_entries s" "kmem s" h' e] ok assms(2) that by auto
  have sub: "set (cb_entries (buffer (aesd_device s))) \<subseteq> set (all_entries s)"
    by (auto simp: all_entries_def)
  have same: "all_entries (s\<lparr>kmem := h'\<rparr>) = all_entries s"
    by (simp add: all_entries_def temp_entries_def)
  show "drv_frame Y (s\<lparr>kmem := h'\<rparr>)"
    using assms fr sub same unfolding drv_frame_def by auto
  have "entry_bytes h' (temp_entry (aesd_device s)) =
      entry_bytes (kmem s) (temp_entry (aesd_device s))"
  proof (cases "buffptr (temp_entry (aesd_device s))")
    case (Some a)
    then show ?thesis by (intro fr) (simp add: all_entries_def temp_entries_def)
  qed (simp add: entry_bytes_def)
  then show "drv_spec (s\<lparr>kmem := h'\<rparr>) = drv_spec s"
    using fr sub by (auto simp: drv_spec_def)
qed

lemma drv_frame_alloc:
  assumes "drv_frame X s" "kmem s kb = None"
  shows "drv_frame (insert kb X) (s\<lparr>kmem := (kmem s)(kb \<mapsto> bs)\<rparr>)"
    and "drv_spec (s\<lparr>kmem := (kmem s)(kb \<mapsto> bs)\<rparr>) = drv_spec s"
proof -
  have dom: "dom (kmem s) = set (map eptr (all_entries s)) \<union> X"
    and disj: "set (map eptr (all_entries s)) \<inter> X = {}"
    using assms(1) by (simp_all add: drv_frame_def)
  have new: "kb \<notin> set (map eptr (all_entries s))" using assms(2) dom by blast
  have agree: "((kmem s)(kb \<mapsto> bs)) p = kmem s p" if "p \<in> set (map eptr (all_entries s))" for p
    using that new by auto
  have "dom ((kmem s)(kb \<mapsto> bs)) = set (map eptr (all_entries s)) \<union> insert kb X"
    using dom by auto
  note drv_frame_heap [OF assms(1) agree this]
  then show "drv_frame (insert kb X) (s\<lparr>kmem := (kmem s)(kb \<mapsto> bs)\<rparr>)"
    and "drv_spec (s\<lparr>kmem := (kmem s)(kb \<mapsto> bs)\<rparr>) = drv_spec s"
    using new disj by auto
qed

lemma drv_frame_lock [simp]: "drv_frame X (set_lock l s) = drv_frame X s"
  by (simp add: drv_frame_def all_entries_def temp_entries_def)

lemma drv_spec_lock [simp]: "drv_spec (set_lock l s) = drv_spec s"
  by (simp add: drv_spec_def)

lemma drv_frame_usermem [simp]: "drv_frame X (s\<lparr>usermem := um\<rparr>) = drv_frame X s"
  by (simp add: drv_frame_def all_entries_def temp_entries_def)

lemma drv_spec_usermem [simp]: "drv_spec (s\<lparr>usermem := um\<rparr>) = drv_spec s"
  by (simp add: drv_spec_def)

text \<open>What an operation on the ring and the heap leaves alone.\<close>

definition same_rest :: "kstate \<Rightarrow> kstate \<Rightarrow> bool" where
  "same_rest s s' \<longleftrightarrow>
     lock (aesd_device s') = lock (aesd_device s) \<and> cdev (aesd_device s') = cdev (aesd_device s) \<and>
     usermem s' = usermem s \<and> aesd_major s' = aesd_major s \<and> regions s' = regions s \<and>
     cdevs s' = cdevs s"

lemma drv_frame_commands:
  assumes "drv_frame X s"
  shows "cb_sizes (cb_entries (buffer (aesd_device s))) = map length (commands (drv_spec s))"
    and "fits (cb_entries (buffer (aesd_device s)))"
    and "length (spec_contents (drv_spec s)) \<le> 10 * 2 ^ 48"
proof -
  let ?es = "cb_entries (buffer (aesd_device s))"
  have ok: "entry_ok (kmem s) e" if "e \<in> set ?es" for e
    using assms that by (auto simp: drv_frame_def all_entries_def)
  show sz: "cb_sizes ?es = map length (commands (drv_spec s))"
    using entry_ok_bytes [OF ok] by (simp add: drv_spec_def)
  have "length ?es \<le> 10"
    using assms length_cb_entries_le by (simp add: drv_frame_def)
  moreover have "sum_list (cb_sizes ?es) \<le> length ?es * 2 ^ 48"
    using entry_ok_bytes [OF ok] sum_list_bound [of "cb_sizes ?es" "2 ^ 48"] by auto
  ultimately have "sum_list (cb_sizes ?es) \<le> 10 * 2 ^ 48"
    by (meson mult_le_mono1 order_trans)
  then show "fits ?es" and "length (spec_contents (drv_spec s)) \<le> 10 * 2 ^ 48"
    by (simp_all add: fits_def sz spec_contents_def sum_list_map_length)
qed

lemmas drv_inv_commands = drv_frame_commands [where X = "{}", folded drv_inv_def]

lemma sint_unat:
  fixes n :: size_t
  assumes "unat n < 2 ^ 63"
  shows "sint n = int (unat n)"
proof -
  have "int (unat n) < int (2 ^ 63)" using assms by (simp only: of_nat_less_iff)
  then have "uint n < 2 ^ 63" by simp
  moreover have "- (2 ^ 63) \<le> uint n" by (rule order_trans [OF _ uint_ge_0]) simp
  ultimately have "signed_take_bit 63 (uint n) = uint n"
    by (rule signed_take_bit_int_eq_self [rotated])
  then show ?thesis by (simp add: sint_uint)
qed

lemma sint_of_small:
  fixes n :: size_t
  shows "unat n \<le> 2 ^ 48 \<Longrightarrow> sint n = int (unat n)"
  by (rule sint_unat) simp

lemma unat_sint:
  fixes w :: size_t
  assumes "0 \<le> sint w"
  shows "int (unat w) = sint w"
proof -
  have "sint w < 2 ^ 64" using sint_lt [of w] by simp
  then have "sint w mod 2 ^ 64 = sint w" using assms by (intro mod_pos_pos_trivial)
  moreover have "uint w = sint w mod 2 ^ 64"
    using uint_word_of_int [of "sint w", where 'a = 64] by simp
  ultimately show ?thesis by simp
qed

section \<open>A concrete driver state\<close>

text \<open>
  One complete command \<open>h\n\<close>, the fragment \<open>a\<close> pending, and \<open>b\n\<close> and an ioctl argument
  in user memory. The closed examples of the driver theories start from it.
\<close>

definition example_state :: kstate where
  "example_state =
     \<lparr>kmem = [1 \<mapsto> [104, 10], 2 \<mapsto> [97]],
      usermem = [0 \<mapsto> 98, 1 \<mapsto> 10, 2 \<mapsto> 0, 3 \<mapsto> 0, 4 \<mapsto> 0, 5 \<mapsto> 0, 6 \<mapsto> 1, 7 \<mapsto> 0, 8 \<mapsto> 0, 9 \<mapsto> 0],
      aesd_device =
        \<lparr>cdev = \<lparr>cdev_ops = Some Aesd_fops, cdev_owner = True\<rparr>,
         lock = \<lparr>readers = 0, writer = False\<rparr>,
         buffer = \<lparr>entry = \<lparr>buffptr = Some 1, esize = 2\<rparr> # replicate 9 no_entry,
                   in_offs = 1, out_offs = 0, full = False\<rparr>,
         temp_entry = \<lparr>buffptr = Some 2, esize = 1\<rparr>\<rparr>,
      aesd_major = 240, regions = {(240, 0)}, cdevs = {(240, 0)}\<rparr>"

definition example_file :: kfile where
  "example_file = \<lparr>f_pos = 0, private_data = Aesd_Device\<rparr>"

lemma example_state_sel:
  "kmem example_state = [1 \<mapsto> [104, 10], 2 \<mapsto> [97]]"
  "temp_entry (aesd_device example_state) = \<lparr>buffptr = Some 2, esize = 1\<rparr>"
  "lock (aesd_device example_state) = \<lparr>readers = 0, writer = False\<rparr>"
  "private_data example_file = Aesd_Device" "f_pos example_file = 0"
  by (simp_all add: example_state_def example_file_def)

lemma example_state_wf: "cb_wf (buffer (aesd_device example_state))"
  by (simp add: cb_wf_def buffer_asserts_def example_state_def cb_max)

lemma example_state_entries:
  "cb_entries (buffer (aesd_device example_state)) = [\<lparr>buffptr = Some 1, esize = 2\<rparr>]"
  by (simp add: example_state_def cb_entries_def cb_window_def aesd_circular_buffer_size_def cb_max)

lemma example_state_spare:
  "cb_spare (buffer (aesd_device example_state)) = replicate 9 no_entry"
proof -
  have "out_offs (buffer (aesd_device example_state)) = 0"
    "entry (buffer (aesd_device example_state)) = \<lparr>buffptr = Some 1, esize = 2\<rparr> # replicate 9 no_entry"
    by (simp_all add: example_state_def)
  then show ?thesis
    using cb_entries_spare [OF example_state_wf] by (simp add: example_state_entries)
qed

lemma example_state_spec:
  "drv_spec example_state = \<lparr>commands = [[104, 10]], pending = [97]\<rparr>"
  by (simp add: drv_spec_def example_state_entries example_state_sel entry_bytes_def)

lemma example_state_inv: "drv_inv example_state"
  using example_state_wf
  by (auto simp: drv_inv_def drv_frame_def all_entries_def temp_entries_def example_state_entries
      example_state_spare example_state_sel entry_ok_def entry_bytes_def)

end
