(* ===== verification/Driver_Read.thy ===== *)
theory Driver_Read
  imports Driver_Spec
begin

text \<open>
  \<open>aesd_read\<close>, \<open>aesd_ioctl\<close> and \<open>aesd_llseek\<close> against the abstract device, and the byte layout
  of the ioctl argument.
\<close>

section \<open>Reading\<close>

lemma write_umem_Nil [simp]: "write_umem um a [] = um"
  by (rule ext) (auto simp: write_umem_def)

text \<open>What one call of \<open>aesd_read\<close> may return, given the state of the device.\<close>

definition read_result ::
  "umem \<Rightarrow> addr \<Rightarrow> size_t \<Rightarrow> loff_t \<Rightarrow> dev_spec \<Rightarrow> int \<Rightarrow> loff_t \<Rightarrow> umem \<Rightarrow> bool" where
  "read_result um buf count fpos d r fpos' um' \<longleftrightarrow>
     (let bs = spec_read (unat fpos) (unat count) d
      in r = int (length bs) \<and> unat fpos' = unat fpos + length bs \<and> um' = write_umem um buf bs) \<or>
     (r = - EFAULT \<and> fpos' = fpos) \<or> (r = - ERESTARTSYS \<and> fpos' = fpos \<and> um' = um)"

text \<open>No service the read uses refuses it.\<close>

definition copies_out :: "kernel \<Rightarrow> umem \<Rightarrow> addr \<Rightarrow> size_t \<Rightarrow> bool" where
  "copies_out K um buf count \<longleftrightarrow>
     (\<forall>bs. length bs \<le> unat count \<longrightarrow> fst (copy_to_user K um buf bs) = 0)"

definition read_served :: "kernel \<Rightarrow> addr \<Rightarrow> size_t \<Rightarrow> kstate \<Rightarrow> bool" where
  "read_served K buf count s \<longleftrightarrow>
     fst (down_read_interruptible K (lock (aesd_device s))) = 0 \<and>
     copies_out K (usermem s) buf count"

text \<open>The search of \<open>aesd_read\<close>, in terms of the abstract device.\<close>

lemma aesd_read_find_ok:
  assumes "drv_frame X s"
  shows "aesd_circular_buffer_find_entry_offset_for_fpos (Some (buffer (aesd_device s))) fpos (Some 0) =
    Inr (case locate (unat fpos) (map length (commands (drv_spec s))) of
           None \<Rightarrow> (NULL, Some 0)
         | Some (k, j) \<Rightarrow> (Some (cb_slot (buffer (aesd_device s)) k), Some (of_nat j)))"
proof -
  note sz = drv_frame_commands [OF assms]
  have wf: "cb_wf (buffer (aesd_device s))" using assms by (simp add: drv_frame_def)
  show ?thesis using find_entry_eq [OF wf sz(2), of fpos 0, unfolded sz(1)] by simp
qed

lemma aesd_read_copy_ok:
  assumes "user_laws K" "drv_frame X s"
    and kj: "locate (unat fpos) (map length (commands (drv_spec s))) = Some (k, j)"
  obtains r fpos' um where
    "aesd_read_copy K buf count fpos (cb_slot (buffer (aesd_device s)) k) (of_nat j) s =
       Inr (r, fpos', s\<lparr>usermem := um\<rparr>)"
    "read_result (usermem s) buf count fpos (drv_spec s) r fpos' um" "r \<noteq> - ERESTARTSYS"
    "copies_out K (usermem s) buf count \<Longrightarrow> 0 \<le> r"
proof -
  let ?b = "buffer (aesd_device s)" and ?d = "drv_spec s"
  note sz = drv_frame_commands [OF assms(2)]
  have wf: "cb_wf ?b" using assms(2) by (simp add: drv_frame_def)
  let ?e = "cb_entries ?b ! k"
  from locate_Some_bounds [OF kj] have j: "j < length (commands ?d ! k)"
    and k': "k < length (commands ?d)" by auto
  then have k: "k < length (cb_entries ?b)" by (simp add: drv_spec_def)
  have e: "entry_ok (kmem s) ?e"
    using assms(2) k by (auto simp: drv_frame_def all_entries_def)
  note eb = entry_ok_bytes [OF e]
  have cmd: "commands ?d ! k = entry_bytes (kmem s) ?e" using k by (simp add: drv_spec_def)
  have nn: "\<exists>y. buffptr ?e = Some y" using eb by blast
  have slot: "array_get (entry ?b) (cb_slot ?b k) = Inr ?e"
    using cb_wf_array [OF wf] by (simp add: nth_cb_entries [OF k] cb_slot_def cb_max)
  have jw: "unat (of_nat j :: size_t) = j"
    using j eb by (simp add: cmd unat_of_nat)
  define n where "n = min count (esize ?e - of_nat j)"
  have "unat (esize ?e - of_nat j) = unat (esize ?e) - j"
    using j eb jw by (simp add: cmd unat_sub_le word_le_nat_alt)
  then have n: "unat n = min (unat count) (length (entry_bytes (kmem s) ?e) - j)"
    using eb by (simp add: n_def min_def word_le_nat_alt)
  define bs where "bs = take (unat n) (drop j (entry_bytes (kmem s) ?e))"
  have lbs: "length bs = unat n" using n j by (simp add: bs_def cmd)
  have ld: "load_block (kmem s) (eptr ?e) j (unat n) = Inr bs"
    using eb n j by (simp add: load_block_def bs_def cmd)
  have spec: "spec_read (unat fpos) (unat count) ?d = bs"
    unfolding spec_read_def kj using n by (simp add: cmd bs_def min_def)
  obtain left um where cp: "copy_to_user K (usermem s) buf bs = (left, um)" by force
  have run: "aesd_read_copy K buf count fpos (cb_slot ?b k) (of_nat j) s =
     (if left = 0 then Inr (sint n, fpos + n, s\<lparr>usermem := um\<rparr>)
      else Inr (- EFAULT, fpos, s\<lparr>usermem := um\<rparr>))"
    using slot eb nn j jw ld cp
    by (simp add: aesd_read_copy_def cmd word_less_nat_alt Let_def flip: n_def)
  have sm: "unat n \<le> 2 ^ 48" using n eb by (auto simp: min_le_iff_disj)
  have "unat fpos < 10 * 2 ^ 48"
    using locate_None_iff [of "unat fpos" "map length (commands ?d)"] kj sz(3)
    by (simp add: spec_contents_def sum_list_map_length)
  then have "unat (fpos + n) = unat fpos + unat n"
    using sm by (intro unat_add_lt) simp
  moreover have "length bs \<le> unat count" using lbs n by simp
  then have "left = 0" if "copies_out K (usermem s) buf count"
    using that cp by (metis copies_out_def fst_conv)
  moreover have "(if left = 0 then int (unat n) else - EFAULT) \<noteq> - ERESTARTSYS"
    by (simp add: errno_defs del: of_nat_unat)
  ultimately show thesis
    using that [of "if left = 0 then int (unat n) else - EFAULT" "if left = 0 then fpos + n else fpos" um]
      run copy_to_user_law [OF assms(1)] cp sint_of_small [OF sm] lbs spec
    by (cases "left = 0") (auto simp: read_result_def simp del: of_nat_unat)
qed

lemma aesd_read_locked_ok:
  assumes "user_laws K" "drv_inv s"
  obtains r fpos' um where "aesd_read_locked K buf count fpos s = Inr (r, fpos', s\<lparr>usermem := um\<rparr>)"
    "read_result (usermem s) buf count fpos (drv_spec s) r fpos' um"
    "copies_out K (usermem s) buf count \<Longrightarrow> 0 \<le> r"
proof (cases "locate (unat fpos) (map length (commands (drv_spec s)))")
  case None
  then show thesis
    using aesd_read_find_ok [OF assms(2) [unfolded drv_inv_def], of fpos]
    by (intro that [of 0 fpos "usermem s"])
      (simp_all add: aesd_read_locked_def read_result_def spec_read_def)
next
  case (Some kj)
  then obtain k j where "locate (unat fpos) (map length (commands (drv_spec s))) = Some (k, j)"
    by (cases kj) simp
  with aesd_read_find_ok [OF assms(2) [unfolded drv_inv_def], of fpos]
    aesd_read_copy_ok [OF assms(1) assms(2) [unfolded drv_inv_def], of fpos k j buf count]
  show thesis using that by (simp add: aesd_read_locked_def) metis
qed

lemma aesd_read_ok:
  assumes "user_laws K" "lock_laws K" "drv_inv s" "private_data filp \<noteq> Null_Dev"
  obtains r fpos' um where "aesd_read K filp buf count fpos s = Inr (r, fpos', s\<lparr>usermem := um\<rparr>)"
    "read_result (usermem s) buf count fpos (drv_spec s) r fpos' um"
    "read_served K buf count s \<Longrightarrow> 0 \<le> r"
proof (cases "count = 0")
  case True
  have "spec_read (unat fpos) 0 (drv_spec s) = []"
    by (simp add: spec_read_def split: option.splits)
  with True show thesis
    by (intro that [of 0 fpos "usermem s"]) (simp_all add: aesd_read_def read_result_def)
next
  case False
  let ?l = "lock (aesd_device s)"
  show thesis
  proof (rule down_read_cases [OF assms(2), of ?l], goal_cases taken intr)
    case (intr res)
    then show ?thesis
      using False assms(4)
      by (intro that [of "- ERESTARTSYS" fpos "usermem s"])
        (simp_all add: aesd_read_def read_result_def read_served_def)
  next
    case taken
    let ?s1 = "set_lock (?l\<lparr>readers := Suc (readers ?l)\<rparr>) s"
    have "drv_inv ?s1" "drv_spec ?s1 = drv_spec s" "usermem ?s1 = usermem s"
      using assms(3) by (simp_all add: drv_inv_def)
    then obtain r fpos' um where
      "aesd_read_locked K buf count fpos ?s1 = Inr (r, fpos', ?s1\<lparr>usermem := um\<rparr>)"
      "read_result (usermem s) buf count fpos (drv_spec s) r fpos' um"
      "copies_out K (usermem s) buf count \<Longrightarrow> 0 \<le> r"
      using aesd_read_locked_ok [OF assms(1)] by metis
    then show ?thesis
      using False assms(4) taken(1,2)
      by (intro that [of r fpos' um]) (simp_all add: aesd_read_def read_served_def)
  qed
qed

section \<open>Seeking\<close>

lemma base256_digits:
  fixes n :: nat
  assumes "n < 256 ^ 4"
  shows "(\<Sum>i<4. (n div 256 ^ i mod 256) * 256 ^ i) = n"
proof -
  define a b c where abc: "a = n div 256" "b = a div 256" "c = b div 256"
  have sum4: "(\<Sum>i<4. f i) = f 0 + f 1 + f 2 + f 3" for f :: "nat \<Rightarrow> nat"
    by (simp add: eval_nat_numeral lessThan_Suc)
  have d1: "n = n mod 256 + 256 * a" and d2: "a = a mod 256 + 256 * b"
    and d3: "b = b mod 256 + 256 * c"
    by (simp_all add: abc)
  have "n div 256 ^ 2 = b" "n div 256 ^ 3 = c"
    by (simp_all add: abc div_mult2_eq [symmetric])
  moreover from this(2) have "c mod 256 = c"
    using assms by (simp add: div_less_iff_less_mult)
  ultimately have "(\<Sum>i<4. (n div 256 ^ i mod 256) * 256 ^ i) =
      n mod 256 + a mod 256 * 256 + b mod 256 * 65536 + c * 16777216"
    unfolding sum4 by (simp add: abc(1))
  with d1 d2 d3 show ?thesis by linarith
qed

lemma u32_roundtrip: "u32_of_bytes (bytes_of_u32 w) = w"
proof -
  have lt: "unat w < 256 ^ 4" using unsigned_less [of w] by simp
  have "unat (of_nat (m mod 256) :: byte) = m mod 256" for m
    by (simp add: unat_of_nat)
  then have "(\<Sum>i<4. unat (bytes_of_u32 w ! i) * 256 ^ i) = (\<Sum>i<4. (unat w div 256 ^ i mod 256) * 256 ^ i)"
    by (intro sum.cong) (simp_all add: bytes_of_u32_def)
  with base256_digits [OF lt] show ?thesis by (simp add: u32_of_bytes_def)
qed

lemma length_bytes_of_u32 [simp]: "length (bytes_of_u32 w) = 4"
  by (simp add: bytes_of_u32_def)

lemma seekto_roundtrip: "seekto_of_bytes (bytes_of_seekto t) = t"
  by (simp add: seekto_of_bytes_def bytes_of_seekto_def u32_roundtrip)

lemma IOC_SIZE_seekto [simp]: "IOC_SIZE AESDCHAR_IOCSEEKTO = sizeof_seekto"
  by (simp add: IOC_SIZE_def AESDCHAR_IOCSEEKTO_def IOW_def AESD_IOC_MAGIC_def sizeof_seekto_def)

text \<open>
  What \<open>AESDCHAR_IOCSEEKTO\<close> may return: the structure in user memory names a byte of a
  command, and the file position moves to its place in the contents; or it names none, or
  the structure cannot be read or the wait for the lock is interrupted, and nothing moves.
\<close>

definition ioctl_result :: "kernel \<Rightarrow> kstate \<Rightarrow> addr \<Rightarrow> kfile \<Rightarrow> int \<Rightarrow> kfile \<Rightarrow> bool" where
  "ioctl_result K s arg filp r filp' \<longleftrightarrow>
     (case copy_from_user K (usermem s) arg (of_nat sizeof_seekto) of (left, bs) \<Rightarrow>
        if \<not> access_ok K arg (of_nat sizeof_seekto) \<or> left \<noteq> 0 then r = - EFAULT \<and> filp' = filp
        else if fst (down_write_killable K (lock (aesd_device s))) \<noteq> 0 then r = - EINTR \<and> filp' = filp
        else length bs = 8 \<and> umem_holds (usermem s) arg bs \<and>
          (case global_pos (map length (commands (drv_spec s))) (unat (write_cmd (seekto_of_bytes bs)))
                  (unat (write_cmd_offset (seekto_of_bytes bs))) of
             None \<Rightarrow> r = - EINVAL \<and> filp' = filp
           | Some p \<Rightarrow> r = 0 \<and> p < length (spec_contents (drv_spec s)) \<and>
                       filp' = filp\<lparr>f_pos := of_nat p\<rparr>))"

lemma set_lock_id: "set_lock (lock (aesd_device s)) s = s"
  by simp

lemma aesd_ioctl_seekto_ok:
  assumes "user_laws K" "lock_laws K" "drv_inv s" "private_data filp \<noteq> Null_Dev"
  obtains r filp' where "aesd_ioctl K filp AESDCHAR_IOCSEEKTO arg s = Inr (r, filp', s)"
    "ioctl_result K s arg filp r filp'"
proof -
  let ?sz = "of_nat sizeof_seekto :: size_t" and ?l = "lock (aesd_device s)"
  obtain left bs where cp: "copy_from_user K (usermem s) arg ?sz = (left, bs)" by force
  note len = copy_from_user_law(1) [OF assms(1) cp] and um = copy_from_user_law(2) [OF assms(1) cp]
  have len8: "length bs = 8" using len by (simp add: sizeof_seekto_def)
  show thesis
  proof (cases "access_ok K arg ?sz \<and> left = 0")
    case False
    then have "aesd_ioctl K filp AESDCHAR_IOCSEEKTO arg s = Inr (- EFAULT, filp, s)"
      using assms(4) cp by (auto simp: aesd_ioctl_def)
    then show thesis using False cp by (intro that [of "- EFAULT" filp]) (auto simp: ioctl_result_def)
  next
    case True
    then have acc: "access_ok K arg ?sz" and left: "left = 0" by simp_all
    show thesis
    proof (rule down_write_cases [OF assms(2), of ?l], goal_cases taken intr)
      case (intr res)
      then have "aesd_ioctl K filp AESDCHAR_IOCSEEKTO arg s = Inr (- EINTR, filp, s)"
        using assms(4) cp acc left by (simp add: aesd_ioctl_def)
      then show ?thesis using acc left cp intr by (intro that [of "- EINTR" filp]) (simp_all add: ioctl_result_def)
    next
      case taken
      let ?t = "seekto_of_bytes bs" and ?ns = "map length (commands (drv_spec s))"
      let ?g = "global_pos ?ns (unat (write_cmd ?t)) (unat (write_cmd_offset ?t))"
      note sz = drv_inv_commands [OF assms(3)]
      have wf: "cb_wf (buffer (aesd_device s))" using assms(3) by (simp add: drv_inv_def drv_frame_def)
      have "aesd_ioctl K filp AESDCHAR_IOCSEEKTO arg s =
          Inr (case ?g of None \<Rightarrow> (- EINVAL, filp, s) | Some p \<Rightarrow> (0, filp\<lparr>f_pos := of_nat p\<rparr>, s))"
        using assms(4) cp acc left taken(1,2) offset_at_eq [OF wf sz(2)]
        by (simp add: aesd_ioctl_def aesd_ioctl_locked_def sz(1) split: option.split)
      moreover have "p < length (spec_contents (drv_spec s))" if "?g = Some p" for p
        using global_pos_less [OF that] by (simp add: spec_contents_def sum_list_map_length)
      ultimately show ?thesis
        using that len8 um left acc cp taken(1) by (cases ?g) (fastforce simp: ioctl_result_def)+
    qed
  qed
qed

lemma aesd_llseek_ok:
  assumes "lock_laws K" "drv_inv s" "private_data filp \<noteq> Null_Dev"
  obtains (intr) "aesd_llseek K filp offset whence s = Inr (- EINTR, filp, s)"
  | (seek) r pos where "aesd_llseek K filp offset whence s = Inr (sint r, filp\<lparr>f_pos := pos\<rparr>, s)"
      "fixed_size_llseek K (f_pos filp) offset whence
         (of_nat (length (spec_contents (drv_spec s)))) = (r, pos)"
proof -
  have wf: "cb_wf (buffer (aesd_device s))" using assms(2) by (simp add: drv_inv_def drv_frame_def)
  have sz: "sum_list (cb_sizes (cb_entries (buffer (aesd_device s)))) =
      length (spec_contents (drv_spec s))"
    by (simp add: drv_inv_commands(1) [OF assms(2)] spec_contents_def sum_list_map_length)
  show thesis
  proof (rule down_write_cases [OF assms(1), of "lock (aesd_device s)"], goal_cases taken intr)
    case intr
    then show ?thesis
      using assms(3) by (intro that(1)) (simp add: aesd_llseek_def)
  next
    case taken
    obtain r pos where "fixed_size_llseek K (f_pos filp) offset whence
         (of_nat (length (spec_contents (drv_spec s)))) = (r, pos)" by force
    then show ?thesis
      using assms(3) taken(1,2) bytes_size_eq [OF wf]
      by (intro that(2) [of r pos]) (simp_all add: aesd_llseek_def sz)
  qed
qed

section \<open>Reads and the contents of the device\<close>

lemma spec_read_prefix:
  "spec_read p n d = take (length (spec_read p n d)) (drop p (spec_contents d))"
proof (cases "locate p (map length (commands d))")
  case (Some kj)
  then obtain k j where kj: "locate p (map length (commands d)) = Some (k, j)" by (cases kj) simp
  have "drop p (spec_contents d) = drop j (commands d ! k) @ concat (drop (Suc k) (commands d))"
    using locate_drop_concat [OF kj] by (simp add: spec_contents_def)
  with kj show ?thesis by (simp add: spec_read_def min_def)
qed (simp add: spec_read_def)

lemma spec_read_length: "length (spec_read p n d) \<le> n"
  by (simp add: spec_read_def split: option.split)

lemma spec_read_Nil_iff: "spec_read p n d = [] \<longleftrightarrow> n = 0 \<or> length (spec_contents d) \<le> p"
proof (cases "locate p (map length (commands d))")
  case None
  then have "length (spec_contents d) \<le> p"
    by (simp add: locate_None_iff spec_contents_def sum_list_map_length)
  with None show ?thesis by (simp add: spec_read_def)
next
  case (Some kj)
  then obtain k j where kj: "locate p (map length (commands d)) = Some (k, j)" by (cases kj) simp
  have "j < length (commands d ! k)" "\<not> length (spec_contents d) \<le> p"
    using locate_Some_bounds [OF kj] locate_None_iff [of p "map length (commands d)"] kj
    by (auto simp: spec_contents_def sum_list_map_length)
  with kj show ?thesis by (simp add: spec_read_def)
qed

text \<open>When the ioctl is not refused by a service, its result is determined by its argument.\<close>

definition ioctl_served :: "kernel \<Rightarrow> addr \<Rightarrow> kstate \<Rightarrow> bool" where
  "ioctl_served K arg s \<longleftrightarrow>
     access_ok K arg (of_nat sizeof_seekto) \<and>
     fst (copy_from_user K (usermem s) arg (of_nat sizeof_seekto)) = 0 \<and>
     fst (down_write_killable K (lock (aesd_device s))) = 0"

lemma umem_holds_unique:
  "umem_holds um a xs \<Longrightarrow> umem_holds um a ys \<Longrightarrow> length xs = length ys \<Longrightarrow> xs = ys"
  by (rule nth_equalityI) (auto simp: umem_holds_def)

lemma aesd_ioctl_served:
  assumes "user_laws K" "lock_laws K" "drv_inv s" "private_data filp \<noteq> Null_Dev"
    "ioctl_served K arg s" "umem_holds (usermem s) arg (bytes_of_seekto t)"
  shows "aesd_ioctl K filp AESDCHAR_IOCSEEKTO arg s =
    Inr (case global_pos (map length (commands (drv_spec s))) (unat (write_cmd t))
                (unat (write_cmd_offset t)) of
           None \<Rightarrow> (- EINVAL, filp, s)
         | Some p \<Rightarrow> (0, filp\<lparr>f_pos := of_nat p\<rparr>, s))"
proof -
  let ?sz = "of_nat sizeof_seekto :: size_t" and ?l = "lock (aesd_device s)"
  obtain bs where cp: "copy_from_user K (usermem s) arg ?sz = (0, bs)"
    using assms(5) by (cases "copy_from_user K (usermem s) arg ?sz") (simp add: ioctl_served_def)
  have "bs = bytes_of_seekto t"
    using copy_from_user_law [OF assms(1) cp] assms(6)
    by (intro umem_holds_unique) (simp_all add: bytes_of_seekto_def sizeof_seekto_def)
  then have t: "seekto_of_bytes bs = t" by (simp add: seekto_roundtrip)
  note sz = drv_inv_commands [OF assms(3)]
  have wf: "cb_wf (buffer (aesd_device s))" using assms(3) by (simp add: drv_inv_def drv_frame_def)
  show ?thesis
  proof (rule down_write_cases [OF assms(2), of ?l], goal_cases taken intr)
    case taken
    then show ?thesis
      using assms(4,5) cp offset_at_eq [OF wf sz(2)]
      by (simp add: aesd_ioctl_def aesd_ioctl_locked_def ioctl_served_def sz(1) t split: option.split)
  qed (use assms(5) in \<open>simp add: ioctl_served_def\<close>)
qed

section \<open>Properties\<close>

text \<open>
  C17: A read streams the concatenation of the stored commands. It always returns,
  changes nothing but user memory, and either delivers \<open>r\<close> bytes, namely those of the contents
  from the file position on, at most \<open>count\<close> of them, and advances the position by \<open>r\<close>, where
  \<open>r\<close> is 0 only at the end of the contents (or when none were asked for); or it returns
  \<open>-EFAULT\<close> or \<open>-ERESTARTSYS\<close> and leaves the position alone.
\<close>

theorem aesd_read_streams:
  assumes "user_laws K" "lock_laws K" "drv_inv s" "private_data filp \<noteq> Null_Dev"
  shows "\<exists>r fpos' um. aesd_read K filp buf count fpos s = Inr (r, fpos', s\<lparr>usermem := um\<rparr>) \<and>
    (0 \<le> r \<and> nat r \<le> unat count \<and> unat fpos' = unat fpos + nat r \<and>
       (\<exists>bs. length bs = nat r \<and> um = write_umem (usermem s) buf bs \<and>
          bs = take (nat r) (drop (unat fpos) (spec_contents (drv_spec s)))) \<and>
       (r = 0 \<longleftrightarrow> count = 0 \<or> length (spec_contents (drv_spec s)) \<le> unat fpos) \<or>
     r = - EFAULT \<and> fpos' = fpos \<or>
     r = - ERESTARTSYS \<and> fpos' = fpos \<and> um = usermem s)"
proof -
  let ?bs = "spec_read (unat fpos) (unat count) (drv_spec s)"
  obtain r fpos' um where r: "aesd_read K filp buf count fpos s = Inr (r, fpos', s\<lparr>usermem := um\<rparr>)"
    "read_result (usermem s) buf count fpos (drv_spec s) r fpos' um"
    using aesd_read_ok [OF assms] by metis
  have e: "length ?bs = 0 \<longleftrightarrow> count = 0 \<or> length (spec_contents (drv_spec s)) \<le> unat fpos"
    using spec_read_Nil_iff [of "unat fpos" "unat count" "drv_spec s"] by (simp add: unat_eq_zero)
  consider (ok) "r = int (length ?bs)" "unat fpos' = unat fpos + length ?bs"
      "um = write_umem (usermem s) buf ?bs"
    | (err) "r = - EFAULT \<and> fpos' = fpos \<or> r = - ERESTARTSYS \<and> fpos' = fpos \<and> um = usermem s"
    using r(2) by (auto simp: read_result_def Let_def)
  then show ?thesis
  proof cases
    case ok
    then have "nat r = length ?bs" "r = 0 \<longleftrightarrow> length ?bs = 0" "0 \<le> r" by simp_all
    moreover have "?bs = take (nat r) (drop (unat fpos) (spec_contents (drv_spec s)))"
      using spec_read_prefix calculation(1) by metis
    ultimately show ?thesis
      using r(1) ok(2,3) e spec_read_length [of "unat fpos" "unat count" "drv_spec s"] by metis
  qed (use r(1) in blast)
qed

theorem aesd_read_streams_witness:
  "drv_inv example_state \<and>
   (\<exists>r fpos' um. aesd_read demo_kernel example_file 0 2 1 example_state =
      Inr (r, fpos', example_state\<lparr>usermem := um\<rparr>))"
  using aesd_read_streams [OF demo_user_laws demo_lock_laws example_state_inv, of example_file 0 2 1]
    example_state_inv by (auto simp: example_state_sel)

text \<open>
  When neither the lock nor the copy to user memory is refused, the read
  returns the bytes of the command that holds the file position, from there to the end of the
  command or up to \<open>count\<close> of them, and puts them in the user's buffer.
\<close>

lemma aesd_read_delivers:
  assumes "user_laws K" "lock_laws K" "drv_inv s" "private_data filp \<noteq> Null_Dev"
    and "read_served K buf count s"
  shows "\<exists>fpos'. aesd_read K filp buf count fpos s =
      Inr (int (length (spec_read (unat fpos) (unat count) (drv_spec s))), fpos',
           s\<lparr>usermem := write_umem (usermem s) buf
                         (spec_read (unat fpos) (unat count) (drv_spec s))\<rparr>) \<and>
    unat fpos' = unat fpos + length (spec_read (unat fpos) (unat count) (drv_spec s))"
proof -
  obtain r fpos' um where r: "aesd_read K filp buf count fpos s = Inr (r, fpos', s\<lparr>usermem := um\<rparr>)"
    "read_result (usermem s) buf count fpos (drv_spec s) r fpos' um" "0 \<le> r"
    using aesd_read_ok [OF assms(1-4)] assms(5) by metis
  then show ?thesis by (auto simp: read_result_def Let_def errno_defs)
qed

lemma example_read_served: "read_served demo_kernel 0 2 example_state"
  by (auto simp: read_served_def copies_out_def demo_kernel_def example_state_def)

text \<open>
  C25: Every branch of the ioctl handler; it always returns, with the device unchanged. An unknown
  command gives \<open>-EINVAL\<close>. \<open>AESDCHAR_IOCSEEKTO\<close> gives \<open>-EFAULT\<close> exactly when its argument may not be
  accessed or cannot be copied, otherwise \<open>-EINTR\<close> exactly when the wait for the semaphore is
  interrupted; otherwise it moves the file position to the byte of the contents that the argument,
  as it is in user memory, names, and returns 0, or returns \<open>-EINVAL\<close> when there is no such byte.
  With an error the file is left alone.
\<close>

theorem aesd_ioctl_correct:
  assumes "user_laws K" "lock_laws K" "drv_inv s" "private_data filp \<noteq> Null_Dev"
  shows "\<exists>r filp'. aesd_ioctl K filp cmd arg s = Inr (r, filp', s) \<and>
    (if cmd = AESDCHAR_IOCSEEKTO then ioctl_result K s arg filp r filp'
     else r = - EINVAL \<and> filp' = filp)"
proof (cases "cmd = AESDCHAR_IOCSEEKTO")
  case True
  then show ?thesis using aesd_ioctl_seekto_ok [OF assms] by metis
qed (use assms(4) in \<open>simp add: aesd_ioctl_def\<close>)

theorem aesd_ioctl_correct_witness:
  "\<exists>r filp'. aesd_ioctl demo_kernel example_file AESDCHAR_IOCSEEKTO 2 example_state =
     Inr (r, filp', example_state) \<and>
     ioctl_result demo_kernel example_state 2 example_file r filp'"
  using aesd_ioctl_correct [OF demo_user_laws demo_lock_laws example_state_inv,
      of example_file AESDCHAR_IOCSEEKTO 2]
  by (auto simp: example_state_sel)

text \<open>
  C20: Seeking to byte \<open>write_cmd_offset\<close> of command \<open>write_cmd\<close> and reading then
  yields that command from that byte on: when no service refuses, the ioctl succeeds for every
  byte that exists, and a read at the position it set delivers \<open>drop j (commands ! i)\<close>, up to
  \<open>count\<close> bytes.
\<close>

theorem aesd_seek_then_read:
  assumes "user_laws K" "lock_laws K" "drv_inv s" "private_data filp \<noteq> Null_Dev"
    and "ioctl_served K arg s" "umem_holds (usermem s) arg (bytes_of_seekto t)"
    and "unat (write_cmd t) < length (commands (drv_spec s))"
      "unat (write_cmd_offset t) < length (commands (drv_spec s) ! unat (write_cmd t))"
    and "read_served K buf count s"
  shows "\<exists>filp' fpos' bs. aesd_ioctl K filp AESDCHAR_IOCSEEKTO arg s = Inr (0, filp', s) \<and>
    bs = take (unat count) (drop (unat (write_cmd_offset t)) (commands (drv_spec s) ! unat (write_cmd t))) \<and>
    aesd_read K filp' buf count (f_pos filp') s =
      Inr (int (length bs), fpos', s\<lparr>usermem := write_umem (usermem s) buf bs\<rparr>)"
proof -
  let ?d = "drv_spec s" and ?i = "unat (write_cmd t)" and ?j = "unat (write_cmd_offset t)"
  obtain p where p: "global_pos (map length (commands ?d)) ?i ?j = Some p"
    using assms(7,8) by (simp add: global_pos_def)
  let ?f = "filp\<lparr>f_pos := of_nat p\<rparr>"
  have "p < 10 * 2 ^ 48"
    using global_pos_less [OF p] drv_inv_commands(3) [OF assms(3)]
    by (simp add: spec_contents_def sum_list_map_length)
  then have u: "unat (of_nat p :: loff_t) = p" by (simp add: unat_of_nat)
  have spec: "spec_read (unat (f_pos ?f)) (unat count) ?d = take (unat count) (drop ?j (commands ?d ! ?i))"
    using p [folded locate_iff_global_pos] by (simp add: u spec_read_def)
  obtain r fpos' um where r: "aesd_read K ?f buf count (f_pos ?f) s = Inr (r, fpos', s\<lparr>usermem := um\<rparr>)"
    "read_result (usermem s) buf count (f_pos ?f) ?d r fpos' um" "0 \<le> r"
    using aesd_read_ok [OF assms(1-3), of ?f buf count "f_pos ?f"] assms(4,9) by auto
  then show ?thesis
    using aesd_ioctl_served [OF assms(1-6)] p spec
    by (intro exI [of _ ?f]) (auto simp: read_result_def Let_def errno_defs)
qed

theorem aesd_seek_then_read_witness:
  "\<exists>filp' fpos'. aesd_ioctl demo_kernel example_file AESDCHAR_IOCSEEKTO 2 example_state =
      Inr (0, filp', example_state) \<and>
    aesd_read demo_kernel filp' 0 2 (f_pos filp') example_state =
      Inr (1, fpos', example_state\<lparr>usermem := write_umem (usermem example_state) 0 [10]\<rparr>)"
proof -
  let ?t = "\<lparr>write_cmd = 0, write_cmd_offset = 1\<rparr>"
  have b: "bytes_of_seekto ?t = [0, 0, 0, 0, 1, 0, 0, 0]"
    by (simp add: bytes_of_seekto_def bytes_of_u32_def upt_conv_Cons)
  have m: "umem_holds (usermem example_state) 2 (bytes_of_seekto ?t)"
    unfolding b by (auto simp: umem_holds_def example_state_def less_Suc_eq)
  have "ioctl_served demo_kernel 2 example_state"
    using demo_copy_from_user [OF m, of "of_nat sizeof_seekto"] b
    by (simp add: ioctl_served_def sizeof_seekto_def) (simp add: demo_kernel_def example_state_def)
  from aesd_seek_then_read [OF demo_user_laws demo_lock_laws example_state_inv _ this m _ _
      example_read_served, of example_file]
  show ?thesis by (auto simp: example_state_sel example_state_spec)
qed

text \<open>
  C39: Repositioning keeps the file position inside the contents: from a valid
  position a seek always returns with the device unchanged; a non-negative result is the new
  position and lies between 0 and the number of stored bytes, a negative one leaves the
  position alone.
\<close>

theorem aesd_llseek_bounds:
  assumes "lock_laws K" "seek_laws K" "drv_inv s" "private_data filp \<noteq> Null_Dev"
    and "0 \<le> sint (f_pos filp)" "sint (f_pos filp) \<le> int (length (spec_contents (drv_spec s)))"
  shows "\<exists>r filp'. aesd_llseek K filp offset whence s = Inr (r, filp', s) \<and>
    private_data filp' = private_data filp \<and>
    (if 0 \<le> r then sint (f_pos filp') = r \<and> r \<le> int (length (spec_contents (drv_spec s)))
     else filp' = filp)"
proof -
  let ?n = "length (spec_contents (drv_spec s))"
  show ?thesis
  proof (rule aesd_llseek_ok [OF assms(1,3,4), of offset whence], goal_cases intr seek)
    case intr
    then show ?case by (auto simp: errno_defs)
  next
    case (seek r pos)
    have "?n < 2 ^ 63" using drv_inv_commands(3) [OF assms(3)] by simp
    then have n: "sint (of_nat ?n :: loff_t) = int ?n"
      using sint_word_of_int [of "int ?n"] by simp
    note law = fixed_size_llseek_law [OF assms(2,5) _ seek(2), unfolded n]
    from law assms(6) have "(if 0 \<le> sint r then pos = r \<and> sint r \<le> int ?n else pos = f_pos filp)"
      by (auto split: if_splits)
    with seek(1) show ?case by (auto split: if_splits)
  qed
qed

theorem aesd_llseek_bounds_witness:
  "\<exists>r filp'. aesd_llseek demo_kernel example_file 1 0 example_state = Inr (r, filp', example_state) \<and>
     r \<le> 2"
  using aesd_llseek_bounds [OF demo_lock_laws demo_seek_laws example_state_inv, of example_file 1 0]
  by (auto simp: example_state_sel example_state_spec spec_contents_def split: if_splits)

text \<open>
  Decoding the bytes of an encoded \<open>struct aesd_seekto\<close> gives the
  structure back, and the ioctl number carries the size of exactly this structure.
\<close>

lemma seekto_layout:
  "seekto_of_bytes (bytes_of_seekto t) = t \<and>
   length (bytes_of_seekto t) = IOC_SIZE AESDCHAR_IOCSEEKTO"
  by (simp add: seekto_roundtrip) (simp add: bytes_of_seekto_def sizeof_seekto_def)

end
