(* ===== verification/Client_Flow.thy ===== *)
theory Client_Flow
  imports Packet_Fragment Driver_Read
begin

text \<open>
  The thread that serves one connection: \<open>server/client_flow.{h,c}\<close>, in the configuration
  the header selects by default (\<open>USE_AESD_CHAR_DEVICE\<close> is 1, the data file is
  \<open>/dev/aesdchar\<close>). The data file behaves as the abstract device of theory \<open>Driver_Spec\<close>,
  which the driver implements. The C library is modelled as far as the sources use it
  (\<open>fread\<close>, \<open>fwrite\<close> with \<open>fflush\<close>, \<open>sscanf\<close>, \<open>memchr\<close>, the reader/writer lock); \<open>malloc\<close> and
  the way \<open>stdio\<close> cuts a buffer into system calls are the parameter \<open>L\<close>. What the socket
  delivers is an argument: the chunks successive \<open>recv\<close> calls return.
\<close>

section \<open>Data\<close>

record stream =                 \<comment> \<open>\<open>FILE\<close>\<close>
  file_pos :: nat               \<comment> \<open>position of the open file\<close>
  file_eof :: bool              \<comment> \<open>the end-of-file indicator\<close>

record client_info =
  peer_fd :: int
  thread :: nat
  shared :: bool                \<comment> \<open>\<open>shared != NULL\<close>\<close>
  fragments :: ptr
  cfile :: "stream option"      \<comment> \<open>\<open>file\<close>\<close>

record cstate =
  allocs :: nat                 \<comment> \<open>calls of \<open>malloc\<close> so far\<close>
  frags :: frag_heap
  chars :: heap                 \<comment> \<open>character blocks from \<open>malloc\<close>\<close>
  sent :: "byte list list"      \<comment> \<open>the buffers passed to \<open>send\<close>\<close>
  open_fds :: "int set"
  dev :: dev_spec               \<comment> \<open>the device behind the data file\<close>
  rw_file_lock :: rw_semaphore  \<comment> \<open>\<open>shared->rw_file_lock\<close>\<close>
  client :: client_info

record libc =
  malloc_frag :: frag_malloc
  malloc_chars :: "nat \<Rightarrow> heap \<Rightarrow> nat \<Rightarrow> (addr \<times> byte list) option"
  stdio_split :: "byte list \<Rightarrow> byte list list"
    \<comment> \<open>the system calls that write out a buffer\<close>

definition libc_laws :: "libc \<Rightarrow> bool" where
  "libc_laws L \<longleftrightarrow>
     frag_malloc_laws (malloc_frag L) \<and>
     (\<forall>t m n a junk. malloc_chars L t m n = Some (a, junk) \<longrightarrow> m a = None \<and> length junk = n) \<and>
     (\<forall>bs. concat (stdio_split L bs) = bs \<and> [] \<notin> set (stdio_split L bs))"

text \<open>Memory is available: no allocation on a finite heap fails.\<close>

definition libc_serves :: "libc \<Rightarrow> bool" where
  "libc_serves L \<longleftrightarrow>
     (\<forall>t h. finite (dom h) \<longrightarrow> malloc_frag L t h \<noteq> None) \<and>
     (\<forall>t m n. finite (dom m) \<longrightarrow> malloc_chars L t m n \<noteq> None)"

section \<open>The C library\<close>

text \<open>
  \<open>fread\<close> issues \<open>read\<close> calls until it has all the bytes or a call returns none; the
  end-of-file indicator then stays set, and no further data is read until it is cleared.
\<close>

function read_full :: "dev_spec \<Rightarrow> nat \<Rightarrow> nat \<Rightarrow> byte list" where
  "read_full d p n =
     (let bs = spec_read p n d in
      if bs = [] then [] else bs @ read_full d (p + length bs) (n - length bs))"
  by auto
termination
proof (relation "measure (\<lambda>(d, p, n). n)")
  fix d :: dev_spec and p n :: nat and bs
  assume "bs = spec_read p n d" "bs \<noteq> []"
  then show "((d, p + length bs, n - length bs), d, p, n) \<in> measure (\<lambda>(d, p, n). n)"
    using spec_read_Nil_iff [of p n d] by simp
qed simp

declare read_full.simps [simp del]

definition fread :: "dev_spec \<Rightarrow> nat \<Rightarrow> stream \<Rightarrow> byte list \<times> stream" where
  "fread d n f =
     (if file_eof f then ([], f)
      else let bs = read_full d (file_pos f) n
           in (bs, \<lparr>file_pos = file_pos f + length bs, file_eof = length bs < n\<rparr>))"

text \<open>\<open>fwrite\<close> of the whole buffer followed by \<open>fflush\<close>.\<close>

definition fwrite_flush :: "libc \<Rightarrow> byte list \<Rightarrow> dev_spec \<Rightarrow> dev_spec" where
  "fwrite_flush L bs d = fold spec_write (stdio_split L bs) d"

text \<open>\<open>ioctl(fd, AESDCHAR_IOCSEEKTO, &seekto)\<close>; the sources ignore its result.\<close>

definition ioctl_seekto :: "dev_spec \<Rightarrow> aesd_seekto \<Rightarrow> stream \<Rightarrow> stream" where
  "ioctl_seekto d t f =
     (case global_pos (map length (commands d)) (unat (write_cmd t)) (unat (write_cmd_offset t)) of
        None \<Rightarrow> f
      | Some p \<Rightarrow> f\<lparr>file_pos := p\<rparr>)"

fun memchr_nl :: "byte list \<Rightarrow> nat option" where
  "memchr_nl [] = None"
| "memchr_nl (b # bs) = (if b = newline then Some 0 else map_option Suc (memchr_nl bs))"

text \<open>
  The conversion \<open>%u\<close>: white space is skipped, a sign is accepted, the digits are read as
  \<open>strtoul\<close> does, and the result is stored in 32 bits.
\<close>

definition is_space :: "byte \<Rightarrow> bool" where
  "is_space b \<longleftrightarrow> b = 32 \<or> 9 \<le> b \<and> b \<le> 13"

definition is_digit :: "byte \<Rightarrow> bool" where
  "is_digit b \<longleftrightarrow> 48 \<le> b \<and> b \<le> 57"

definition digits_value :: "byte list \<Rightarrow> nat" where
  "digits_value ds = foldl (\<lambda>n d. 10 * n + (unat d - 48)) 0 ds"

definition strtoul_u32 :: "bool \<Rightarrow> nat \<Rightarrow> uint32" where
  "strtoul_u32 neg n =
     ucast (if n < 2 ^ 64 then if neg then - of_nat n else of_nat n else - 1 :: 64 word)"

definition scan_u :: "byte list \<Rightarrow> (uint32 \<times> byte list) option" where
  "scan_u s =
     (let s1 = dropWhile is_space s;
          neg = (s1 \<noteq> [] \<and> hd s1 = 45);
          s2 = (if s1 \<noteq> [] \<and> hd s1 \<in> {43, 45} then tl s1 else s1);
          ds = takeWhile is_digit s2
      in if ds = [] then None else Some (strtoul_u32 neg (digits_value ds), dropWhile is_digit s2))"

definition seekto_prefix :: "byte list" where
  "seekto_prefix = map of_char ''AESDCHAR_IOCSEEKTO:''"

text \<open>
  \<open>sscanf(s, "AESDCHAR_IOCSEEKTO:%u,%u", &a, &b)\<close> on the string \<open>s\<close> (without its
  terminating zero): the number of conversions, -1 when the input ends before the first one,
  and the stored values, 0 where none was stored.
\<close>

definition sscanf_seekto :: "byte list \<Rightarrow> int \<times> aesd_seekto" where
  "sscanf_seekto s =
     (let n = length seekto_prefix; zero = \<lparr>write_cmd = 0, write_cmd_offset = 0\<rparr> in
      if take n s \<noteq> seekto_prefix
      then (if take (length s) seekto_prefix = s then - 1 else 0, zero)
      else case scan_u (drop n s) of
             None \<Rightarrow> (if dropWhile is_space (drop n s) = [] then - 1 else 0, zero)
           | Some (a, s1) \<Rightarrow>
               let one = zero\<lparr>write_cmd := a\<rparr> in
               if s1 \<noteq> [] \<and> hd s1 = 44
               then case scan_u (tl s1) of
                      None \<Rightarrow> (1, one)
                    | Some (b, _) \<Rightarrow> (2, one\<lparr>write_cmd_offset := b\<rparr>)
               else (1, one))"

definition rwlock_rdlock :: "rw_semaphore \<Rightarrow> rw_semaphore" where
  "rwlock_rdlock l = l\<lparr>readers := Suc (readers l)\<rparr>"

definition rwlock_wrlock :: "rw_semaphore \<Rightarrow> rw_semaphore" where
  "rwlock_wrlock l = l\<lparr>writer := True\<rparr>"

definition rwlock_unlock :: "rw_semaphore \<Rightarrow> rw_semaphore" where
  "rwlock_unlock l =
     (if writer l then l\<lparr>writer := False\<rparr> else l\<lparr>readers := readers l - 1\<rparr>)"

section \<open>Replying\<close>

lemma read_full_bounds: "read_full d p n = [] \<or> p < length (spec_contents d)"
  by (subst read_full.simps) (auto simp: Let_def spec_read_Nil_iff)

text \<open>The loop of \<open>reply_to_client\<close>; \<open>acc\<close> collects the buffers sent.\<close>

function reply_loop ::
  "dev_spec \<Rightarrow> stream \<Rightarrow> byte list list \<Rightarrow> byte list list \<times> stream" where
  "reply_loop d f acc =
     (let bs = fst (fread d BUFFER_SIZE f); f' = snd (fread d BUFFER_SIZE f) in
      if bs = [] then (acc, f') else reply_loop d f' (acc @ [bs]))"
  by auto
termination
proof (relation "measure (\<lambda>(d, f, acc). length (spec_contents d) - file_pos f)")
  fix d :: dev_spec and f :: stream and acc :: "byte list list" and bs f'
  assume "bs = fst (fread d BUFFER_SIZE f)" "f' = snd (fread d BUFFER_SIZE f)" "bs \<noteq> []"
  then show "((d, f', acc @ [bs]), d, f, acc)
      \<in> measure (\<lambda>(d, f, acc). length (spec_contents d) - file_pos f)"
    using read_full_bounds [of d "file_pos f" BUFFER_SIZE]
    by (auto simp: fread_def Let_def split: if_splits intro!: diff_less_mono2)
qed simp

declare reply_loop.simps [simp del]

definition reply_to_client :: "cstate \<Rightarrow> cstate res" where
  "reply_to_client \<sigma> =
     c_assert (cfile (client \<sigma>) \<noteq> NULL)
      (let s1 = \<sigma>\<lparr>rw_file_lock := rwlock_rdlock (rw_file_lock \<sigma>)\<rparr> in
       case reply_loop (dev s1) (the (cfile (client s1))) [] of (bufs, f) \<Rightarrow>
         let s2 = s1\<lparr>sent := sent s1 @ bufs, client := (client s1)\<lparr>cfile := Some f\<rparr>\<rparr>
         in Inr (s2\<lparr>rw_file_lock := rwlock_unlock (rw_file_lock s2)\<rparr>))"

section \<open>Collecting a packet\<close>

text \<open>The two loops of \<open>flatten_fragments\<close>, for at most \<open>n\<close> rounds.\<close>

fun total_loop :: "nat \<Rightarrow> frag_heap \<Rightarrow> ptr \<Rightarrow> nat \<Rightarrow> nat res" where
  "total_loop n h None total_size = Inr total_size"
| "total_loop 0 h (Some a) total_size = Inl No_Return"
| "total_loop (Suc n) h (Some a) total_size =
     res_bind (frag_at h (Some a)) (\<lambda>f. total_loop n h (fnext f) (total_size + fsize f))"

fun copy_loop ::
  "nat \<Rightarrow> ptr \<Rightarrow> addr \<Rightarrow> nat \<Rightarrow> frag_heap \<Rightarrow> heap \<Rightarrow> ptr \<Rightarrow> (frag_heap \<times> heap \<times> ptr) res" where
  "copy_loop n None buf off h m first = Inr (h, m, first)"
| "copy_loop 0 (Some a) buf off h m first = Inl No_Return"
| "copy_loop (Suc n) (Some a) buf off h m first =
     res_bind (frag_at h (Some a)) (\<lambda>f.
       if length (fbuffer f) < fdata f + fsize f then Inl Out_Of_Bounds
       else res_bind (store_block m buf off (frag_bytes f)) (\<lambda>m'.
         case fnext f of
           None \<Rightarrow> copy_loop n None buf (off + fsize f) h m' first
         | Some b \<Rightarrow>
             res_bind (frag_free h a) (\<lambda>h'.
               copy_loop n (Some b) buf (off + fsize f) h' m' (Some b))))"

text \<open>Returns the buffer and its size; the out-parameter is 0 when there is no buffer.\<close>

definition flatten_fragments :: "libc \<Rightarrow> nat \<Rightarrow> cstate \<Rightarrow> (ptr \<times> nat \<times> cstate) res" where
  "flatten_fragments L n \<sigma> =
     res_bind (total_loop n (frags \<sigma>) (fragments (client \<sigma>)) 0) (\<lambda>total_size.
       let s1 = \<sigma>\<lparr>allocs := Suc (allocs \<sigma>)\<rparr> in
       case malloc_chars L (allocs \<sigma>) (chars \<sigma>) total_size of
         None \<Rightarrow> Inr (NULL, 0, s1)
       | Some (buf, junk) \<Rightarrow>
           res_bind (copy_loop n (fragments (client s1)) buf 0 (frags s1)
                       ((chars s1)(buf \<mapsto> junk)) (fragments (client s1))) (\<lambda>(h, m, first).
             Inr (Some buf, total_size,
                  s1\<lparr>frags := h, chars := m, client := (client s1)\<lparr>fragments := first\<rparr>\<rparr>)))"

text \<open>
  The part of \<open>write_new_packet\<close> under the write lock. \<open>seekto\<close> and \<open>params\<close> come from
  \<open>sscanf\<close> on the packet with its newline replaced by the terminating zero (so a zero byte
  inside the packet ends the string earlier).
\<close>

definition packet_params :: "byte list \<Rightarrow> int \<times> aesd_seekto" where
  "packet_params flat_data = sscanf_seekto (takeWhile (\<lambda>b. b \<noteq> 0) (butlast flat_data))"

definition write_locked :: "libc \<Rightarrow> byte list \<Rightarrow> cstate \<Rightarrow> cstate" where
  "write_locked L flat_data \<sigma> =
     (case packet_params flat_data of (params, seekto) \<Rightarrow>
        if params = 2
        then \<sigma>\<lparr>client := (client \<sigma>)
                  \<lparr>cfile := map_option (ioctl_seekto (dev \<sigma>) seekto) (cfile (client \<sigma>))\<rparr>\<rparr>
        else \<sigma>\<lparr>dev := fwrite_flush L flat_data (dev \<sigma>)\<rparr>)"

definition free_chars :: "heap \<Rightarrow> addr \<Rightarrow> heap res" where
  "free_chars m a = (case m a of None \<Rightarrow> Inl Bad_Free | Some _ \<Rightarrow> Inr (m(a := None)))"

definition write_new_packet :: "libc \<Rightarrow> nat \<Rightarrow> cstate \<Rightarrow> cstate res" where
  "write_new_packet L n \<sigma> =
     c_assert (cfile (client \<sigma>) \<noteq> NULL)
      (res_bind (flatten_fragments L n \<sigma>) (\<lambda>(flat, flat_size, s1).
       res_bind (case flat of
           None \<Rightarrow> Inr s1
         | Some buf \<Rightarrow>
             c_assert (0 < flat_size)
              (res_bind (load_block (chars s1) buf 0 flat_size) (\<lambda>flat_data.
               c_assert (last flat_data = newline)
                (let s2 = s1\<lparr>rw_file_lock := rwlock_wrlock (rw_file_lock s1)\<rparr>;
                     s3 = write_locked L flat_data s2;
                     s4 = s3\<lparr>rw_file_lock := rwlock_unlock (rw_file_lock s3)\<rparr>
                 in res_bind (free_chars (chars s4) buf) (\<lambda>m. Inr (s4\<lparr>chars := m\<rparr>))))))
         reply_to_client))"

section \<open>The connection loop\<close>

text \<open>
  The inner loop over the newlines of what \<open>recv\<close> returned, for at most \<open>k\<close> rounds. It
  returns \<open>bytes_left\<close>, which the sources keep as \<open>ssize_t\<close>; it never drops below 0.
\<close>

fun packet_loop :: "libc \<Rightarrow> nat \<Rightarrow> nat \<Rightarrow> ptr \<Rightarrow> nat \<Rightarrow> cstate \<Rightarrow> (nat \<times> cstate) res" where
  "packet_loop L n 0 curr_fragment bytes_left \<sigma> = Inl No_Return"
| "packet_loop L n (Suc k) curr_fragment bytes_left \<sigma> =
     res_bind (frag_at (frags \<sigma>) curr_fragment) (\<lambda>f.
       if length (fbuffer f) < fdata f + bytes_left then Inl Out_Of_Bounds
       else case memchr_nl (take bytes_left (drop (fdata f) (fbuffer f))) of
           None \<Rightarrow> Inr (bytes_left, \<sigma>)
         | Some i \<Rightarrow>
             res_bind (frag_set (frags \<sigma>) curr_fragment (f\<lparr>fsize := i + 1\<rparr>)) (\<lambda>h1.
             res_bind (write_new_packet L n (\<sigma>\<lparr>frags := h1\<rparr>)) (\<lambda>s2.
             c_assert (fragments (client s2) = curr_fragment)
              (res_bind (frag_at (frags s2) curr_fragment) (\<lambda>f2.
               res_bind (frag_set (frags s2) curr_fragment (f2\<lparr>fdata := fdata f2 + fsize f2\<rparr>)) (\<lambda>h3.
                 packet_loop L n k curr_fragment (bytes_left - fsize f2) (s2\<lparr>frags := h3\<rparr>)))))))"

text \<open>The allocation at the end of a round, and the loop over the chunks received.\<close>

definition alloc_fragment :: "libc \<Rightarrow> cstate \<Rightarrow> ptr \<times> cstate" where
  "alloc_fragment L \<sigma> =
     (case packet_fragment_alloc (malloc_frag L) (allocs \<sigma>) (frags \<sigma>) of (p, h) \<Rightarrow>
        (p, \<sigma>\<lparr>allocs := Suc (allocs \<sigma>), frags := h\<rparr>))"

fun recv_loop :: "libc \<Rightarrow> nat \<Rightarrow> ptr \<Rightarrow> byte list list \<Rightarrow> cstate \<Rightarrow> cstate res" where
  "recv_loop L n curr_fragment [] \<sigma> = res_bind (frag_at (frags \<sigma>) curr_fragment) (\<lambda>_. Inr \<sigma>)"
| "recv_loop L n curr_fragment (c # cs) \<sigma> =
     res_bind (frag_at (frags \<sigma>) curr_fragment) (\<lambda>f.
       if length (fbuffer f) < length c then Inl Out_Of_Bounds
       else
        res_bind (frag_set (frags \<sigma>) curr_fragment
                    (f\<lparr>fbuffer := c @ drop (length c) (fbuffer f), fdata := 0\<rparr>)) (\<lambda>h1.
        res_bind (packet_loop L n (Suc (length c)) curr_fragment (length c) (\<sigma>\<lparr>frags := h1\<rparr>))
         (\<lambda>(bytes_left, s2).
          if 0 < bytes_left then
            res_bind (frag_at (frags s2) curr_fragment) (\<lambda>f2.
            res_bind (frag_set (frags s2) curr_fragment (f2\<lparr>fsize := bytes_left\<rparr>)) (\<lambda>h3.
              case alloc_fragment L (s2\<lparr>frags := h3\<rparr>) of (p, s4) \<Rightarrow>
                res_bind (frag_at (frags s4) curr_fragment) (\<lambda>f4.
                res_bind (frag_set (frags s4) curr_fragment (f4\<lparr>fnext := p\<rparr>)) (\<lambda>h5.
                  recv_loop L n p cs (s4\<lparr>frags := h5\<rparr>)))))
          else recv_loop L n curr_fragment cs s2)))"

text \<open>
  \<open>process_client\<close> up to the end of its loop; the state in which the thread, having handled
  \<open>chunks\<close>, calls \<open>recv\<close> again.
\<close>

definition client_receives :: "libc \<Rightarrow> nat \<Rightarrow> byte list list \<Rightarrow> cstate \<Rightarrow> cstate res" where
  "client_receives L n chunks \<sigma> =
     c_assert (0 \<le> peer_fd (client \<sigma>))
     (c_assert (shared (client \<sigma>))
     (c_assert (fragments (client \<sigma>) = NULL)
       (case alloc_fragment L \<sigma> of (p, s1) \<Rightarrow>
          recv_loop L n p chunks (s1\<lparr>client := (client s1)\<lparr>fragments := p\<rparr>\<rparr>))))"

definition process_client :: "libc \<Rightarrow> nat \<Rightarrow> byte list list \<Rightarrow> cstate \<Rightarrow> cstate res" where
  "process_client L n chunks \<sigma> =
     res_bind (client_receives L n chunks \<sigma>) (\<lambda>s3.
     res_bind (packet_fragments_free n (fragments (client s3)) (frags s3)) (\<lambda>h.
       Inr (s3\<lparr>frags := h, client := (client s3)\<lparr>fragments := NULL\<rparr>\<rparr>)))"

text \<open>The start routine of the thread: \<open>arg\<close> is the address of the client, which it returns.\<close>

definition process_client_thread ::
  "libc \<Rightarrow> nat \<Rightarrow> byte list list \<Rightarrow> ptr \<Rightarrow> cstate \<Rightarrow> (ptr \<times> cstate) res" where
  "process_client_thread L n chunks arg \<sigma> =
     (case arg of
        None \<Rightarrow> Inr (NULL, \<sigma>)
      | Some a \<Rightarrow>
          res_bind (process_client L n chunks \<sigma>) (\<lambda>s1.
            Inr (Some a, s1\<lparr>open_fds := open_fds s1 - {peer_fd (client s1)},
                   client := (client s1)\<lparr>peer_fd := - 1\<rparr>\<rparr>)))"

end
