(* ===== verification/Client_Spec.thy ===== *)
theory Client_Spec
  imports Client_Flow
begin

text \<open>
  What the thread of a connection does, seen from outside: the bytes it receives, in
  whatever chunks they arrive, are cut into lines; each line is one packet, handled in
  order by \<open>packet_spec\<close>: a seek command moves the position of the data file, any other
  line is written to the device, and the reply is what the data file then still has to
  read.
\<close>

section \<open>Specification\<close>

lemma memchr_nl_Some:
  "memchr_nl s = Some i \<Longrightarrow>
     i < length s \<and> s ! i = newline \<and> newline \<notin> set (take i s) \<and>
     take (Suc i) s = take i s @ [newline]"
proof (induction s arbitrary: i)
  case (Cons b s)
  then show ?case by (cases i) (auto split: if_splits)
qed simp

lemma memchr_nl_None: "memchr_nl s = None \<longleftrightarrow> newline \<notin> set s"
  by (induction s) auto

lemma memchr_nl_append:
  "newline \<notin> set p \<Longrightarrow> memchr_nl (p @ s) = map_option ((+) (length p)) (memchr_nl s)"
proof (induction p)
  case Nil
  show ?case by (cases "memchr_nl s") simp_all
next
  case (Cons b p)
  then show ?case by (cases "memchr_nl s") auto
qed

text \<open>The complete lines of a byte stream, each with its newline, and the rest.\<close>

function lines_of :: "byte list \<Rightarrow> byte list list \<times> byte list" where
  "lines_of s =
     (case memchr_nl s of
        None \<Rightarrow> ([], s)
      | Some i \<Rightarrow> (case lines_of (drop (Suc i) s) of (ls, r) \<Rightarrow> (take (Suc i) s # ls, r)))"
  by auto
termination
  by (relation "measure length") (auto dest!: memchr_nl_Some)

declare lines_of.simps [simp del]

lemma lines_of_None: "memchr_nl s = None \<Longrightarrow> lines_of s = ([], s)"
  by (simp add: lines_of.simps)

lemma lines_of_Some:
  "memchr_nl s = Some i \<Longrightarrow> lines_of (drop (Suc i) s) = (ls, r) \<Longrightarrow>
     lines_of s = (take (Suc i) s # ls, r)"
  by (simp add: lines_of.simps [of s])

definition packet_spec :: "byte list \<Rightarrow> dev_spec \<Rightarrow> stream \<Rightarrow> byte list \<times> dev_spec \<times> stream" where
  "packet_spec pkt d f =
     (case packet_params pkt of (params, t) \<Rightarrow>
        let d' = (if params = 2 then d else spec_write pkt d);
            f' = (if params = 2 then ioctl_seekto d t f else f)
        in if file_eof f' then ([], d', f')
           else (drop (file_pos f') (spec_contents d'), d',
                 \<lparr>file_pos = max (file_pos f') (length (spec_contents d')), file_eof = True\<rparr>))"

text \<open>A connection: the bytes sent so far, the device, the open data file.\<close>

type_synonym conn = "byte list \<times> dev_spec \<times> stream"

fun serve :: "byte list list \<Rightarrow> conn \<Rightarrow> conn" where
  "serve [] c = c"
| "serve (p # ps) (out, d, f) =
     (case packet_spec p d f of (r, d', f') \<Rightarrow> serve ps (out @ r, d', f'))"

definition conn_of :: "cstate \<Rightarrow> conn" where
  "conn_of \<sigma> = (concat (sent \<sigma>), dev \<sigma>, the (cfile (client \<sigma>)))"

lemma serve_append: "serve (ps @ qs) c = serve qs (serve ps c)"
proof (induction ps c rule: serve.induct)
  case (2 p ps out d f)
  then show ?case by (cases "packet_spec p d f") auto
qed simp

section \<open>The data file\<close>

lemma read_full_eq: "read_full d p n = take n (drop p (spec_contents d))"
proof (induction d p n rule: read_full.induct)
  case (1 d p n)
  let ?bs = "spec_read p n d" and ?X = "drop p (spec_contents d)"
  show ?case
  proof (cases "?bs = []")
    case True
    then show ?thesis
      using spec_read_Nil_iff [of p n d] by (subst read_full.simps) auto
  next
    case False
    have "read_full d p n = ?bs @ take (n - length ?bs) (drop (length ?bs) ?X)"
      using False 1 by (subst read_full.simps) (simp add: Let_def add.commute)
    also have "\<dots> = take (length ?bs) ?X @ take (n - length ?bs) (drop (length ?bs) ?X)"
      using spec_read_prefix [of p n d] by simp
    also have "\<dots> = take (length ?bs + (n - length ?bs)) ?X" by (simp only: take_add)
    finally show ?thesis using spec_read_length [of p n d] by simp
  qed
qed

lemma reply_loop_eof: "file_eof f \<Longrightarrow> reply_loop d f acc = (acc, f)"
  by (subst reply_loop.simps) (simp add: fread_def)

lemma reply_loop_eq:
  assumes "\<not> file_eof f"
  shows "\<exists>bufs. reply_loop d f acc =
      (acc @ bufs, \<lparr>file_pos = max (file_pos f) (length (spec_contents d)), file_eof = True\<rparr>) \<and>
    concat bufs = drop (file_pos f) (spec_contents d)"
  using assms
proof (induction d f acc rule: reply_loop.induct)
  case (1 d f acc)
  let ?C = "spec_contents d" and ?p = "file_pos f"
  define bs where "bs = take BUFFER_SIZE (drop ?p ?C)"
  define f' where "f' = \<lparr>file_pos = ?p + length bs, file_eof = length bs < BUFFER_SIZE\<rparr>"
  have fr: "fread d BUFFER_SIZE f = (bs, f')"
    using "1.prems" by (simp add: fread_def read_full_eq bs_def f'_def Let_def)
  have step: "reply_loop d f acc = (if bs = [] then (acc, f') else reply_loop d f' (acc @ [bs]))"
    by (subst reply_loop.simps) (simp add: fr)
  show ?case
  proof (cases "bs = []")
    case True
    then have "length ?C \<le> ?p" by (auto simp: bs_def BUFFER_SIZE_def)
    with True show ?thesis by (simp add: step f'_def BUFFER_SIZE_def)
  next
    case ne: False
    then have p: "?p < length ?C" by (auto simp: bs_def)
    show ?thesis
    proof (cases "length bs < BUFFER_SIZE")
      case True
      then have "bs = drop ?p ?C" by (auto simp: bs_def)
      with True ne p show ?thesis
        by (simp add: step reply_loop_eof f'_def)
    next
      case False
      then have len: "length bs = BUFFER_SIZE" by (simp add: bs_def)
      from "1.IH" [of bs f'] ne False obtain bufs where
        "reply_loop d f' (acc @ [bs]) = ((acc @ [bs]) @ bufs,
           \<lparr>file_pos = max (file_pos f') (length ?C), file_eof = True\<rparr>)"
        "concat bufs = drop (file_pos f') ?C"
        by (auto simp: fr f'_def)
      moreover have "drop ?p ?C = bs @ drop (file_pos f') ?C"
        using len by (simp add: bs_def f'_def add.commute append_take_drop_id flip: drop_drop)
      moreover have "max (file_pos f') (length ?C) = max ?p (length ?C)"
        using len p by (simp add: bs_def f'_def)
      ultimately show ?thesis using ne by (simp add: step)
    qed
  qed
qed

text \<open>However \<open>stdio\<close> cuts a line into system calls, the device sees one command.\<close>

lemma fold_spec_write_line:
  assumes "ws \<noteq> []" "[] \<notin> set ws" "\<And>w. w \<in> set (butlast ws) \<Longrightarrow> last w \<noteq> newline"
  shows "fold spec_write ws d = spec_write (concat ws) d"
  using assms
proof (induction ws arbitrary: d)
  case (Cons w ws)
  show ?case
  proof (cases "ws = []")
    case False
    then have w: "w \<noteq> []" "last w \<noteq> newline" and ne: "concat ws \<noteq> []"
      using Cons.prems by (cases ws; auto)+
    have "fold spec_write (w # ws) d = spec_write (concat ws) (spec_write w d)"
      using Cons False by (auto split: if_splits)
    also have "\<dots> = spec_write (w @ concat ws) d"
      using w ne by (auto simp: spec_write_def simp del: concat_eq_Nil_conv)
    finally show ?thesis by simp
  qed simp
qed simp

lemma fwrite_flush_line:
  assumes "libc_laws L" "newline \<notin> set p"
  shows "fwrite_flush L (p @ [newline]) d = spec_write (p @ [newline]) d"
proof -
  let ?ws = "stdio_split L (p @ [newline])"
  have c: "concat ?ws = p @ [newline]" "[] \<notin> set ?ws"
    using assms(1) by (simp_all add: libc_laws_def)
  then have ne: "?ws \<noteq> []" by auto
  then obtain us u where u: "?ws = us @ [u]" by (metis append_butlast_last_id)
  have "u \<noteq> []" using c(2) u by auto
  then obtain u' x where "u = u' @ [x]" by (metis append_butlast_last_id)
  then have "concat us @ u' = p" using c(1) u by simp
  then have "last w \<noteq> newline" if "w \<in> set (butlast ?ws)" for w
  proof -
    have "w \<noteq> []" "newline \<notin> set w"
      using that u c(2) assms(2) \<open>concat us @ u' = p\<close> by auto
    then show ?thesis using last_in_set by metis
  qed
  from fold_spec_write_line [OF ne c(2) this] show ?thesis
    by (simp add: fwrite_flush_def c(1))
qed

text \<open>A packet is a line: it ends in its only newline.\<close>

definition is_line :: "byte list \<Rightarrow> bool" where
  "is_line p \<longleftrightarrow> p \<noteq> [] \<and> last p = newline \<and> newline \<notin> set (butlast p)"

lemma is_lineE:
  assumes "is_line p"
  obtains q where "p = q @ [newline]" "newline \<notin> set q"
  using assms that [of "butlast p"] append_butlast_last_id [of p] by (simp add: is_line_def)

lemma fwrite_flush_is_line: "libc_laws L \<Longrightarrow> is_line p \<Longrightarrow> fwrite_flush L p d = spec_write p d"
  by (erule is_lineE) (simp add: fwrite_flush_line)

section \<open>Flattening\<close>

lemma length_frag_bytes: "frag_ok f \<Longrightarrow> length (frag_bytes f) = fsize f"
  by (auto simp: frag_ok_def frag_bytes_def)

lemma total_loop_ok:
  assumes "frag_list h p as" "length as \<le> n" "\<And>a. a \<in> set as \<Longrightarrow> frag_ok (the (h a))"
  shows "total_loop n h p t = Inr (t + length (chain_bytes h as))"
  using assms
proof (induction as arbitrary: n p t)
  case Nil
  then show ?case by simp
next
  case (Cons a as)
  then obtain f m where f: "p = Some a" "h a = Some f" "frag_list h (fnext f) as" "n = Suc m"
    by (cases n) (auto split: option.splits)
  moreover have "length (frag_bytes f) = fsize f"
    using Cons.prems(3) [of a] f(2) by (simp add: length_frag_bytes)
  ultimately show ?case using Cons by simp
qed

lemma store_block_step:
  assumes "m buf = Some (pre @ junk)" "length data \<le> length junk"
  shows "store_block m buf (length pre) data =
    Inr (m(buf \<mapsto> (pre @ data) @ drop (length data) junk))"
  using assms by (simp add: store_block_def)

text \<open>
  The copy loop puts the bytes of the chain one after the other into the buffer, frees all
  fragments but the last, and leaves \<open>client->fragments\<close> at the last one.
\<close>

lemma copy_loop_ok:
  assumes "frag_list h p as" "as \<noteq> []" "distinct as" "length as \<le> n"
    "\<And>a. a \<in> set as \<Longrightarrow> frag_ok (the (h a))"
    "m buf = Some (pre @ junk)" "length junk = length (chain_bytes h as)" "first = p"
  shows "copy_loop n p buf (length pre) h m first =
    Inr (h |` (- set (butlast as)), m(buf \<mapsto> pre @ chain_bytes h as), Some (last as))"
  using assms
proof (induction as arbitrary: n p h m pre junk first)
  case (Cons a as)
  then obtain f k where f: "p = Some a" "h a = Some f" "frag_list h (fnext f) as" "n = Suc k"
    by (cases n) (auto split: option.splits)
  let ?data = "frag_bytes f"
  have ok: "frag_ok f" and len: "length ?data = fsize f"
    using Cons.prems(5) [of a] f(2) by (simp_all add: length_frag_bytes)
  have st: "store_block m buf (length pre) ?data =
      Inr (m(buf \<mapsto> (pre @ ?data) @ drop (length ?data) junk))"
    using Cons.prems(6,7) f(2) by (intro store_block_step) simp_all
  show ?case
  proof (cases as)
    case Nil
    then have "fnext f = NULL" "junk = [] @ junk" "length junk = length ?data" using f Cons.prems(7) by simp_all
    then show ?thesis
      using f st ok len Nil Cons.prems(8) by (simp add: frag_ok_def) (simp add: fun_upd_def)
  next
    case (Cons b bs)
    let ?h = "h(a := None)" and ?m = "m(buf \<mapsto> (pre @ ?data) @ drop (length ?data) junk)"
    have a: "a \<notin> set as" "distinct as" using Cons.prems(3) by simp_all
    have nb: "fnext f = Some b" using f(3) Cons by simp
    have "copy_loop k (Some b) buf (length (pre @ ?data)) ?h ?m (Some b) =
        Inr (?h |` (- set (butlast as)), ?m(buf \<mapsto> (pre @ ?data) @ chain_bytes ?h as), Some (last as))"
    proof (rule Cons.IH)
      show "frag_list ?h (Some b) as" using f(3) a nb by simp
      show "\<And>x. x \<in> set as \<Longrightarrow> frag_ok (the (?h x))" using Cons.prems(5) a by auto
      show "length (drop (length ?data) junk) = length (chain_bytes ?h as)"
        using Cons.prems(7) f(2) a by simp
    qed (use a Cons Cons.prems f in simp_all)
    moreover have "?h |` (- set (butlast as)) = h |` (- set (butlast (a # as)))"
      using Cons by (auto simp: restrict_map_def)
    ultimately show ?thesis
      using f st ok len nb a Cons by (simp add: frag_ok_def) (simp add: fun_upd_def)
  qed
qed simp

section \<open>One packet\<close>

text \<open>What the handling of packets leaves alone.\<close>

definition same_thread :: "cstate \<Rightarrow> cstate \<Rightarrow> bool" where
  "same_thread \<sigma> \<sigma>' \<longleftrightarrow>
     chars \<sigma>' = chars \<sigma> \<and> open_fds \<sigma>' = open_fds \<sigma> \<and> rw_file_lock \<sigma>' = rw_file_lock \<sigma> \<and>
     peer_fd (client \<sigma>') = peer_fd (client \<sigma>) \<and> thread (client \<sigma>') = thread (client \<sigma>) \<and>
     shared (client \<sigma>') = shared (client \<sigma>) \<and> cfile (client \<sigma>') \<noteq> NULL"

lemma same_thread_trans: "same_thread \<sigma> \<sigma>' \<Longrightarrow> same_thread \<sigma>' \<sigma>'' \<Longrightarrow> same_thread \<sigma> \<sigma>''"
  by (simp add: same_thread_def)

lemma rwlock_unlock_rdlock: "\<not> writer l \<Longrightarrow> rwlock_unlock (rwlock_rdlock l) = l"
  by (simp add: rwlock_unlock_def rwlock_rdlock_def)

lemma rwlock_unlock_wrlock: "\<not> writer l \<Longrightarrow> rwlock_unlock (rwlock_wrlock l) = l"
  by (simp add: rwlock_unlock_def rwlock_wrlock_def)

lemma reply_to_client_ok:
  assumes "cfile (client \<sigma>) = Some f" "\<not> writer (rw_file_lock \<sigma>)"
  obtains bufs f' where
    "reply_to_client \<sigma> = Inr (\<sigma>\<lparr>sent := sent \<sigma> @ bufs, client := (client \<sigma>)\<lparr>cfile := Some f'\<rparr>\<rparr>)"
    "concat bufs = (if file_eof f then [] else drop (file_pos f) (spec_contents (dev \<sigma>)))"
    "f' = (if file_eof f then f
           else \<lparr>file_pos = max (file_pos f) (length (spec_contents (dev \<sigma>))), file_eof = True\<rparr>)"
proof (cases "file_eof f")
  case True
  then show thesis
    using assms
    by (intro that [of f "[]"])
      (simp_all add: reply_to_client_def reply_loop_eof rwlock_unlock_rdlock Let_def)
next
  case False
  from reply_loop_eq [OF False, of "dev \<sigma>" "[]"] obtain bufs where
    "reply_loop (dev \<sigma>) f [] = (bufs,
       \<lparr>file_pos = max (file_pos f) (length (spec_contents (dev \<sigma>))), file_eof = True\<rparr>)"
    "concat bufs = drop (file_pos f) (spec_contents (dev \<sigma>))" by auto
  with assms False show thesis
    by (intro that [of _ bufs]) (simp_all add: reply_to_client_def rwlock_unlock_rdlock Let_def)
qed

lemma flatten_ok:
  assumes "libc_laws L" "libc_serves L" "finite (dom (chars \<sigma>))"
    "frag_list (frags \<sigma>) (fragments (client \<sigma>)) as" "as \<noteq> []" "distinct as" "length as \<le> n"
    "\<And>a. a \<in> set as \<Longrightarrow> frag_ok (the (frags \<sigma> a))"
  obtains buf where "chars \<sigma> buf = None"
    "flatten_fragments L n \<sigma> = Inr (Some buf, length (chain_bytes (frags \<sigma>) as),
       \<sigma>\<lparr>allocs := Suc (allocs \<sigma>), frags := frags \<sigma> |` (- set (butlast as)),
         chars := (chars \<sigma>)(buf \<mapsto> chain_bytes (frags \<sigma>) as),
         client := (client \<sigma>)\<lparr>fragments := Some (last as)\<rparr>\<rparr>)"
proof -
  let ?b = "chain_bytes (frags \<sigma>) as"
  obtain buf junk where m: "malloc_chars L (allocs \<sigma>) (chars \<sigma>) (length ?b) = Some (buf, junk)"
    using assms(2,3) by (fastforce simp: libc_serves_def)
  then have buf: "chars \<sigma> buf = None" "length junk = length ?b"
    using assms(1) unfolding libc_laws_def by blast+
  have "copy_loop n (fragments (client \<sigma>)) buf (length ([] :: byte list)) (frags \<sigma>)
      ((chars \<sigma>)(buf \<mapsto> junk)) (fragments (client \<sigma>)) =
    Inr (frags \<sigma> |` (- set (butlast as)), (chars \<sigma>)(buf \<mapsto> junk, buf \<mapsto> [] @ ?b), Some (last as))"
    using assms(4-8) buf(2) by (intro copy_loop_ok [where junk = junk]) simp_all
  then have "flatten_fragments L n \<sigma> = Inr (Some buf, length ?b,
       \<sigma>\<lparr>allocs := Suc (allocs \<sigma>), frags := frags \<sigma> |` (- set (butlast as)),
         chars := (chars \<sigma>)(buf \<mapsto> ?b), client := (client \<sigma>)\<lparr>fragments := Some (last as)\<rparr>\<rparr>)"
    using total_loop_ok [OF assms(4,7,8), of 0] m by (simp add: flatten_fragments_def Let_def)
  with buf(1) show thesis by (intro that)
qed

lemma write_new_packet_ok:
  assumes "libc_laws L" "libc_serves L" "finite (dom (chars \<sigma>))"
    "frag_list (frags \<sigma>) (fragments (client \<sigma>)) as" "as \<noteq> []" "distinct as" "length as \<le> n"
    "\<And>a. a \<in> set as \<Longrightarrow> frag_ok (the (frags \<sigma> a))"
    "chain_bytes (frags \<sigma>) as = p @ [newline]" "newline \<notin> set p"
    "cfile (client \<sigma>) \<noteq> NULL" "\<not> writer (rw_file_lock \<sigma>)"
  obtains \<sigma>' where "write_new_packet L n \<sigma> = Inr \<sigma>'" "same_thread \<sigma> \<sigma>'"
    "conn_of \<sigma>' = serve [p @ [newline]] (conn_of \<sigma>)"
    "frags \<sigma>' = frags \<sigma> |` (- set (butlast as))" "fragments (client \<sigma>') = Some (last as)"
proof -
  let ?pkt = "p @ [newline]"
  obtain f where f: "cfile (client \<sigma>) = Some f" using assms(11) by auto
  obtain params t where pp: "packet_params ?pkt = (params, t)" by force
  obtain buf where buf: "chars \<sigma> buf = None"
    "flatten_fragments L n \<sigma> = Inr (Some buf, length ?pkt,
       \<sigma>\<lparr>allocs := Suc (allocs \<sigma>), frags := frags \<sigma> |` (- set (butlast as)),
         chars := (chars \<sigma>)(buf \<mapsto> ?pkt), client := (client \<sigma>)\<lparr>fragments := Some (last as)\<rparr>\<rparr>)"
    using flatten_ok [OF assms(1-8)] unfolding assms(9) by metis
  define f1 where "f1 = (if params = 2 then ioctl_seekto (dev \<sigma>) t f else f)"
  define d1 where "d1 = (if params = 2 then dev \<sigma> else spec_write ?pkt (dev \<sigma>))"
  define s1 where "s1 = \<sigma>\<lparr>allocs := Suc (allocs \<sigma>), frags := frags \<sigma> |` (- set (butlast as)),
     dev := d1, client := (client \<sigma>)\<lparr>fragments := Some (last as), cfile := Some f1\<rparr>\<rparr>"
  have ch: "(chars \<sigma>)(buf := None) = chars \<sigma>" using buf(1) by auto
  have cl: "(client \<sigma>)\<lparr>fragments := x, cfile := Some f\<rparr> = (client \<sigma>)\<lparr>fragments := x\<rparr>" for x
    using f by (cases "client \<sigma>") simp
  have cd: "x\<lparr>client := c, dev := d\<rparr> = x\<lparr>dev := d, client := c\<rparr>" for x :: cstate and c d
    by (cases x) simp
  have run: "write_new_packet L n \<sigma> = reply_to_client s1"
    using f buf(2) assms(12) pp fwrite_flush_line [OF assms(1,10)]
    by (simp add: write_new_packet_def load_block_def Let_def write_locked_def free_chars_def
        rwlock_unlock_wrlock s1_def f1_def d1_def ch cl cd)
  have c1: "cfile (client s1) = Some f1" "\<not> writer (rw_file_lock s1)"
    using assms(12) by (simp_all add: s1_def)
  obtain bufs f2 where r: "reply_to_client s1 =
      Inr (s1\<lparr>sent := sent s1 @ bufs, client := (client s1)\<lparr>cfile := Some f2\<rparr>\<rparr>)"
    "concat bufs = (if file_eof f1 then [] else drop (file_pos f1) (spec_contents (dev s1)))"
    "f2 = (if file_eof f1 then f1
           else \<lparr>file_pos = max (file_pos f1) (length (spec_contents (dev s1))), file_eof = True\<rparr>)"
    by (rule reply_to_client_ok [OF c1])
  have ps: "packet_spec ?pkt (dev \<sigma>) f = (concat bufs, d1, f2)"
    using r(2,3) by (simp add: packet_spec_def pp Let_def s1_def f1_def d1_def)
  show thesis
    by (rule that [OF run [unfolded r(1)]])
      (simp_all add: same_thread_def conn_of_def s1_def f ps)
qed

section \<open>The loops\<close>

text \<open>
  \<open>chain_inv\<close>: the connection's fragments are \<open>as\<close>, complete and without a newline, followed
  by the current one \<open>a\<close>; everything else on the heap is \<open>H\<close>.
\<close>

definition chain_inv :: "cstate \<Rightarrow> addr list \<Rightarrow> addr \<Rightarrow> frag_heap \<Rightarrow> bool" where
  "chain_inv \<sigma> as a H \<longleftrightarrow>
     frag_list (frags \<sigma>) (fragments (client \<sigma>)) (as @ [a]) \<and> distinct (as @ [a]) \<and>
     frags \<sigma> |` (- set (as @ [a])) = H \<and> finite (dom H) \<and>
     (\<forall>x \<in> set as. frag_ok (the (frags \<sigma> x))) \<and>
     length (fbuffer (the (frags \<sigma> a))) = BUFFER_SIZE \<and>
     newline \<notin> set (chain_bytes (frags \<sigma>) as) \<and>
     cfile (client \<sigma>) \<noteq> NULL \<and> finite (dom (chars \<sigma>)) \<and> \<not> writer (rw_file_lock \<sigma>)"

lemma chain_inv_current:
  assumes "chain_inv \<sigma> as a H"
  obtains f where "frags \<sigma> a = Some f" "fnext f = NULL" "length (fbuffer f) = BUFFER_SIZE"
  using assms frag_list_snoc_last [of "frags \<sigma>" "fragments (client \<sigma>)" as a]
  by (auto simp: chain_inv_def)

lemma restrict_upd_out: "a \<notin> A \<Longrightarrow> m(a := x) |` A = m |` A"
  by (auto simp: restrict_map_def fun_eq_iff)

text \<open>Updating the current fragment without unlinking it keeps the chain.\<close>

lemma chain_inv_update:
  assumes "chain_inv \<sigma> as a H" "fnext f = NULL" "length (fbuffer f) = BUFFER_SIZE"
  shows "chain_inv (\<sigma>\<lparr>frags := (frags \<sigma>)(a \<mapsto> f)\<rparr>) as a H"
  using assms frag_list_snoc_upd [of "frags \<sigma>" "fragments (client \<sigma>)" as a f]
  by (auto simp: chain_inv_def restrict_upd_out)

text \<open>
  One round of the inner loop: the first newline completes a packet, after which the
  current fragment is the only one left.
\<close>

lemma packet_round:
  assumes "libc_laws L" "libc_serves L" "chain_inv \<sigma> as a H" "frags \<sigma> a = Some f"
    "fdata f + bl \<le> BUFFER_SIZE" "length as < n"
    "memchr_nl (take bl (drop (fdata f) (fbuffer f))) = Some i"
  obtains s2 f2 where
    "write_new_packet L n (\<sigma>\<lparr>frags := (frags \<sigma>)(a \<mapsto> f\<lparr>fsize := i + 1\<rparr>)\<rparr>) = Inr s2"
    "same_thread \<sigma> s2" "fragments (client s2) = Some a" "frags s2 a = Some (f\<lparr>fsize := i + 1\<rparr>)"
    "conn_of s2 = serve [chain_bytes (frags \<sigma>) as @ take (Suc i) (drop (fdata f) (fbuffer f))]
                    (conn_of \<sigma>)"
    "chain_inv s2 [] a H"
proof -
  let ?f1 = "f\<lparr>fsize := i + 1\<rparr>" and ?X = "drop (fdata f) (fbuffer f)"
  let ?s1 = "\<sigma>\<lparr>frags := (frags \<sigma>)(a \<mapsto> ?f1)\<rparr>" and ?P = "chain_bytes (frags \<sigma>) as"
  have f: "fnext f = NULL" "length (fbuffer f) = BUFFER_SIZE"
    using chain_inv_current [OF assms(3)] assms(4) by auto
  then have inv1: "chain_inv ?s1 as a H" by (intro chain_inv_update [OF assms(3)]) simp_all
  note m = memchr_nl_Some [OF assms(7)]
  then have i: "i < bl" "take (Suc i) ?X = take i ?X @ [newline]" "newline \<notin> set (take i ?X)"
    by (auto simp: min_def take_Suc_conv_app_nth split: if_splits)
  have a: "a \<notin> set as" "newline \<notin> set ?P" using assms(3) by (auto simp: chain_inv_def)
  have bytes: "chain_bytes (frags ?s1) (as @ [a]) = (?P @ take i ?X) @ [newline]"
    using a i(2) by (simp add: frag_bytes_def)
  have ok: "frag_ok (the (frags ?s1 x))" if "x \<in> set (as @ [a])" for x
    using that assms(3,5) f i(1) a by (auto simp: chain_inv_def frag_ok_def)
  obtain s2 where s2: "write_new_packet L n ?s1 = Inr s2" "same_thread ?s1 s2"
    "conn_of s2 = serve [(?P @ take i ?X) @ [newline]] (conn_of ?s1)"
    "frags s2 = frags ?s1 |` (- set (butlast (as @ [a])))"
    "fragments (client s2) = Some (last (as @ [a]))"
    by (rule write_new_packet_ok [OF assms(1,2), of ?s1 "as @ [a]" n "?P @ take i ?X"])
      (use inv1 ok bytes a(2) i(3) assms(6) in \<open>auto simp: chain_inv_def\<close>)
  have fa: "frags s2 a = Some ?f1" using s2(4) a(1) by simp
  have "frags s2 |` (- {a}) = H"
  proof -
    have "- set as \<inter> - {a} = - set (as @ [a])" by auto
    then have "frags s2 |` (- {a}) = frags ?s1 |` (- set (as @ [a]))"
      by (simp only: s2(4) restrict_restrict butlast_snoc)
    also have "\<dots> = H" using inv1 by (simp only: chain_inv_def)
    finally show ?thesis .
  qed
  then have "chain_inv s2 [] a H"
    using s2(2,5) fa f inv1 by (auto simp: chain_inv_def same_thread_def)
  moreover have "same_thread \<sigma> s2" using s2(2) by (simp add: same_thread_def)
  moreover have "conn_of ?s1 = conn_of \<sigma>" by (simp add: conn_of_def)
  ultimately show thesis
    using s2 fa i(2) by (intro that [of s2]) simp_all
qed

lemma lines_of_rest: "lines_of s = (ls, r) \<Longrightarrow> newline \<notin> set r"
proof (induction s arbitrary: ls rule: lines_of.induct)
  case (1 s)
  show ?case
  proof (cases "memchr_nl s")
    case None
    with 1 show ?thesis by (simp add: lines_of_None memchr_nl_None)
  next
    case (Some i)
    obtain ls' r' where "lines_of (drop (Suc i) s) = (ls', r')" by force
    with 1 Some show ?thesis by (simp add: lines_of_Some)
  qed
qed

lemma lines_of_append:
  assumes "lines_of s = (ls, r)" "lines_of (r @ t) = (ls', r')"
  shows "lines_of (s @ t) = (ls @ ls', r')"
  using assms
proof (induction s arbitrary: ls rule: lines_of.induct)
  case (1 s)
  show ?case
  proof (cases "memchr_nl s")
    case None
    with 1 show ?thesis by (simp add: lines_of_None)
  next
    case (Some i)
    obtain ls1 r1 where l1: "lines_of (drop (Suc i) s) = (ls1, r1)" by force
    then have ls: "ls = take (Suc i) s # ls1" "r1 = r"
      using "1.prems"(1) by (simp_all add: lines_of_Some [OF Some])
    have i: "Suc i \<le> length s" using memchr_nl_Some [OF Some] by simp
    have "lines_of (drop (Suc i) s @ t) = (ls1 @ ls', r')"
      using "1.IH" [OF Some] l1 ls "1.prems"(2) by simp
    then have "lines_of (drop (Suc i) (s @ t)) = (ls1 @ ls', r')" using i by simp
    moreover have "memchr_nl (s @ t) = Some i"
      using Some by (induction s arbitrary: i) (auto split: if_splits)
    ultimately show ?thesis using i ls by (simp add: lines_of_Some)
  qed
qed

lemma same_thread_refl: "chain_inv \<sigma> as a H \<Longrightarrow> same_thread \<sigma> \<sigma>"
  by (simp add: same_thread_def chain_inv_def)

lemma packet_loop_ok:
  assumes "libc_laws L" "libc_serves L" "chain_inv \<sigma> as a H" "frags \<sigma> a = Some f"
    "fdata f + bl \<le> BUFFER_SIZE" "length as < n" "bl < k"
    "lines_of (chain_bytes (frags \<sigma>) as @ take bl (drop (fdata f) (fbuffer f))) = (ls, r)"
  shows "\<exists>\<sigma>' bl' as' f'. packet_loop L n k (Some a) bl \<sigma> = Inr (bl', \<sigma>') \<and> same_thread \<sigma> \<sigma>' \<and>
    conn_of \<sigma>' = serve ls (conn_of \<sigma>) \<and> chain_inv \<sigma>' as' a H \<and> length as' \<le> length as \<and>
    frags \<sigma>' a = Some f' \<and> fdata f' + bl' \<le> BUFFER_SIZE \<and>
    chain_bytes (frags \<sigma>') as' @ take bl' (drop (fdata f') (fbuffer f')) = r"
  using assms(3-)
proof (induction k arbitrary: \<sigma> as f bl ls)
  case (Suc k)
  let ?P = "chain_bytes (frags \<sigma>) as" and ?X = "drop (fdata f) (fbuffer f)"
  have f: "fnext f = NULL" "length (fbuffer f) = BUFFER_SIZE"
    using chain_inv_current [OF Suc.prems(1)] Suc.prems(2) by auto
  have P: "newline \<notin> set ?P" using Suc.prems(1) by (simp add: chain_inv_def)
  show ?case
  proof (cases "memchr_nl (take bl ?X)")
    case None
    then have "lines_of (?P @ take bl ?X) = ([], ?P @ take bl ?X)"
      using memchr_nl_append [OF P] by (simp add: lines_of_None)
    with None Suc.prems f show ?thesis
      by (intro exI [of _ \<sigma>] exI [of _ bl] exI [of _ as] exI [of _ f])
        (simp add: same_thread_refl)
  next
    case (Some i)
    from memchr_nl_Some [OF Some] f have i: "i < bl" "i < length ?X" by auto
    obtain s2 where s2:
      "write_new_packet L n (\<sigma>\<lparr>frags := (frags \<sigma>)(a \<mapsto> f\<lparr>fsize := i + 1\<rparr>)\<rparr>) = Inr s2"
      "same_thread \<sigma> s2" "fragments (client s2) = Some a" "frags s2 a = Some (f\<lparr>fsize := i + 1\<rparr>)"
      "conn_of s2 = serve [?P @ take (Suc i) ?X] (conn_of \<sigma>)" "chain_inv s2 [] a H"
      using packet_round [OF assms(1,2) Suc.prems(1-4) Some] by metis
    let ?f3 = "f\<lparr>fsize := i + 1, fdata := fdata f + (i + 1)\<rparr>"
    let ?s3 = "s2\<lparr>frags := (frags s2)(a \<mapsto> ?f3)\<rparr>" and ?bl = "bl - (i + 1)"
    have run: "packet_loop L n (Suc k) (Some a) bl \<sigma> = packet_loop L n k (Some a) ?bl ?s3"
      using Suc.prems(2,3) f Some s2(1,3,4) by simp
    have inv3: "chain_inv ?s3 [] a H" using f by (intro chain_inv_update [OF s2(6)]) simp_all
    obtain ls' r' where l: "lines_of (take ?bl (drop (fdata ?f3) (fbuffer ?f3))) = (ls', r')" by force
    have "drop (Suc (length ?P + i)) (?P @ take bl ?X) = take ?bl (drop (fdata ?f3) (fbuffer ?f3))"
      using i by (simp add: drop_take add.commute)
    moreover have "memchr_nl (?P @ take bl ?X) = Some (length ?P + i)"
      using memchr_nl_append [OF P] Some by simp
    moreover have "take (Suc (length ?P + i)) (?P @ take bl ?X) = ?P @ take (Suc i) ?X"
      using i by (simp add: min_def)
    ultimately have ls: "ls = (?P @ take (Suc i) ?X) # ls'" "r' = r"
      using l Suc.prems(6) lines_of_Some by (metis Pair_inject)+
    have st: "same_thread s2 ?s3" "conn_of ?s3 = conn_of s2"
      using same_thread_refl [OF s2(6)] by (simp_all add: same_thread_def conn_of_def)
    have kb: "bl - Suc i < k" using i(1) Suc.prems(5) by linarith
    from Suc.IH [OF inv3, of ?f3 ?bl ls'] obtain \<sigma>' bl' as' f' where
      "packet_loop L n k (Some a) ?bl ?s3 = Inr (bl', \<sigma>')" "same_thread ?s3 \<sigma>'"
      "conn_of \<sigma>' = serve ls' (conn_of ?s3)" "chain_inv \<sigma>' as' a H" "length as' \<le> 0"
      "frags \<sigma>' a = Some f'" "fdata f' + bl' \<le> BUFFER_SIZE"
      "chain_bytes (frags \<sigma>') as' @ take bl' (drop (fdata f') (fbuffer f')) = r"
      using Suc.prems(3,4) i l ls(2) kb by auto
    moreover have "serve ls (conn_of \<sigma>) = serve ls' (conn_of s2)"
      using serve_append [of "[?P @ take (Suc i) ?X]" ls' "conn_of \<sigma>"] s2(5) ls(1) by simp
    ultimately show ?thesis
      using run st s2(2) same_thread_trans [of \<sigma> s2 ?s3] same_thread_trans [of \<sigma> ?s3 \<sigma>']
      by (intro exI [of _ \<sigma>'] exI [of _ bl'] exI [of _ as'] exI [of _ f']) simp
  qed
qed simp

lemma chain_inv_finite: "chain_inv \<sigma> as a H \<Longrightarrow> finite (dom (frags \<sigma>))"
proof -
  assume "chain_inv \<sigma> as a H"
  then have H: "frags \<sigma> |` (- set (as @ [a])) = H" "finite (dom H)"
    by (simp_all add: chain_inv_def)
  have "dom (frags \<sigma>) \<subseteq> dom H \<union> set (as @ [a])"
    using H(1) by (auto simp: restrict_map_def dom_def)
  with H(2) show ?thesis by (meson List.finite_set finite_UnI finite_subset)
qed

lemma alloc_fragment_ok:
  assumes "libc_laws L" "libc_serves L" "finite (dom (frags \<sigma>))"
  obtains b junk where "frags \<sigma> b = None" "length junk = BUFFER_SIZE"
    "alloc_fragment L \<sigma> = (Some b, \<sigma>\<lparr>allocs := Suc (allocs \<sigma>),
       frags := (frags \<sigma>)(b \<mapsto> \<lparr>fnext = NULL, fsize = 0, fdata = 0, fbuffer = junk\<rparr>)\<rparr>)"
proof -
  obtain b junk where m: "malloc_frag L (allocs \<sigma>) (frags \<sigma>) = Some (b, junk)"
    using assms(2,3) by (fastforce simp: libc_serves_def)
  then have "frags \<sigma> b = None" "length junk = BUFFER_SIZE"
    using assms(1) unfolding libc_laws_def frag_malloc_laws_def by blast+
  with m show thesis by (intro that) (simp_all add: alloc_fragment_def packet_fragment_alloc_def)
qed

text \<open>The unfinished rest of a chunk stays in the current fragment, and a new one is linked.\<close>

lemma chain_extend:
  fixes t :: nat
  assumes "chain_inv \<sigma> as a H" "frags \<sigma> a = Some f" "fdata f + bl \<le> BUFFER_SIZE"
    "newline \<notin> set (chain_bytes (frags \<sigma>) as @ take bl (drop (fdata f) (fbuffer f)))"
    "frags \<sigma> b = None" "length junk = BUFFER_SIZE"
  defines "\<sigma>' \<equiv> \<sigma>\<lparr>allocs := t, frags := (frags \<sigma>)
     (b \<mapsto> \<lparr>fnext = NULL, fsize = 0, fdata = 0, fbuffer = junk\<rparr>, a \<mapsto> f\<lparr>fsize := bl, fnext := Some b\<rparr>)\<rparr>"
  shows "chain_inv \<sigma>' (as @ [a]) b H"
    and "chain_bytes (frags \<sigma>') (as @ [a]) =
      chain_bytes (frags \<sigma>) as @ take bl (drop (fdata f) (fbuffer f))"
proof -
  let ?g = "\<lparr>fnext = NULL, fsize = 0, fdata = 0, fbuffer = junk\<rparr>"
  let ?h = "(frags \<sigma>)(b \<mapsto> ?g)" and ?f = "f\<lparr>fsize := bl, fnext := Some b\<rparr>"
  have f: "length (fbuffer f) = BUFFER_SIZE" using chain_inv_current [OF assms(1)] assms(2) by auto
  have c: "frag_list (frags \<sigma>) (fragments (client \<sigma>)) (as @ [a])" "distinct (as @ [a])"
    using assms(1) by (simp_all add: chain_inv_def)
  have b: "b \<notin> set (as @ [a])" using frag_list_live [OF c(1)] assms(5) by force
  have h: "frag_list ?h (fragments (client \<sigma>)) (as @ [a])" using c(1) b by simp
  have "frag_list (?h(a \<mapsto> (f\<lparr>fsize := bl\<rparr>)\<lparr>fnext := Some b\<rparr>)) (fragments (client \<sigma>)) (as @ a # [b]) =
      frag_list (?h(a \<mapsto> (f\<lparr>fsize := bl\<rparr>)\<lparr>fnext := Some b\<rparr>)) (Some b) [b]"
  proof -
    have "frag_list (?h(a \<mapsto> f\<lparr>fsize := bl\<rparr>)) (fragments (client \<sigma>)) (as @ [a])"
      using h c(2) chain_inv_current [OF assms(1)] assms(2)
      by (intro frag_list_snoc_upd) auto
    from frag_list_snoc [OF this, of "f\<lparr>fsize := bl\<rparr>" "Some b" "[b]"] show ?thesis
      using c(2) by simp
  qed
  then have list: "frag_list (frags \<sigma>') (fragments (client \<sigma>')) ((as @ [a]) @ [b])"
    using b by (simp add: \<sigma>'_def)
  show bytes: "chain_bytes (frags \<sigma>') (as @ [a]) =
      chain_bytes (frags \<sigma>) as @ take bl (drop (fdata f) (fbuffer f))"
    using c(2) b by (simp add: \<sigma>'_def frag_bytes_def)
  have "frags \<sigma>' |` (- set ((as @ [a]) @ [b])) = (frags \<sigma> |` (- set (as @ [a]))) |` (- {b})"
    using b by (auto simp: \<sigma>'_def restrict_map_def fun_eq_iff)
  also have "\<dots> = frags \<sigma> |` (- set (as @ [a]))"
    using assms(5) by (auto simp: restrict_map_def fun_eq_iff)
  finally have H: "frags \<sigma>' |` (- set ((as @ [a]) @ [b])) = H"
    using assms(1) by (simp only: chain_inv_def)
  have "frag_ok (the (frags \<sigma>' x))" if "x \<in> set (as @ [a])" for x
    using that assms(1,3) f b c(2) by (auto simp: \<sigma>'_def chain_inv_def frag_ok_def)
  with list H bytes show "chain_inv \<sigma>' (as @ [a]) b H"
    using assms(1,4,6) b c(2) unfolding chain_inv_def by (auto simp: \<sigma>'_def)
qed

lemma recv_round:
  assumes "libc_laws L" "libc_serves L" "chain_inv \<sigma> as a H" "length as < n"
    "c \<noteq> []" "length c \<le> BUFFER_SIZE" "lines_of (chain_bytes (frags \<sigma>) as @ c) = (ls, r)"
  obtains \<sigma>' as' a' where
    "\<And>cs. recv_loop L n (Some a) (c # cs) \<sigma> = recv_loop L n (Some a') cs \<sigma>'"
    "same_thread \<sigma> \<sigma>'" "conn_of \<sigma>' = serve ls (conn_of \<sigma>)" "chain_inv \<sigma>' as' a' H"
    "length as' \<le> Suc (length as)" "chain_bytes (frags \<sigma>') as' = r"
proof -
  obtain f where f: "frags \<sigma> a = Some f" "fnext f = NULL" "length (fbuffer f) = BUFFER_SIZE"
    using chain_inv_current [OF assms(3)] .
  let ?f1 = "f\<lparr>fbuffer := c @ drop (length c) (fbuffer f), fdata := 0\<rparr>"
  let ?s1 = "\<sigma>\<lparr>frags := (frags \<sigma>)(a \<mapsto> ?f1)\<rparr>"
  have inv1: "chain_inv ?s1 as a H" using f assms(6) by (intro chain_inv_update [OF assms(3)]) simp_all
  have a: "a \<notin> set as" using assms(3) by (simp add: chain_inv_def)
  then have "lines_of (chain_bytes (frags ?s1) as @ take (length c) (drop (fdata ?f1) (fbuffer ?f1))) = (ls, r)"
    using assms(7) by simp
  from packet_loop_ok [OF assms(1,2) inv1 _ _ assms(4) lessI this] obtain s2 bl as' f2 where
    p: "packet_loop L n (Suc (length c)) (Some a) (length c) ?s1 = Inr (bl, s2)" "same_thread ?s1 s2"
    "conn_of s2 = serve ls (conn_of ?s1)" "chain_inv s2 as' a H" "length as' \<le> length as"
    "frags s2 a = Some f2" "fdata f2 + bl \<le> BUFFER_SIZE"
    "chain_bytes (frags s2) as' @ take bl (drop (fdata f2) (fbuffer f2)) = r"
    using assms(6) by auto
  have st: "same_thread \<sigma> s2" "conn_of s2 = serve ls (conn_of \<sigma>)"
    using p(2,3) by (simp_all add: same_thread_def conn_of_def)
  show thesis
  proof (cases "0 < bl")
    case False
    then have "recv_loop L n (Some a) (c # cs) \<sigma> = recv_loop L n (Some a) cs s2" for cs
      using f assms(6) p(1) by simp
    with False p st show thesis by (intro that [of a s2 as']) simp_all
  next
    case True
    let ?s3 = "s2\<lparr>frags := (frags s2)(a \<mapsto> f2\<lparr>fsize := bl\<rparr>)\<rparr>"
    have "finite (dom (frags ?s3))" using chain_inv_finite [OF p(4)] by simp
    then obtain b junk where b: "frags ?s3 b = None" "length junk = BUFFER_SIZE"
      "alloc_fragment L ?s3 = (Some b, ?s3\<lparr>allocs := Suc (allocs ?s3),
         frags := (frags ?s3)(b \<mapsto> \<lparr>fnext = NULL, fsize = 0, fdata = 0, fbuffer = junk\<rparr>)\<rparr>)"
      using alloc_fragment_ok [OF assms(1,2)] by metis
    let ?s4 = "s2\<lparr>allocs := Suc (allocs s2), frags := (frags s2)
       (b \<mapsto> \<lparr>fnext = NULL, fsize = 0, fdata = 0, fbuffer = junk\<rparr>, a \<mapsto> f2\<lparr>fsize := bl, fnext := Some b\<rparr>)\<rparr>"
    have ba: "b \<noteq> a" "frags s2 b = None" using b(1) by (auto split: if_splits)
    then have "recv_loop L n (Some a) (c # cs) \<sigma> = recv_loop L n (Some b) cs ?s4" for cs
      using f assms(6) p(1,6) b(3) True by (simp add: fun_upd_twist [of a b])
    moreover have "newline \<notin> set (chain_bytes (frags s2) as' @ take bl (drop (fdata f2) (fbuffer f2)))"
      using p(8) lines_of_rest [OF assms(7)] by simp
    note chain_extend [OF p(4,6,7) this ba(2) b(2), where t = "Suc (allocs s2)"]
    moreover have "same_thread \<sigma> ?s4" "conn_of ?s4 = serve ls (conn_of \<sigma>)"
      using st by (simp_all add: same_thread_def conn_of_def)
    ultimately show thesis
      using p(5,8) by (intro that [of b ?s4 "as' @ [a]"]) simp_all
  qed
qed

lemma recv_loop_ok:
  assumes "libc_laws L" "libc_serves L" "\<And>c. c \<in> set cs \<Longrightarrow> c \<noteq> [] \<and> length c \<le> BUFFER_SIZE"
    "chain_inv \<sigma> as a H" "length as + length cs < n"
    "lines_of (chain_bytes (frags \<sigma>) as @ concat cs) = (ls, r)"
  shows "\<exists>\<sigma>' as' a'. recv_loop L n (Some a) cs \<sigma> = Inr \<sigma>' \<and> same_thread \<sigma> \<sigma>' \<and>
    conn_of \<sigma>' = serve ls (conn_of \<sigma>) \<and> chain_inv \<sigma>' as' a' H \<and> length as' < n"
  using assms(3-)
proof (induction cs arbitrary: \<sigma> as a ls)
  case Nil
  obtain f where "frags \<sigma> a = Some f" using chain_inv_current [OF Nil.prems(2)] by metis
  moreover have "ls = []"
    using Nil.prems(2,4) by (simp add: lines_of_None memchr_nl_None chain_inv_def)
  ultimately show ?case
    using Nil.prems(2,3) same_thread_refl [OF Nil.prems(2)] by auto
next
  case (Cons c cs)
  obtain ls1 r1 where l1: "lines_of (chain_bytes (frags \<sigma>) as @ c) = (ls1, r1)" by force
  obtain ls2 r2 where l2: "lines_of (r1 @ concat cs) = (ls2, r2)" by force
  have ls: "ls = ls1 @ ls2" "r2 = r"
    using lines_of_append [OF l1 l2] Cons.prems(4) by simp_all
  have c: "c \<noteq> []" "length c \<le> BUFFER_SIZE" "length as < n" using Cons.prems(1,3) by auto
  obtain s1 as1 a1 where s1:
    "recv_loop L n (Some a) (c # cs) \<sigma> = recv_loop L n (Some a1) cs s1"
    "same_thread \<sigma> s1" "conn_of s1 = serve ls1 (conn_of \<sigma>)" "chain_inv s1 as1 a1 H"
    "length as1 \<le> Suc (length as)" "chain_bytes (frags s1) as1 = r1"
    using recv_round [OF assms(1,2) Cons.prems(2) c(3,1,2) l1] by metis
  from Cons.IH [OF _ s1(4), of ls2] obtain \<sigma>' as' a' where
    "recv_loop L n (Some a1) cs s1 = Inr \<sigma>'" "same_thread s1 \<sigma>'"
    "conn_of \<sigma>' = serve ls2 (conn_of s1)" "chain_inv \<sigma>' as' a' H" "length as' < n"
    using Cons.prems(1,3) s1(5,6) l2 ls(2) by auto
  then show ?case
    using s1 same_thread_trans [OF s1(2)] by (auto simp: ls(1) serve_append)
qed

text \<open>A thread that has handled \<open>cs\<close> and calls \<open>recv\<close> again holds its chain of fragments and nothing else.\<close>

lemma client_receives_ok:
  assumes "libc_laws L" "libc_serves L" "\<And>c. c \<in> set cs \<Longrightarrow> c \<noteq> [] \<and> length c \<le> BUFFER_SIZE"
    "length cs < n" "0 \<le> peer_fd (client \<sigma>)" "shared (client \<sigma>)" "fragments (client \<sigma>) = NULL"
    "cfile (client \<sigma>) \<noteq> NULL" "\<not> writer (rw_file_lock \<sigma>)"
    "finite (dom (frags \<sigma>))" "finite (dom (chars \<sigma>))"
  shows "\<exists>\<sigma>' as a. client_receives L n cs \<sigma> = Inr \<sigma>' \<and> same_thread \<sigma> \<sigma>' \<and> chain_inv \<sigma>' as a (frags \<sigma>) \<and>
    length as < n \<and> conn_of \<sigma>' = serve (fst (lines_of (concat cs))) (conn_of \<sigma>)"
proof -
  obtain b junk where b: "frags \<sigma> b = None" "length junk = BUFFER_SIZE"
    "alloc_fragment L \<sigma> = (Some b, \<sigma>\<lparr>allocs := Suc (allocs \<sigma>),
       frags := (frags \<sigma>)(b \<mapsto> \<lparr>fnext = NULL, fsize = 0, fdata = 0, fbuffer = junk\<rparr>)\<rparr>)"
    using alloc_fragment_ok [OF assms(1,2,10)] by metis
  define s1 where "s1 = \<sigma>\<lparr>allocs := Suc (allocs \<sigma>),
       frags := (frags \<sigma>)(b \<mapsto> \<lparr>fnext = NULL, fsize = 0, fdata = 0, fbuffer = junk\<rparr>),
       client := (client \<sigma>)\<lparr>fragments := Some b\<rparr>\<rparr>"
  have "(frags \<sigma>)(b := x) |` (- {b}) = frags \<sigma>" for x
    using b(1) by (auto simp: restrict_map_def fun_eq_iff)
  then have inv: "chain_inv s1 [] b (frags \<sigma>)"
    using assms b(2) by (simp add: chain_inv_def s1_def)
  obtain ls r where l: "lines_of (concat cs) = (ls, r)" by force
  from recv_loop_ok [OF assms(1-3) inv, where cs = cs and n = n and ls = ls and r = r] assms(4) l obtain s2 as a where
    s2: "recv_loop L n (Some b) cs s1 = Inr s2" "same_thread s1 s2"
    "conn_of s2 = serve ls (conn_of s1)" "chain_inv s2 as a (frags \<sigma>)" "length as < n"
    by auto
  have "client_receives L n cs \<sigma> = Inr s2" using assms(5-7) b(3) s2(1) by (simp add: client_receives_def s1_def)
  moreover have "same_thread \<sigma> s2" "conn_of s2 = serve (fst (lines_of (concat cs))) (conn_of \<sigma>)"
    using s2(2,3) l by (simp_all add: same_thread_def conn_of_def s1_def)
  ultimately show ?thesis using s2(4,5) by blast
qed

lemma process_client_ok:
  assumes "libc_laws L" "libc_serves L" "\<And>c. c \<in> set cs \<Longrightarrow> c \<noteq> [] \<and> length c \<le> BUFFER_SIZE"
    "length cs < n" "0 \<le> peer_fd (client \<sigma>)" "shared (client \<sigma>)" "fragments (client \<sigma>) = NULL"
    "cfile (client \<sigma>) \<noteq> NULL" "\<not> writer (rw_file_lock \<sigma>)"
    "finite (dom (frags \<sigma>))" "finite (dom (chars \<sigma>))"
  shows "\<exists>\<sigma>'. process_client L n cs \<sigma> = Inr \<sigma>' \<and> same_thread \<sigma> \<sigma>' \<and> frags \<sigma>' = frags \<sigma> \<and>
    fragments (client \<sigma>') = NULL \<and> conn_of \<sigma>' = serve (fst (lines_of (concat cs))) (conn_of \<sigma>)"
proof -
  from client_receives_ok [OF assms] obtain s2 as a where s2: "client_receives L n cs \<sigma> = Inr s2"
    "same_thread \<sigma> s2" "chain_inv s2 as a (frags \<sigma>)" "length as < n"
    "conn_of s2 = serve (fst (lines_of (concat cs))) (conn_of \<sigma>)" by blast
  have "packet_fragments_free n (fragments (client s2)) (frags s2) =
      Inr (frags s2 |` (- set (as @ [a])))"
    using s2(3,4) by (intro packet_fragments_free_ok) (simp_all add: chain_inv_def)
  also have "frags s2 |` (- set (as @ [a])) = frags \<sigma>"
    using s2(3) by (simp only: chain_inv_def)
  finally have "process_client L n cs \<sigma> =
      Inr (s2\<lparr>frags := frags \<sigma>, client := (client s2)\<lparr>fragments := NULL\<rparr>\<rparr>)"
    using s2(1) by (simp add: process_client_def)
  then show ?thesis
    using s2(2,5) by (simp add: same_thread_def conn_of_def)
qed

section \<open>Seek commands\<close>

text \<open>The decimal digits of a number, as a client prints it with \<open>%u\<close>.\<close>

fun decimal :: "nat \<Rightarrow> byte list" where
  "decimal n = (if n < 10 then [of_nat (48 + n)] else decimal (n div 10) @ [of_nat (48 + n mod 10)])"

declare decimal.simps [simp del]

lemma digit_byte:
  assumes "d < 10"
  shows "is_digit (of_nat (48 + d))" "unat (of_nat (48 + d) :: byte) - 48 = d"
proof -
  have "unat (of_nat (48 + d) :: byte) = 48 + d" using assms by (simp only: unat_of_nat) simp
  then show "is_digit (of_nat (48 + d))" "unat (of_nat (48 + d) :: byte) - 48 = d"
    using assms by (simp_all only: is_digit_def word_le_nat_alt) simp_all
qed

lemma decimal_digits: "(\<forall>b \<in> set (decimal n). is_digit b) \<and> decimal n \<noteq> [] \<and> digits_value (decimal n) = n"
proof (induction n rule: decimal.induct)
  case (1 n)
  show ?case
  proof (cases "n < 10")
    case True
    with digit_byte [OF True] show ?thesis
      by (subst (1 2 3) decimal.simps) (simp only: if_True digits_value_def, simp)
  next
    case False
    have d: "n mod 10 < 10" by simp
    have "decimal n = decimal (n div 10) @ [of_nat (48 + n mod 10)]"
      using False by (subst decimal.simps) simp
    moreover have "digits_value (xs @ [x]) = 10 * digits_value xs + (unat x - 48)" for xs x
      by (simp add: digits_value_def)
    ultimately show ?thesis using 1 [OF False] digit_byte [OF d] by auto
  qed
qed

lemma digit_not_space: "is_digit b \<Longrightarrow> \<not> is_space b \<and> b \<noteq> 43 \<and> b \<noteq> 45 \<and> b \<noteq> 0"
  by (auto simp: is_digit_def is_space_def word_le_nat_alt)

lemma scan_u_decimal:
  assumes "n < 2 ^ 32" "rest = [] \<or> \<not> is_digit (hd rest)"
  shows "scan_u (decimal n @ rest) = Some (of_nat n, rest)"
proof -
  obtain d ds where dd: "decimal n = d # ds" using decimal_digits [of n] by (cases "decimal n") auto
  have dig: "\<forall>b \<in> set (decimal n). is_digit b" using decimal_digits [of n] by simp
  then have d: "\<not> is_space d" "d \<noteq> 43" "d \<noteq> 45" using digit_not_space [of d] by (auto simp: dd)
  have tw: "takeWhile is_digit (decimal n @ rest) = decimal n"
    "dropWhile is_digit (decimal n @ rest) = rest"
    using dig assms(2) by (cases rest; simp add: takeWhile_append2 dropWhile_append2)+
  have "strtoul_u32 False n = of_nat n"
    using assms(1) by (simp add: strtoul_u32_def unsigned_of_nat take_bit_nat_eq_self)
  moreover have "dropWhile is_space (decimal n @ rest) = decimal n @ rest"
    "hd (decimal n @ rest) = d" using d(1) by (simp_all add: dd)
  ultimately show ?thesis
    using d(2,3) tw decimal_digits [of n] by (simp add: scan_u_def Let_def)
qed

lemma prefix_bytes: "b \<in> set seekto_prefix \<Longrightarrow> b \<noteq> 0"
  by (auto simp: seekto_prefix_def)

text \<open>The command a client sends to seek.\<close>

definition seek_line :: "aesd_seekto \<Rightarrow> byte list" where
  "seek_line t =
     seekto_prefix @ decimal (unat (write_cmd t)) @ [44] @ decimal (unat (write_cmd_offset t)) @ [newline]"

lemma packet_params_seek_line: "packet_params (seek_line t) = (2, t)"
proof -
  let ?a = "decimal (unat (write_cmd t))" and ?b = "decimal (unat (write_cmd_offset t))"
  have lt: "unat w < 2 ^ 32" for w :: uint32 using unsigned_less [of w] by simp
  have nz: "b \<noteq> 0" if "b \<in> set (decimal n)" for b n
    using that decimal_digits [of n] digit_not_space [of b] by auto
  have "\<forall>b \<in> set (seekto_prefix @ ?a @ [44] @ ?b). b \<noteq> 0"
    using prefix_bytes nz by auto
  then have "takeWhile (\<lambda>b. b \<noteq> 0) (butlast (seek_line t)) = seekto_prefix @ ?a @ [44] @ ?b"
    by (simp add: seek_line_def butlast_append takeWhile_eq_all_conv)
  moreover have "scan_u (?a @ [44] @ ?b) = Some (write_cmd t, [44] @ ?b)"
    using scan_u_decimal [OF lt, of "[44] @ ?b" "write_cmd t"]
    by (simp add: is_digit_def word_le_nat_alt)
  moreover have "scan_u ?b = Some (write_cmd_offset t, [])"
    using scan_u_decimal [OF lt, of "[]" "write_cmd_offset t"] by simp
  ultimately show ?thesis by (simp add: packet_params_def sscanf_seekto_def Let_def)
qed

section \<open>A concrete connection\<close>

definition demo_libc :: libc where
  "demo_libc =
     \<lparr>malloc_frag = (\<lambda>t h. if finite (dom h)
        then Some (Suc (Max (insert 0 (dom h))), replicate BUFFER_SIZE 0) else None),
      malloc_chars = (\<lambda>t m n. if finite (dom m)
        then Some (Suc (Max (insert 0 (dom m))), replicate n 0) else None),
      stdio_split = (\<lambda>bs. if bs = [] then [] else [bs])\<rparr>"

lemma fresh_above_dom: "finite (dom m) \<Longrightarrow> m (Suc (Max (insert 0 (dom m)))) = None"
proof (rule ccontr)
  let ?a = "Suc (Max (insert 0 (dom m)))"
  assume "finite (dom m)" "m ?a \<noteq> None"
  then have "?a \<le> Max (insert 0 (dom m))" by (intro Max_ge) auto
  then show False by simp
qed

lemma demo_libc_laws: "libc_laws demo_libc" and demo_libc_serves: "libc_serves demo_libc"
  by (auto simp: libc_laws_def libc_serves_def frag_malloc_laws_def demo_libc_def fresh_above_dom
      split: if_splits)

definition example_conn :: cstate where
  "example_conn =
     \<lparr>allocs = 0, frags = Map.empty, chars = Map.empty, sent = [], open_fds = {3, 4},
      dev = \<lparr>commands = [[104, 10]], pending = []\<rparr>,
      rw_file_lock = \<lparr>readers = 0, writer = False\<rparr>,
      client = \<lparr>peer_fd = 4, thread = 1, shared = True, fragments = NULL,
                cfile = Some \<lparr>file_pos = 0, file_eof = False\<rparr>\<rparr>\<rparr>"

text \<open>The state a thread starts in.\<close>

definition conn_start :: "cstate \<Rightarrow> bool" where
  "conn_start \<sigma> \<longleftrightarrow>
     0 \<le> peer_fd (client \<sigma>) \<and> shared (client \<sigma>) \<and> fragments (client \<sigma>) = NULL \<and>
     cfile (client \<sigma>) \<noteq> NULL \<and> \<not> writer (rw_file_lock \<sigma>) \<and>
     finite (dom (frags \<sigma>)) \<and> finite (dom (chars \<sigma>))"

definition chunks_ok :: "byte list list \<Rightarrow> bool" where
  "chunks_ok cs \<longleftrightarrow> (\<forall>c \<in> set cs. c \<noteq> [] \<and> length c \<le> BUFFER_SIZE)"

lemma process_client_start:
  assumes "libc_laws L" "libc_serves L" "conn_start \<sigma>" "chunks_ok cs" "length cs < n"
  obtains \<sigma>' where "process_client L n cs \<sigma> = Inr \<sigma>'" "same_thread \<sigma> \<sigma>'" "frags \<sigma>' = frags \<sigma>"
    "fragments (client \<sigma>') = NULL" "conn_of \<sigma>' = serve (fst (lines_of (concat cs))) (conn_of \<sigma>)"
  using process_client_ok [OF assms(1,2), of cs n \<sigma>] assms(3-5)
  by (auto simp: conn_start_def chunks_ok_def)

lemma example_conn_start: "conn_start example_conn"
  by (simp add: conn_start_def example_conn_def)

lemma lines_of_line: "newline \<notin> set p \<Longrightarrow> lines_of (p @ [newline]) = ([p @ [newline]], [])"
  using memchr_nl_append [of p "[newline]"]
  by (simp add: lines_of.simps [of "p @ [newline]"] lines_of_None)

section \<open>Two limits of the code\<close>

text \<open>
  The first reply reads the data file to its end and so sets the end-of-file indicator of
  the stream; nothing clears it, and every later packet of the connection is handled but
  answered with no bytes.
\<close>

lemma client_later_replies_empty:
  "file_eof f \<Longrightarrow> fst (packet_spec pkt d f) = [] \<and> file_eof (snd (snd (packet_spec pkt d f)))"
  by (auto simp: packet_spec_def Let_def ioctl_seekto_def split: prod.splits option.splits)

lemma packet_spec_eof: "file_eof (snd (snd (packet_spec pkt d f)))"
  by (auto simp: packet_spec_def Let_def split: prod.splits)

lemma serve_after_first:
  "fst (serve (p # ps) (out, d, f)) = out @ fst (packet_spec p d f)"
proof -
  have "fst (serve ps (out', d', f')) = out'" if "file_eof f'" for out' d' f'
    using that
  proof (induction ps arbitrary: out' d' f')
    case (Cons q ps)
    then show ?case
      using client_later_replies_empty [OF Cons.prems, of q d'] by (cases "packet_spec q d' f'") auto
  qed simp
  then show ?thesis using packet_spec_eof [of p d f] by (cases "packet_spec p d f") auto
qed

text \<open>The packets are stored all the same, except the seek commands, which store nothing.\<close>

definition store_packet :: "byte list \<Rightarrow> dev_spec \<Rightarrow> dev_spec" where
  "store_packet pkt d = (if fst (packet_params pkt) = 2 then d else spec_write pkt d)"

lemma serve_stores: "fst (snd (serve ps (out, d, f))) = fold store_packet ps d"
proof (induction ps arbitrary: out d f)
  case (Cons p ps)
  have "fst (snd (packet_spec p d f)) = store_packet p d"
    by (auto simp: packet_spec_def store_packet_def Let_def split: prod.splits)
  then show ?case using Cons by (cases "packet_spec p d f") simp
qed simp

text \<open>
  The result of \<open>packet_fragment_alloc\<close> is used without a check: when the first allocation
  fails, \<open>recv\<close> is handed a buffer inside the null page.
\<close>

lemma process_client_alloc_failure:
  assumes "conn_start \<sigma>" "malloc_frag L (allocs \<sigma>) (frags \<sigma>) = None"
  shows "process_client L n cs \<sigma> = Inl Null_Deref"
  using assms
  by (cases cs) (simp_all add: process_client_def client_receives_def conn_start_def alloc_fragment_def
      packet_fragment_alloc_def frag_at_def)

section \<open>Properties\<close>

text \<open>
  C13: The thread of a connection handles exactly the complete lines of the
  byte stream, one after the other and in order, however the stream is cut into chunks. It ends
  after the last chunk, runs into no assertion, bad pointer or buffer overrun, releases every
  block it allocated and both locks, closes the socket and marks the client as done.
\<close>

theorem client_thread_serves_lines:
  assumes "libc_laws L" "libc_serves L" "conn_start \<sigma>" "chunks_ok cs" "length cs < n"
  shows "\<exists>\<sigma>'. process_client_thread L n cs (Some a) \<sigma> = Inr (Some a, \<sigma>') \<and>
    conn_of \<sigma>' = serve (fst (lines_of (concat cs))) (conn_of \<sigma>) \<and>
    frags \<sigma>' = frags \<sigma> \<and> chars \<sigma>' = chars \<sigma> \<and> rw_file_lock \<sigma>' = rw_file_lock \<sigma> \<and>
    fragments (client \<sigma>') = NULL \<and> peer_fd (client \<sigma>') = - 1 \<and>
    open_fds \<sigma>' = open_fds \<sigma> - {peer_fd (client \<sigma>)}"
proof -
  obtain s1 where "process_client L n cs \<sigma> = Inr s1" "same_thread \<sigma> s1" "frags s1 = frags \<sigma>"
    "fragments (client s1) = NULL" "conn_of s1 = serve (fst (lines_of (concat cs))) (conn_of \<sigma>)"
    using process_client_start [OF assms] .
  then show ?thesis by (simp add: process_client_thread_def same_thread_def conn_of_def)
qed

theorem client_thread_serves_lines_witness:
  "\<exists>\<sigma>'. process_client_thread demo_libc 3 [[97], [98, 10, 99]] (Some 1) example_conn = Inr (Some 1, \<sigma>') \<and>
     dev \<sigma>' = \<lparr>commands = [[104, 10], [97, 98, 10]], pending = []\<rparr> \<and>
     concat (sent \<sigma>') = [104, 10, 97, 98, 10] \<and> frags \<sigma>' = Map.empty \<and> open_fds \<sigma>' = {3}"
proof -
  let ?cs = "[[97], [98, 10, 99]] :: byte list list"
  have l: "fst (lines_of (concat ?cs)) = [[97, 98, 10]]"
    by (simp add: lines_of.simps)
  have p: "packet_params [97, 98, 10] = (0, \<lparr>write_cmd = 0, write_cmd_offset = 0\<rparr>)"
    by (simp add: packet_params_def sscanf_seekto_def seekto_prefix_def Let_def)
  have fd: "{3, 4} - {4} = {3 :: int}" by auto
  have "chunks_ok ?cs" by (simp add: chunks_ok_def BUFFER_SIZE_def)
  from client_thread_serves_lines [OF demo_libc_laws demo_libc_serves example_conn_start this, of 3 1]
  obtain \<sigma>' where "process_client_thread demo_libc 3 ?cs (Some 1) example_conn = Inr (Some 1, \<sigma>')"
    "conn_of \<sigma>' = serve [[97, 98, 10]] (conn_of example_conn)"
    "frags \<sigma>' = Map.empty" "open_fds \<sigma>' = {3}"
    unfolding l by (auto simp: example_conn_def fd)
  then show ?thesis
    by (auto simp: conn_of_def example_conn_def packet_spec_def p Let_def spec_write_def
        log_push_def spec_contents_def)
qed

text \<open>
  Segmentation by the network does not matter: two ways of cutting
  the same byte stream into chunks lead to the same device contents, the same reply bytes and
  the same state of the data file.
\<close>

lemma client_chunking_irrelevant:
  assumes "libc_laws L" "libc_serves L" "conn_start \<sigma>"
    "chunks_ok cs" "length cs < n" "chunks_ok cs'" "length cs' < n'" "concat cs' = concat cs"
  shows "\<exists>\<sigma>1 \<sigma>2. process_client L n cs \<sigma> = Inr \<sigma>1 \<and> process_client L n' cs' \<sigma> = Inr \<sigma>2 \<and>
    conn_of \<sigma>1 = conn_of \<sigma>2"
  using process_client_start [OF assms(1-5)] process_client_start [OF assms(1-3,6,7)] assms(8)
  by metis

text \<open>
  A connection on a freshly opened data file that sends one line which is not
  a seek command appends the line to the device as one command and is answered with the whole
  contents of the device, the new command included.
\<close>

lemma client_packet_reply:
  assumes "libc_laws L" "libc_serves L" "conn_start \<sigma>" "chunks_ok cs" "length cs < n"
    and "concat cs = p @ [newline]" "newline \<notin> set p" "fst (packet_params (p @ [newline])) \<noteq> 2"
    and "cfile (client \<sigma>) = Some \<lparr>file_pos = 0, file_eof = False\<rparr>"
  shows "\<exists>\<sigma>'. process_client L n cs \<sigma> = Inr \<sigma>' \<and>
    dev \<sigma>' = spec_write (p @ [newline]) (dev \<sigma>) \<and>
    concat (sent \<sigma>') = concat (sent \<sigma>) @ spec_contents (spec_write (p @ [newline]) (dev \<sigma>))"
proof -
  obtain \<sigma>' where s: "process_client L n cs \<sigma> = Inr \<sigma>'"
    "conn_of \<sigma>' = serve (fst (lines_of (concat cs))) (conn_of \<sigma>)"
    using process_client_start [OF assms(1-5)] by metis
  have "conn_of \<sigma>' = serve [p @ [newline]] (conn_of \<sigma>)"
    using s(2) lines_of_line [OF assms(7)] assms(6) by simp
  with s(1) assms(8,9) show ?thesis
    by (auto simp: conn_of_def packet_spec_def Let_def split: prod.splits)
qed

text \<open>
  C24: A connection on a freshly opened data file that sends the seek command for an
  existing byte \<open>j\<close> of command \<open>i\<close> leaves the device unchanged and is answered with the contents
  from that byte on: the rest of command \<open>i\<close> followed by all later commands.
\<close>

theorem client_seek_reply:
  assumes "libc_laws L" "libc_serves L" "conn_start \<sigma>" "chunks_ok cs" "length cs < n"
    and "concat cs = seek_line t"
    and "cfile (client \<sigma>) = Some \<lparr>file_pos = 0, file_eof = False\<rparr>"
    and "unat (write_cmd t) < length (commands (dev \<sigma>))"
      "unat (write_cmd_offset t) < length (commands (dev \<sigma>) ! unat (write_cmd t))"
  shows "\<exists>\<sigma>'. process_client L n cs \<sigma> = Inr \<sigma>' \<and> dev \<sigma>' = dev \<sigma> \<and>
    concat (sent \<sigma>') = concat (sent \<sigma>) @
      drop (unat (write_cmd_offset t)) (commands (dev \<sigma>) ! unat (write_cmd t)) @
      concat (drop (Suc (unat (write_cmd t))) (commands (dev \<sigma>)))"
proof -
  let ?d = "dev \<sigma>" and ?i = "unat (write_cmd t)" and ?j = "unat (write_cmd_offset t)"
  obtain \<sigma>' where s: "process_client L n cs \<sigma> = Inr \<sigma>'"
    "conn_of \<sigma>' = serve (fst (lines_of (concat cs))) (conn_of \<sigma>)"
    using process_client_start [OF assms(1-5)] by metis
  have "newline \<notin> set (decimal m)" for m
    using decimal_digits [of m] by (auto simp: is_digit_def word_le_nat_alt)
  then have "lines_of (seek_line t) = ([seek_line t], [])"
    using lines_of_line [of "butlast (seek_line t)"]
    by (auto simp: seek_line_def butlast_append seekto_prefix_def)
  then have c: "conn_of \<sigma>' = serve [seek_line t] (conn_of \<sigma>)" using s(2) assms(6) by simp
  obtain p where p: "global_pos (map length (commands ?d)) ?i ?j = Some p"
    using assms(8,9) by (simp add: global_pos_def)
  then have "drop p (spec_contents ?d) = drop ?j (commands ?d ! ?i) @ concat (drop (Suc ?i) (commands ?d))"
    using locate_drop_concat [of p "commands ?d"] by (simp add: spec_contents_def locate_iff_global_pos)
  with s(1) c p assms(7) show ?thesis
    by (auto simp: conn_of_def packet_spec_def packet_params_seek_line ioctl_seekto_def Let_def)
qed

theorem client_seek_reply_witness:
  "\<exists>\<sigma>'. process_client demo_libc 2 [seek_line \<lparr>write_cmd = 0, write_cmd_offset = 1\<rparr>] example_conn =
     Inr \<sigma>' \<and> concat (sent \<sigma>') = [10]"
proof -
  let ?t = "\<lparr>write_cmd = 0, write_cmd_offset = 1\<rparr>"
  have "decimal 0 = [48]" "decimal 1 = [49]" by (simp_all add: decimal.simps)
  then have "chunks_ok [seek_line ?t]"
    by (simp add: chunks_ok_def BUFFER_SIZE_def seek_line_def seekto_prefix_def)
  from client_seek_reply [OF demo_libc_laws demo_libc_serves example_conn_start this, of 2 ?t]
  show ?thesis by (auto simp: example_conn_def)
qed

text \<open>
  C30: Every seek command a client can print, whatever its two 32-bit
  numbers, is recognised and decoded to exactly these numbers.
\<close>

theorem client_seek_command_parsed: "packet_params (seek_line t) = (2, t)"
  by (rule packet_params_seek_line)

text \<open>
  C28: Only the first packet of a connection is answered: whatever lines follow it,
  the bytes sent are exactly the reply to the first line, because that reply leaves the
  end-of-file indicator of the data file set. The lines that follow are stored nevertheless: the
  device ends up with every line that is not a seek command appended, in order.
\<close>

theorem client_one_reply:
  assumes "libc_laws L" "libc_serves L" "conn_start \<sigma>" "chunks_ok cs" "length cs < n"
    and "fst (lines_of (concat cs)) = p # ps" "cfile (client \<sigma>) = Some f"
  shows "\<exists>\<sigma>'. process_client L n cs \<sigma> = Inr \<sigma>' \<and>
    concat (sent \<sigma>') = concat (sent \<sigma>) @ fst (packet_spec p (dev \<sigma>) f) \<and>
    dev \<sigma>' = fold (\<lambda>q d. if fst (packet_params q) = 2 then d else spec_write q d) (p # ps) (dev \<sigma>)"
proof -
  obtain \<sigma>' where "process_client L n cs \<sigma> = Inr \<sigma>'"
    "conn_of \<sigma>' = serve (p # ps) (conn_of \<sigma>)"
    using process_client_start [OF assms(1-5)] assms(6) by metis
  moreover have "fst (serve (p # ps) (conn_of \<sigma>)) = concat (sent \<sigma>) @ fst (packet_spec p (dev \<sigma>) f)"
    using serve_after_first [of p ps "concat (sent \<sigma>)" "dev \<sigma>" f] assms(7)
    by (simp only: conn_of_def option.sel)
  moreover have "fst (conn_of \<sigma>') = concat (sent \<sigma>')" "fst (snd (conn_of \<sigma>')) = dev \<sigma>'" by (simp_all add: conn_of_def)
  moreover have "fst (snd (serve (p # ps) (conn_of \<sigma>))) = fold store_packet (p # ps) (dev \<sigma>)"
    unfolding conn_of_def by (rule serve_stores)
  moreover have "store_packet = (\<lambda>q d. if fst (packet_params q) = 2 then d else spec_write q d)"
    by (simp add: store_packet_def fun_eq_iff)
  ultimately show ?thesis by metis
qed

theorem client_one_reply_witness:
  "\<exists>\<sigma>'. process_client demo_libc 2 [[97, 10, 98, 10]] example_conn = Inr \<sigma>' \<and>
     concat (sent \<sigma>') = [104, 10, 97, 10] \<and>
     dev \<sigma>' = \<lparr>commands = [[104, 10], [97, 10], [98, 10]], pending = []\<rparr>"
proof -
  have l: "fst (lines_of (concat [[97, 10, 98, 10]])) = [97, 10] # [[98, 10]]"
    by (simp add: lines_of.simps)
  have p: "packet_params [97, 10] = (0, \<lparr>write_cmd = 0, write_cmd_offset = 0\<rparr>)"
    "packet_params [98, 10] = (0, \<lparr>write_cmd = 0, write_cmd_offset = 0\<rparr>)"
    by (simp_all add: packet_params_def sscanf_seekto_def seekto_prefix_def Let_def)
  have "chunks_ok [[97, 10, 98, 10]]" by (simp add: chunks_ok_def BUFFER_SIZE_def)
  from client_one_reply [OF demo_libc_laws demo_libc_serves example_conn_start this _ l, of 2]
  show ?thesis
    by (auto simp: example_conn_def packet_spec_def p Let_def spec_write_def log_push_def spec_contents_def)
qed

end
