(* ===== verification/Driver_Write.thy ===== *)
theory Driver_Write
  imports Driver_Spec
begin

text \<open>
  \<open>aesd_write\<close> phase by phase: the append, the commit and the exit phase, each with what it
  does to the abstract device and to the blocks the operation holds, and the whole call.
\<close>

section \<open>The phases of a write\<close>

lemma set_map_eptr: "set (map eptr es) = eptr ` set es"
  by simp

lemma temp_entries_set_dev:
  "temp_entries (set_dev (\<lambda>d. d\<lparr>temp_entry := t\<rparr>) s) = (if buffptr t = NULL then [] else [t])"
  by (simp add: temp_entries_def)

text \<open>Joining the fragment to the pending entry: what the state must be afterwards.\<close>

lemma drv_frame_set_temp:
  assumes "drv_frame X s"
    and "\<And>e. e \<in> set (cb_entries (buffer (aesd_device s))) \<Longrightarrow> h' (eptr e) = kmem s (eptr e)"
    and "entry_ok h' t"
    and "eptr t \<notin> eptr ` set (cb_entries (buffer (aesd_device s)))"
    and "dom h' = eptr ` set (cb_entries (buffer (aesd_device s))) \<union> {eptr t} \<union> Y"
    and "(eptr ` set (cb_entries (buffer (aesd_device s))) \<union> {eptr t}) \<inter> Y = {}"
  defines "s' \<equiv> set_dev (\<lambda>d. d\<lparr>temp_entry := t\<rparr>) (s\<lparr>kmem := h'\<rparr>)"
  shows "drv_frame Y s'"
    and "drv_spec s' = (drv_spec s)\<lparr>pending := entry_bytes h' t\<rparr>"
proof -
  let ?es = "cb_entries (buffer (aesd_device s))"
  have ok: "\<And>e. e \<in> set ?es \<Longrightarrow> entry_ok (kmem s) e"
    using assms(1) by (auto simp: drv_frame_def all_entries_def)
  have fr: "entry_bytes h' e = entry_bytes (kmem s) e" "entry_ok h' e" if "e \<in> set ?es" for e
    using entries_frame [of ?es "kmem s" h' e] ok assms(2) that by auto
  have t: "buffptr t \<noteq> NULL" using assms(3) by (auto simp: entry_ok_def)
  then have all: "all_entries s' = ?es @ [t]"
    by (simp add: all_entries_def temp_entries_def s'_def)
  have dist: "distinct (map eptr ?es)"
    using assms(1) by (auto simp: drv_frame_def all_entries_def)
  show "drv_frame Y s'"
    using assms fr t dist unfolding drv_frame_def all by (auto simp: s'_def)
  show "drv_spec s' = (drv_spec s)\<lparr>pending := entry_bytes h' t\<rparr>"
    using fr by (simp add: drv_spec_def s'_def)
qed

lemma store_block_tail:
  assumes "h p = Some bs" "length bs = m + length data"
  shows "store_block h p m data = Inr (h(p \<mapsto> take m bs @ data))"
  using assms by (simp add: store_block_def)

text \<open>
  The append phase, entered with the fragment \<open>data\<close> in the block \<open>kb\<close>: it either gives up
  with the device unchanged, or extends the pending command by the fragment; the blocks
  still held are those the locals point to.
\<close>

lemma aesd_write_append_ok:
  assumes "alloc_laws K" "drv_frame (insert kb X) s" "kmem s kb = Some data" "length data = unat count"
    "data \<noteq> []" "length data \<le> 2 ^ 48" "kern_buf l = Some kb" "kb \<notin> X"
  obtains (failed) "aesd_write_append K kb count l s = Inr (True, l\<lparr>retval := - ENOMEM\<rparr>, s)"
  | (appended) l' s' where "aesd_write_append K kb count l s = Inr (False, l', s')"
      "l' = l \<or> l' = l\<lparr>kern_buf := NULL\<rparr>" "drv_frame (set_option (kern_buf l') \<union> X) s'"
      "drv_spec s' = (drv_spec s)\<lparr>pending := pending (drv_spec s) @ data\<rparr>"
      "buffptr (temp_entry (aesd_device s')) \<noteq> NULL"
      "same_rest s s'" "\<And>a. a \<in> X \<Longrightarrow> kmem s' a = kmem s a"
proof (cases "buffptr (temp_entry (aesd_device s))")
  case None
  let ?t = "\<lparr>buffptr = Some kb, esize = count\<rparr>"
  let ?s' = "set_dev (\<lambda>d. d\<lparr>temp_entry := ?t\<rparr>) (s\<lparr>kmem := kmem s\<rparr>)"
  have t: "entry_ok (kmem s) ?t" "entry_bytes (kmem s) ?t = data"
    using assms by (auto simp: entry_ok_def entry_bytes_def)
  have all: "all_entries s = cb_entries (buffer (aesd_device s))"
    using None by (simp add: all_entries_def temp_entries_def)
  have "drv_frame X ?s'" "drv_spec ?s' = (drv_spec s)\<lparr>pending := data\<rparr>"
    using drv_frame_set_temp [of "insert kb X" s "kmem s" ?t X] assms(2,8) t
    by (auto simp: drv_frame_def all)
  moreover have "pending (drv_spec s) = []"
    using None by (simp add: drv_spec_def entry_bytes_def)
  moreover have "aesd_write_append K kb count l s = Inr (False, l\<lparr>kern_buf := NULL\<rparr>, ?s')"
    using None by (simp add: aesd_write_append_def Let_def)
  ultimately show thesis
    by (intro appended [of "l\<lparr>kern_buf := NULL\<rparr>" ?s']) (auto simp: same_rest_def)
next
  case (Some tp)
  let ?t = "temp_entry (aesd_device s)" and ?es = "cb_entries (buffer (aesd_device s))"
  define n where "n = esize ?t + count"
  have all: "all_entries s = ?es @ [?t]"
    using Some by (simp add: all_entries_def temp_entries_def)
  have f: "entry_ok (kmem s) ?t" "eptr ?t = tp" "tp \<noteq> kb" "tp \<notin> eptr ` set ?es"
    "kb \<notin> eptr ` set ?es" "dom (kmem s) = eptr ` set ?es \<union> {tp} \<union> insert kb X"
    "tp \<notin> X" "eptr ` set ?es \<inter> X = {}"
    using assms(2) Some unfolding drv_frame_def all by auto
  note tb = entry_ok_bytes [OF f(1), unfolded f(2)]
  have n: "unat n = unat (esize ?t) + unat count"
    unfolding n_def using tb assms(4,6) by (intro unat_add_lt) simp
  moreover have "0 < length data" using assms(5) by simp
  ultimately have npos: "0 < n" using assms(4) by (simp add: word_less_nat_alt)
  have tk: "kmem s tp = Some (entry_bytes (kmem s) ?t)" using tb by simp
  show thesis
  proof (rule krealloc_cases [where h = "kmem s" and p = tp, OF assms(1) npos tk],
      goal_cases fail ok)
    case fail
    then show ?thesis
      using Some by (intro failed) (simp add: aesd_write_append_def Let_def n_def)
  next
    case (ok q bs)
    let ?m = "(kmem s)(tp := None, q \<mapsto> bs)"
    let ?new = "\<lparr>buffptr = Some q, esize = n\<rparr>"
    let ?h = "?m(q \<mapsto> entry_bytes (kmem s) ?t @ data)"
    let ?s' = "set_dev (\<lambda>d. d\<lparr>temp_entry := ?new\<rparr>) (s\<lparr>kmem := ?h\<rparr>)"
    have "q = tp \<or> q \<notin> dom (kmem s)" using ok(2) by auto
    then have q: "q \<noteq> kb" "q \<notin> eptr ` set ?es" "q \<notin> X"
      using f(3-8) by blast+
    have "take (unat (esize ?t)) bs = entry_bytes (kmem s) ?t"
      using ok(4) tb n by simp
    moreover have "store_block ?m q (unat (esize ?t)) data = Inr (?m(q \<mapsto> take (unat (esize ?t)) bs @ data))"
      using ok(3) n assms(4) by (intro store_block_tail) simp_all
    moreover have "load_block ?m kb 0 (unat count) = Inr data"
      using q f assms(3,4) by (simp add: load_block_def)
    ultimately have run: "aesd_write_append K kb count l s = Inr (False, l, ?s')"
      using Some ok(1) by (simp add: aesd_write_append_def Let_def n_def)
    have new: "entry_bytes ?h ?new = entry_bytes (kmem s) ?t @ data"
      by (simp add: entry_bytes_def)
    have "length (entry_bytes (kmem s) ?t @ data) = unat n"
      using tb assms(4) n by simp
    then have ok': "entry_ok ?h ?new"
      using assms(5) ok(5) by (simp add: entry_ok_def)
    have other: "?h (eptr e) = kmem s (eptr e)" if "e \<in> set ?es" for e
      using q(2) f(4) that by auto
    have dom: "dom ?h = eptr ` set ?es \<union> {eptr ?new} \<union> insert kb X"
      using f(3-7) q by auto
    note st = drv_frame_set_temp [OF assms(2), of ?h ?new "insert kb X", OF other ok' _ dom]
    have "drv_frame (insert kb X) ?s'" "drv_spec ?s' = (drv_spec s)\<lparr>pending := entry_bytes ?h ?new\<rparr>"
      using st q f(5,8) by auto
    moreover have "?h a = kmem s a" if "a \<in> X" for a using that q(3) f(7) by auto
    ultimately show ?thesis
      using run new assms(7) by (intro appended [of l ?s']) (auto simp: drv_spec_def same_rest_def)
  qed
qed

lemma map_log_push: "map f (log_push n x xs) = log_push n (f x) (map f xs)"
  by (simp add: log_push_def map_tl)

text \<open>
  The commit phase: a complete command moves from the pending entry into the ring, and the
  displaced entry, if any, becomes a block held by the operation.
\<close>

lemma aesd_write_commit_ok:
  assumes "drv_frame X s" "buffptr (temp_entry (aesd_device s)) \<noteq> NULL"
    "nt \<Longrightarrow> last (pending (drv_spec s)) = newline" "evicted_entry l = no_entry"
  obtains l' s' where "aesd_write_commit count nt l s = Inr (l', s')"
    "l' = l\<lparr>retval := sint count, evicted_entry := evicted_entry l'\<rparr>"
    "drv_frame (X \<union> set_option (buffptr (evicted_entry l'))) s'"
    "X \<inter> set_option (buffptr (evicted_entry l')) = {}" "same_rest s s'" "kmem s' = kmem s"
    "drv_spec s' = (if nt then \<lparr>commands = log_push 10 (pending (drv_spec s)) (commands (drv_spec s)),
                               pending = []\<rparr> else drv_spec s)"
proof (cases nt)
  case False
  then show thesis
    using assms
    by (intro that [of "l\<lparr>retval := sint count\<rparr>" s])
      (simp_all add: aesd_write_commit_def same_rest_def no_entry_def)
next
  case True
  let ?b = "buffer (aesd_device s)" and ?t = "temp_entry (aesd_device s)"
  let ?es = "cb_entries ?b"
  have wf: "cb_wf ?b" and sp: "set (cb_spare ?b) \<subseteq> {no_entry}"
    and ok: "\<And>e. e \<in> set (?es @ [?t]) \<Longrightarrow> entry_ok (kmem s) e"
    and nl: "\<And>e. e \<in> set ?es \<Longrightarrow> last (entry_bytes (kmem s) e) = newline"
    and dist: "distinct (map eptr (?es @ [?t]))" "eptr ` set (?es @ [?t]) \<inter> X = {}"
    and dom: "dom (kmem s) = eptr ` set (?es @ [?t]) \<union> X"
    using assms(1,2) by (auto simp: drv_frame_def all_entries_def temp_entries_def)
  obtain b' where b': "aesd_circular_buffer_add_entry (Some ?b) ?t =
      Inr (log_evicted 10 no_entry ?es, Some b')"
    "cb_wf b'" "cb_entries b' = log_push 10 ?t ?es"
    using add_entry_eq [OF wf] by metis
  define ev where "ev = log_evicted 10 no_entry ?es"
  define s' where "s' = set_dev (\<lambda>d. d\<lparr>buffer := b', temp_entry := \<lparr>buffptr = NULL, esize = 0\<rparr>\<rparr>) s"
  let ?l = "l\<lparr>retval := sint count, evicted_entry := ev\<rparr>"
  have run: "aesd_write_commit count nt l s = Inr (?l, s')"
    using True by (simp add: aesd_write_commit_def Let_def b'(1) ev_def s'_def)
  have all': "all_entries s' = log_push 10 ?t ?es"
    by (simp add: all_entries_def temp_entries_def s'_def b'(3))
  have split: "set (?es @ [?t]) = set (log_push 10 ?t ?es) \<union> (if buffptr ev = NULL then {} else {ev})
     \<and> distinct (map eptr (log_push 10 ?t ?es))
     \<and> eptr ` set (log_push 10 ?t ?es) \<inter> set_option (buffptr ev) = {}"
  proof (cases "length ?es < 10")
    case True
    then show ?thesis using dist by (simp add: ev_def log_push_def log_evicted_def no_entry_def)
  next
    case False
    then obtain x xs where x: "?es = x # xs" by (cases ?es) auto
    then have "buffptr x = Some (eptr x)" using ok [of x] entry_ok_bytes [of "kmem s" x] by simp
    then show ?thesis using dist x False by (auto simp: ev_def log_push_def log_evicted_def)
  qed
  have spare': "set (cb_spare b') \<subseteq> {no_entry}"
    using cb_spare_add [OF wf b'(1)] sp by (cases "cb_spare ?b") auto
  have last': "last (entry_bytes (kmem s) e) = newline" if "e \<in> set (log_push 10 ?t ?es)" for e
    using set_log_push_subset [of 10 ?t ?es] that nl assms(3) [OF True]
    by (auto simp: drv_spec_def)
  have evp: "set_option (buffptr ev) = eptr ` (if buffptr ev = NULL then {} else {ev})"
    by auto
  let ?L = "log_push 10 ?t ?es"
  have ok': "entry_ok (kmem s) e" if "e \<in> set ?L" for e
    using set_log_push_subset [of 10 ?t ?es] that ok by auto
  have im: "eptr ` set (?es @ [?t]) = eptr ` set ?L \<union> set_option (buffptr ev)"
    using split evp by (metis image_Un)
  have dom': "dom (kmem s) = set (map eptr ?L) \<union> (X \<union> set_option (buffptr ev))"
    using dom im by auto
  have disj': "set (map eptr ?L) \<inter> (X \<union> set_option (buffptr ev)) = {}"
    using split dist(2) im by auto
  have "drv_frame (X \<union> set_option (buffptr ev)) s'"
    unfolding drv_frame_def all'
    using b'(2,3) spare' last' ok' split dom' disj' by (simp add: s'_def no_entry_def)
  moreover have "X \<inter> set_option (buffptr ev) = {}"
    using im dist(2) by auto
  moreover have "drv_spec s' = \<lparr>commands = log_push 10 (pending (drv_spec s)) (commands (drv_spec s)),
                               pending = []\<rparr>"
    by (simp add: drv_spec_def s'_def b'(3) map_log_push entry_bytes_def)
  ultimately show thesis
    using run True by (intro that [of ?l s']) (simp_all add: same_rest_def s'_def)
qed

text \<open>The exit phase releases the lock and exactly the blocks held.\<close>

lemma kfree_opt_held:
  assumes "alloc_laws K" "set_option p \<subseteq> dom h"
  shows "kfree_opt K h p = Inr (case p of None \<Rightarrow> h | Some a \<Rightarrow> h(a := None))"
  using assms
  by (auto simp: kfree_opt_def kfree_block_def kfree_law split: option.splits)

lemma aesd_write_exit_ok:
  assumes "alloc_laws K"
    "drv_frame (set_option (kern_buf l) \<union> set_option (buffptr (evicted_entry l))) s"
    "set_option (kern_buf l) \<inter> set_option (buffptr (evicted_entry l)) = {}"
  defines "l' \<equiv> (if is_locked l then up_write K (lock (aesd_device s)) else lock (aesd_device s))"
  obtains m where "aesd_write_exit K l s = Inr (retval l, set_lock l' (s\<lparr>kmem := m\<rparr>))"
    "drv_inv (s\<lparr>kmem := m\<rparr>)" "drv_spec (s\<lparr>kmem := m\<rparr>) = drv_spec s"
proof -
  let ?X = "set_option (kern_buf l) \<union> set_option (buffptr (evicted_entry l))"
  define m where "m = (kmem s) |` (- ?X)"
  have held: "?X \<subseteq> dom (kmem s)" using assms(2) by (auto simp: drv_frame_def)
  have run: "aesd_write_exit K l s = Inr (retval l, set_lock l' (s\<lparr>kmem := m\<rparr>))"
    using held assms(3)
    by (cases "kern_buf l"; cases "buffptr (evicted_entry l)")
      (auto simp: aesd_write_exit_def Let_def kfree_opt_held [OF assms(1)] m_def l'_def
        restrict_map_def fun_eq_iff)
  have disj: "set (map eptr (all_entries s)) \<inter> ?X = {}"
    and dom: "dom (kmem s) = set (map eptr (all_entries s)) \<union> ?X"
    using assms(2) by (simp_all add: drv_frame_def)
  have agree: "m p = kmem s p" if "p \<in> set (map eptr (all_entries s))" for p
    using that disj by (auto simp: m_def restrict_map_def)
  have "dom m = set (map eptr (all_entries s)) \<union> {}"
    using dom disj by (auto simp: m_def)
  note drv_frame_heap [OF assms(2) agree this]
  with run show thesis by (intro that) (simp_all add: drv_inv_def)
qed

section \<open>A write keeps the invariant and implements the specification\<close>

text \<open>
  The block of \<open>aesd_write\<close>: it leaves behind the locals and a state in which the blocks
  held are the ones the exit phase releases; the lock is held exactly when \<open>is_locked\<close>
  says so. A non-negative return value means the specified effect, a negative one none.
\<close>

definition write_result :: "umem \<Rightarrow> addr \<Rightarrow> size_t \<Rightarrow> dev_spec \<Rightarrow> int \<Rightarrow> dev_spec \<Rightarrow> bool" where
  "write_result um ubuf count d r d' \<longleftrightarrow>
     (r = int (unat count) \<and>
        (\<exists>data. length data = unat count \<and> umem_holds um ubuf data \<and> d' = spec_write data d)) \<or>
     (r \<in> {- ENOMEM, - EFAULT, - EINTR} \<and> d' = d)"

lemma load_block_last:
  assumes "h p = Some bs" "bs \<noteq> []" "i + 1 = length bs"
  shows "load_block h p i 1 = Inr [last bs]"
proof -
  have "bs = butlast bs @ [last bs]" "length (butlast bs) = i"
    using assms(2,3) by simp_all
  then have "drop i bs = [last bs]" by (metis append_eq_conv_conj)
  with assms show ?thesis by (simp add: load_block_def)
qed

text \<open>The critical section, entered with the lock held and the fragment in \<open>kb\<close>.\<close>

lemma aesd_write_locked_ok:
  assumes "alloc_laws K" "drv_frame {kb} s" "kmem s kb = Some data" "length data = unat count"
    "data \<noteq> []" "length data \<le> 2 ^ 48" "umem_holds (usermem s) ubuf data"
    "kern_buf l = Some kb" "is_locked l" "evicted_entry l = no_entry"
  obtains l' s' where
    "res_bind (aesd_write_append K kb count l s) (\<lambda>(brk, l', s').
       if brk then Inr (l', s') else aesd_write_commit count (last data = newline) l' s') =
     Inr (l', s')"
    "drv_frame (set_option (kern_buf l') \<union> set_option (buffptr (evicted_entry l'))) s'"
    "set_option (kern_buf l') \<inter> set_option (buffptr (evicted_entry l')) = {}"
    "same_rest s s'" "is_locked l'"
    "write_result (usermem s) ubuf count (drv_spec s) (retval l') (drv_spec s')"
proof -
  show thesis
  proof (rule aesd_write_append_ok [where X = "{}", OF assms(1-6,8)], goal_cases fresh failed appended)
    case failed
    then show ?case
      using assms(2,8-10)
      by (intro that [of "l\<lparr>retval := - ENOMEM\<rparr>" s])
        (simp_all add: no_entry_def same_rest_def write_result_def)
  next
    case (appended l3 s3)
    have l3: "evicted_entry l3 = no_entry" "is_locked l3" using appended(2) assms(9,10) by auto
    have nl: "last data = newline \<Longrightarrow> last (pending (drv_spec s3)) = newline"
      using appended(4) assms(5) by simp
    obtain l4 s4 where c: "aesd_write_commit count (last data = newline) l3 s3 = Inr (l4, s4)"
      "l4 = l3\<lparr>retval := sint count, evicted_entry := evicted_entry l4\<rparr>"
      "drv_frame (set_option (kern_buf l3) \<union> set_option (buffptr (evicted_entry l4))) s4"
      "set_option (kern_buf l3) \<inter> set_option (buffptr (evicted_entry l4)) = {}" "same_rest s3 s4" "kmem s4 = kmem s3"
      "drv_spec s4 = (if last data = newline
         then \<lparr>commands = log_push 10 (pending (drv_spec s3)) (commands (drv_spec s3)), pending = []\<rparr>
         else drv_spec s3)"
      by (rule aesd_write_commit_ok [OF appended(3) [unfolded Un_empty_right] appended(5) nl l3(1)])
    have l4: "kern_buf l4 = kern_buf l3" "is_locked l4" "retval l4 = sint count"
      using l3(2) by (subst c(2), simp)+
    have sm: "unat count \<le> 2 ^ 48" using assms(4,6) by simp
    have "drv_spec s4 = spec_write data (drv_spec s)"
      using c(7) appended(4) assms(5) by (simp add: spec_write_def)
    then have "write_result (usermem s) ubuf count (drv_spec s) (retval l4) (drv_spec s4)"
      unfolding write_result_def l4(3) sint_of_small [OF sm] using assms(4,7) by blast
    then show ?case
      using appended(1,6) c(1,3,4,5) l4 by (intro that [of l4 s4]) (auto simp: same_rest_def)
  qed simp
qed

lemma aesd_write_body_ok:
  assumes "alloc_laws K" "user_laws K" "lock_laws K" "drv_inv s" "0 < count"
  obtains l s' where "aesd_write_body K ubuf count s = Inr (l, s')"
    "drv_frame (set_option (kern_buf l) \<union> set_option (buffptr (evicted_entry l))) s'"
    "set_option (kern_buf l) \<inter> set_option (buffptr (evicted_entry l)) = {}"
    "same_rest (if is_locked l then set_lock (lock (aesd_device s)\<lparr>writer := True\<rparr>) s else s) s'"
    "is_locked l \<Longrightarrow> up_write K (lock (aesd_device s)\<lparr>writer := True\<rparr>) = lock (aesd_device s)"
    "write_result (usermem s) ubuf count (drv_spec s) (retval l) (drv_spec s')"
proof -
  show thesis
  proof (rule kmalloc_cases [where h = "kmem s", OF assms(1,5)], goal_cases fail ok)
    case fail
    let ?l0 = "\<lparr>kern_buf = NULL, is_locked = False, retval = - ENOMEM, evicted_entry = no_entry\<rparr>"
    have "aesd_write_body K ubuf count s = Inr (?l0, s)"
      by (simp add: aesd_write_body_def Let_def fail)
    then show thesis
      using assms(4)
      by (intro that [of ?l0 s])
        (simp_all add: no_entry_def same_rest_def write_result_def drv_inv_def)
  next
    case (ok kb bs0)
    obtain left data where cp: "copy_from_user K (usermem s) ubuf count = (left, data)" by force
    note len = copy_from_user_law(1) [OF assms(2) cp] and um = copy_from_user_law(2) [OF assms(2) cp]
    let ?m = "(kmem s)(kb \<mapsto> data)" and ?s1 = "s\<lparr>kmem := (kmem s)(kb \<mapsto> data)\<rparr>"
    let ?l1 = "\<lparr>kern_buf = Some kb, is_locked = False, retval = - ENOMEM, evicted_entry = no_entry\<rparr>"
    have st: "store_block ((kmem s)(kb \<mapsto> bs0)) kb 0 data = Inr ?m"
      using ok(3) len by (simp add: store_block_def)
    have fr1: "drv_frame {kb} ?s1" "drv_spec ?s1 = drv_spec s"
      using drv_frame_alloc [of "{}" s kb data] assms(4) ok(2) by (simp_all add: drv_inv_def)
    have c0: "0 < unat count" using assms(5) by (simp only: word_less_nat_alt unat_0)
    have "count \<noteq> 0" using c0 by (metis less_irrefl unat_0)
    from unat_minus_one [OF this] c0 have last_ix: "unat (count - 1) + 1 = unat count" by linarith
    have ne: "data \<noteq> []" using c0 len by (metis length_greater_0_conv)
    have lb: "load_block ?m kb (unat (count - 1)) 1 = Inr [last data]"
      by (rule load_block_last) (use ne last_ix len in simp_all)
    show thesis
    proof (cases "left = 0")
      case False
      then show ?thesis
        using ok(1) cp st fr1
        by (intro that [of "?l1\<lparr>retval := - EFAULT\<rparr>" ?s1])
          (simp_all add: aesd_write_body_def Let_def no_entry_def same_rest_def write_result_def)
    next
      case True
      show ?thesis
      proof (rule down_write_cases [OF assms(3), of "lock (aesd_device s)"], goal_cases taken intr)
        case (intr res)
        then show ?thesis
          using ok(1) cp st fr1 lb True
          by (intro that [of "?l1\<lparr>retval := - EINTR\<rparr>" "set_lock (lock (aesd_device s)) ?s1"])
            (simp_all add: aesd_write_body_def Let_def no_entry_def same_rest_def write_result_def)
      next
        case taken
        let ?lk = "lock (aesd_device s)\<lparr>writer := True\<rparr>"
        let ?s2 = "set_lock ?lk ?s1" and ?l2 = "?l1\<lparr>is_locked := True\<rparr>"
        have run: "aesd_write_body K ubuf count s =
            res_bind (aesd_write_append K kb count ?l2 ?s2) (\<lambda>(brk, l, s').
              if brk then Inr (l, s') else aesd_write_commit count (last data = newline) l s')"
          using ok(1) cp st lb True taken(1)
          by (simp add: aesd_write_body_def Let_def cong: if_cong)
        have fr2: "drv_frame {kb} ?s2" "drv_spec ?s2 = drv_spec s"
          using fr1 drv_frame_lock [of "{kb}" ?lk ?s1] drv_spec_lock [of ?lk ?s1] by simp_all
        show ?thesis
        proof (rule aesd_write_locked_ok [OF assms(1) fr2(1), of data count ubuf ?l2],
            goal_cases _ _ _ _ _ _ _ _ locked)
          case (locked l s')
          then show ?case
            using run fr2(2) taken(2) by (intro that [of l s']) (auto simp: same_rest_def)
        qed (use ne len um True ok(3,4) in simp_all)
      qed
    qed
  qed
qed

lemma aesd_write_ok:
  assumes "alloc_laws K" "user_laws K" "lock_laws K" "drv_inv s" "private_data filp \<noteq> Null_Dev"
  obtains r s' where "aesd_write K filp ubuf count fpos s = Inr (r, fpos, s')"
    "drv_inv s'" "same_rest s s'"
    "write_result (usermem s) ubuf count (drv_spec s) r (drv_spec s')"
proof (cases "count = 0")
  case True
  then show thesis
    using assms(4)
    by (intro that [of 0 s])
      (simp_all add: aesd_write_def same_rest_def write_result_def spec_write_def umem_holds_def)
next
  case False
  then have "0 < count" by (simp add: word_greater_zero_iff)
  then obtain l s1 where b: "aesd_write_body K ubuf count s = Inr (l, s1)"
    "drv_frame (set_option (kern_buf l) \<union> set_option (buffptr (evicted_entry l))) s1"
    "set_option (kern_buf l) \<inter> set_option (buffptr (evicted_entry l)) = {}"
    "same_rest (if is_locked l then set_lock (lock (aesd_device s)\<lparr>writer := True\<rparr>) s else s) s1"
    "is_locked l \<Longrightarrow> up_write K (lock (aesd_device s)\<lparr>writer := True\<rparr>) = lock (aesd_device s)"
    "write_result (usermem s) ubuf count (drv_spec s) (retval l) (drv_spec s1)"
    using aesd_write_body_ok [OF assms(1-4)] by metis
  obtain m where e: "aesd_write_exit K l s1 =
      Inr (retval l, set_lock (if is_locked l then up_write K (lock (aesd_device s1))
                               else lock (aesd_device s1)) (s1\<lparr>kmem := m\<rparr>))"
    "drv_inv (s1\<lparr>kmem := m\<rparr>)" "drv_spec (s1\<lparr>kmem := m\<rparr>) = drv_spec s1"
    using aesd_write_exit_ok [OF assms(1) b(2,3)] by metis
  define s2 where "s2 = set_lock (if is_locked l then up_write K (lock (aesd_device s1))
                               else lock (aesd_device s1)) (s1\<lparr>kmem := m\<rparr>)"
  have "drv_inv s2" "drv_spec s2 = drv_spec s1"
    unfolding s2_def using e(2,3) by (simp_all only: drv_inv_def drv_frame_lock drv_spec_lock)
  moreover have "aesd_write K filp ubuf count fpos s = Inr (retval l, fpos, s2)"
    using False assms(5) by (simp add: aesd_write_def b(1) e(1) s2_def)
  moreover have "same_rest s s2"
    using b(4,5) by (auto simp: same_rest_def s2_def split: if_splits)
  ultimately show thesis using b(6) by (intro that [of "retval l" s2]) simp_all
qed

text \<open>No service the write uses refuses it.\<close>

definition write_served :: "kernel \<Rightarrow> addr \<Rightarrow> size_t \<Rightarrow> kstate \<Rightarrow> bool" where
  "write_served K ubuf count s \<longleftrightarrow>
     fst (kmalloc K (kmem s) count) \<noteq> NULL \<and>
     fst (copy_from_user K (usermem s) ubuf count) = 0 \<and>
     fst (down_write_killable K (lock (aesd_device s))) = 0 \<and>
     (\<forall>h p. fst (krealloc K h p (esize (temp_entry (aesd_device s)) + count)) \<noteq> NULL)"

lemma aesd_write_append_served:
  assumes "\<forall>h p. fst (krealloc K h p (esize (temp_entry (aesd_device s)) + count)) \<noteq> NULL"
    "aesd_write_append K kb count l s = Inr (brk, l', s')"
  shows "\<not> brk"
proof (cases "buffptr (temp_entry (aesd_device s))")
  case (Some tp)
  then show ?thesis
    using assms(2) assms(1) [rule_format, of "kmem s" tp]
    by (auto simp: aesd_write_append_def Let_def res_iff split: prod.splits option.splits)
qed (use assms(2) in \<open>simp add: aesd_write_append_def Let_def\<close>)

lemma aesd_write_commit_retval:
  "aesd_write_commit count nt l s = Inr (l', s') \<Longrightarrow> retval l' = sint count"
  by (auto simp: aesd_write_commit_def Let_def res_iff split: if_splits)

lemma aesd_write_body_served:
  assumes "write_served K ubuf count s" "aesd_write_body K ubuf count s = Inr (l, s')"
  shows "retval l = sint count"
proof -
  obtain kb m where k: "kmalloc K (kmem s) count = (Some kb, m)"
    using assms(1) by (cases "kmalloc K (kmem s) count") (auto simp: write_served_def)
  obtain bs where c: "copy_from_user K (usermem s) ubuf count = (0, bs)"
    using assms(1) by (cases "copy_from_user K (usermem s) ubuf count") (auto simp: write_served_def)
  obtain lk where d: "down_write_killable K (lock (aesd_device s)) = (0, lk)"
    using assms(1) by (cases "down_write_killable K (lock (aesd_device s))")
      (auto simp: write_served_def)
  have r: "\<not> brk" if "aesd_write_append K kb count l1 s1 = Inr (brk, l2, s2)"
    "temp_entry (aesd_device s1) = temp_entry (aesd_device s)" for brk l1 s1 l2 s2
    using assms(1) that by (intro aesd_write_append_served [OF _ that(1)]) (simp add: write_served_def)
  show ?thesis
    using assms(2) r
    by (fastforce simp: aesd_write_body_def k c d Let_def res_iff
        dest: aesd_write_commit_retval split: if_splits)
qed

lemma aesd_write_served_retval:
  assumes "write_served K ubuf count s" "aesd_write K filp ubuf count fpos s = Inr (r, fpos', s')"
  shows "r = sint count"
proof (cases "count = 0")
  case False
  have "retval l = r" if "aesd_write_exit K l s1 = Inr (r, s2)" for l s1 s2
    using that by (auto simp: aesd_write_exit_def Let_def res_iff)
  then show ?thesis
    using False assms(2) aesd_write_body_served [OF assms(1)]
    by (fastforce simp: aesd_write_def res_iff)
qed (use assms(2) in \<open>simp add: aesd_write_def\<close>)

section \<open>Properties\<close>

text \<open>
  C2: A write to the device implements the abstract device. It always returns
  (no assertion fails, no block is accessed or freed wrongly), leaves the file position, the
  lock and everything outside the ring and the heap as they were, keeps the invariant (so no
  block leaks and none is shared), and either returns the number of bytes with the specified
  effect of appending them, or \<open>-ENOMEM\<close>, \<open>-EFAULT\<close> or \<open>-EINTR\<close> with the device unchanged.
\<close>

theorem aesd_write_refines:
  assumes "alloc_laws K" "user_laws K" "lock_laws K" "drv_inv s" "private_data filp \<noteq> Null_Dev"
  shows "\<exists>r s'. aesd_write K filp ubuf count fpos s = Inr (r, fpos, s') \<and>
    drv_inv s' \<and> same_rest s s' \<and>
    write_result (usermem s) ubuf count (drv_spec s) r (drv_spec s')"
  using aesd_write_ok [OF assms] by metis

theorem aesd_write_refines_witness:
  "drv_inv example_state \<and>
   (\<exists>r s'. aesd_write demo_kernel example_file 0 2 0 example_state = Inr (r, 0, s') \<and> drv_inv s' \<and>
      write_result (usermem example_state) 0 2 (drv_spec example_state) r (drv_spec s'))"
  using aesd_write_refines [OF demo_alloc_laws demo_user_laws demo_lock_laws example_state_inv,
      of example_file 0 2 0] example_state_inv
  by (auto simp: example_state_sel)

text \<open>
  When no kernel service refuses, the write takes effect: it returns the
  byte count, and the bytes in user memory have been appended to the pending command, which
  moves to the ring (displacing the oldest command when ten are stored) when they end in a
  newline.
\<close>

lemma aesd_write_completes:
  assumes "alloc_laws K" "user_laws K" "lock_laws K" "drv_inv s" "private_data filp \<noteq> Null_Dev"
    and "write_served K ubuf count s"
    and "umem_holds (usermem s) ubuf data" "length data = unat count"
  shows "\<exists>s'. aesd_write K filp ubuf count fpos s = Inr (int (unat count), fpos, s') \<and>
    drv_inv s' \<and> same_rest s s' \<and> drv_spec s' = spec_write data (drv_spec s)"
proof -
  obtain r s' where w: "aesd_write K filp ubuf count fpos s = Inr (r, fpos, s')" "drv_inv s'" "same_rest s s'"
    "write_result (usermem s) ubuf count (drv_spec s) r (drv_spec s')"
    using aesd_write_ok [OF assms(1-5)] by metis
  have "unat count \<le> 2 ^ 48"
  proof (cases "count = 0")
    case False
    then have "0 < count" by (simp add: word_greater_zero_iff)
    then show ?thesis
      by (rule kmalloc_cases [OF assms(1), where h = "kmem s"])
        (use assms(6) in \<open>auto simp: write_served_def\<close>)
  qed simp
  then have r: "r = int (unat count)"
    using aesd_write_served_retval [OF assms(6) w(1)] by (simp add: sint_of_small)
  then have "0 \<le> r" by simp
  then have "r \<notin> {- ENOMEM, - EFAULT, - EINTR}" by (auto simp: errno_defs)
  with w(4) obtain data' where "length data' = unat count" "umem_holds (usermem s) ubuf data'"
    "drv_spec s' = spec_write data' (drv_spec s)" by (auto simp: write_result_def)
  moreover have "data' = data"
    using calculation(1,2) assms(7,8) by (intro nth_equalityI) (auto simp: umem_holds_def)
  ultimately show ?thesis using w r by auto
qed

lemma example_write_served: "write_served demo_kernel 0 2 example_state"
proof -
  have "List.find (\<lambda>p. kmem example_state p = None) demo_addrs = Some 3"
    by (simp add: demo_addrs_def example_state_def upt_conv_Cons)
  then show ?thesis
    by (simp add: write_served_def demo_kernel_def demo_kmalloc_def demo_krealloc_def
        example_state_def split: option.split)
qed

lemma aesd_write_example:
  "\<exists>s'. aesd_write demo_kernel example_file 0 2 0 example_state = Inr (2, 0, s') \<and> drv_inv s' \<and>
     drv_spec s' = \<lparr>commands = [[104, 10], [97, 98, 10]], pending = []\<rparr>"
proof -
  have "umem_holds (usermem example_state) 0 [98, 10]"
    by (auto simp: umem_holds_def example_state_def less_Suc_eq)
  from aesd_write_completes [OF demo_alloc_laws demo_user_laws demo_lock_laws example_state_inv _
      example_write_served this, of example_file 0]
  show ?thesis by (auto simp: example_state_sel example_state_spec spec_write_def log_push_def)
qed

end
