(* ===== verification/Driver_Module.thy ===== *)
theory Driver_Module
  imports Driver_Spec
begin

text \<open>
  Loading and unloading the driver: \<open>aesd_init_module\<close>, \<open>aesd_setup_cdev\<close> and
  \<open>aesd_cleanup_module\<close>.
\<close>

section \<open>Module initialisation and cleanup\<close>

lemma drv_inv_zero:
  assumes "kmem s = Map.empty" "buffer (aesd_device s) = aesd_circular_buffer_init"
    "temp_entry (aesd_device s) = no_entry"
  shows "drv_inv s" and "drv_spec s = \<lparr>commands = [], pending = []\<rparr>"
  using assms
  by (simp_all add: drv_inv_def drv_frame_def all_entries_def temp_entries_def drv_spec_def
      no_entry_def) (simp_all add: entry_bytes_def)

text \<open>The pointers the cleanup loop meets, and the loop itself.\<close>

definition used :: "aesd_buffer_entry list \<Rightarrow> aesd_buffer_entry list" where
  "used es = filter (\<lambda>e. buffptr e \<noteq> NULL) es"

lemma used_simps [simp]:
  "used [] = []" "used (e # es) = (if buffptr e = NULL then used es else e # used es)"
  "used (xs @ ys) = used xs @ used ys"
  by (simp_all add: used_def)

text \<open>The two cases of a slot: empty, or holding a block that is released.\<close>

lemma cleanup_body_slot:
  "i < length es \<Longrightarrow> buffptr (es ! i) = NULL \<Longrightarrow> cleanup_body K i (es, m) = Inr (es, m)"
  "i < length es \<Longrightarrow> buffptr (es ! i) = Some p \<Longrightarrow> kfree_block K m p = Inr m' \<Longrightarrow>
     cleanup_body K i (es, m) = Inr (es[i := \<lparr>buffptr = NULL, esize = 0\<rparr>], m')"
  by (simp_all add: cleanup_body_def)

lemma cleanup_all_ok:
  assumes "alloc_laws K" "length es = i + n"
    "distinct (map eptr (used (drop i es)))" "set (map eptr (used (drop i es))) \<subseteq> dom m"
  shows "\<exists>es'. buffer_foreach_from (cleanup_body K) n i (es, m) =
      Inr (es', m |` (- set (map eptr (used (drop i es))))) \<and>
    length es' = length es \<and> take i es' = take i es \<and> used (drop i es') = []"
  using assms(2-)
proof (induction n arbitrary: i es m)
  case 0
  then show ?case by simp
next
  case (Suc n)
  define e where "e = es ! i"
  have i: "i < length es" "drop i es = e # drop (Suc i) es"
    using Suc.prems(1) by (simp_all add: e_def Cons_nth_drop_Suc)
  show ?case
  proof (cases "buffptr e")
    case None
    from Suc.IH [of es "Suc i" m] obtain es' where
      "buffer_foreach_from (cleanup_body K) n (Suc i) (es, m) = Inr (es', m |` (- set (map eptr (used (drop (Suc i) es)))))"
      "length es' = length es" "take (Suc i) es' = take (Suc i) es" "used (drop (Suc i) es') = []"
      using Suc.prems None i by auto
    moreover from this(3) have "take i es' = take i es" "es' ! i = e"
      using i(1) \<open>length es' = length es\<close>
      by (metis lessI min.strict_order_iff take_take less_imp_le min_def,
          metis e_def lessI nth_take)
    ultimately show ?thesis
      using None i by (auto simp: e_def cleanup_body_slot simp flip: Cons_nth_drop_Suc)
  next
    case (Some p)
    let ?es1 = "es[i := \<lparr>buffptr = NULL, esize = 0\<rparr>]" and ?m1 = "m(p := None)"
    have d1: "drop (Suc i) ?es1 = drop (Suc i) es" by simp
    have p: "p \<in> dom m" "p \<notin> set (map eptr (used (drop (Suc i) es)))"
      using Suc.prems(2,3) Some i by (auto simp: e_def)
    have pre: "length ?es1 = Suc i + n" "distinct (map eptr (used (drop (Suc i) ?es1)))"
      "set (map eptr (used (drop (Suc i) ?es1))) \<subseteq> dom ?m1"
      using Suc.prems Some i p(2) by auto
    have "\<exists>es'. buffer_foreach_from (cleanup_body K) n (Suc i) (?es1, ?m1) =
        Inr (es', ?m1 |` (- set (map eptr (used (drop (Suc i) es))))) \<and>
      length es' = length ?es1 \<and> take (Suc i) es' = take (Suc i) ?es1 \<and> used (drop (Suc i) es') = []"
      using Suc.IH [where es = ?es1 and i = "Suc i" and m = ?m1] pre by (simp only: d1)
    then obtain es' where
      IH: "buffer_foreach_from (cleanup_body K) n (Suc i) (?es1, ?m1) =
        Inr (es', ?m1 |` (- set (map eptr (used (drop (Suc i) es)))))"
      "length es' = length es" "take (Suc i) es' = take (Suc i) ?es1" "used (drop (Suc i) es') = []"
      by (auto simp only: length_list_update)
    have "es' ! i = \<lparr>buffptr = NULL, esize = 0\<rparr>" "take i es' = take i es"
      using IH(3) i(1) by (metis lessI nth_list_update_eq nth_take,
          metis IH(3) lessI less_imp_le min_def take_take take_update_cancel order_refl)
    moreover have "?m1 |` (- set (map eptr (used (drop (Suc i) es)))) =
        m |` (- set (map eptr (used (drop i es))))"
      using Some i by (auto simp: restrict_map_def fun_eq_iff)
    moreover have "kfree_block K m p = Inr ?m1"
      using p(1) by (auto simp: kfree_block_def kfree_law [OF assms(1)])
    ultimately show ?thesis
      using IH i Some by (auto simp: e_def cleanup_body_slot simp flip: Cons_nth_drop_Suc)
  qed
qed

lemma used_all: "\<forall>e \<in> set es. buffptr e \<noteq> NULL \<Longrightarrow> used es = es"
  by (simp add: used_def)

lemma used_none: "set es \<subseteq> {no_entry} \<Longrightarrow> used es = []"
  by (auto simp: used_def no_entry_def filter_empty_conv)

text \<open>Up to rotation, the used slots of the array are the live entries.\<close>

lemma used_array:
  assumes "drv_inv s"
  shows "distinct (map eptr (used (entry (buffer (aesd_device s)))))"
    and "set (used (entry (buffer (aesd_device s)))) = set (cb_entries (buffer (aesd_device s)))"
proof -
  let ?b = "buffer (aesd_device s)"
  let ?k = "unat (out_offs ?b) mod length (entry ?b)"
  have inv: "cb_wf ?b" "set (cb_spare ?b) \<subseteq> {no_entry}"
    "\<forall>e \<in> set (cb_entries ?b). buffptr e \<noteq> NULL" "distinct (map eptr (cb_entries ?b))"
    using assms by (auto simp: drv_inv_def drv_frame_def all_entries_def entry_ok_def)
  have "used (cb_entries ?b @ cb_spare ?b) = cb_entries ?b"
    using inv(2,3) by (simp add: used_all used_none)
  then have rot: "used (drop ?k (entry ?b)) @ used (take ?k (entry ?b)) = cb_entries ?b"
    unfolding cb_entries_spare [OF inv(1)] rotate_drop_take by simp
  have arr: "used (entry ?b) = used (take ?k (entry ?b)) @ used (drop ?k (entry ?b))"
    by (metis append_take_drop_id used_simps(3))
  show "distinct (map eptr (used (entry ?b)))"
    using inv(4) unfolding arr rot [symmetric] by auto
  show "set (used (entry ?b)) = set (cb_entries ?b)"
    unfolding arr rot [symmetric] by auto
qed

lemma aesd_cleanup_ok:
  assumes "alloc_laws K" "chrdev_laws K" "drv_inv s"
  obtains s' where "aesd_cleanup_module K s = Inr s'" "kmem s' = Map.empty" "cdevs s' = {}"
    "regions s' = regions s - {(aesd_major s, aesd_minor)}"
    "used (entry (buffer (aesd_device s'))) = []" "temp_entry (aesd_device s') = no_entry"
proof -
  let ?b = "buffer (aesd_device s)" and ?t = "temp_entry (aesd_device s)"
  let ?P = "eptr ` set (cb_entries ?b)"
  have len: "length (entry ?b) = 0 + AESDCHAR_MAX_WRITE_OPERATIONS_SUPPORTED"
    and dom: "dom (kmem s) = ?P \<union> eptr ` set (temp_entries s)"
    and disj: "?P \<inter> eptr ` set (temp_entries s) = {}"
    and temp: "buffptr ?t = NULL \<Longrightarrow> ?t = no_entry"
    using assms(3) by (auto simp: drv_inv_def drv_frame_def all_entries_def cb_wf_def)
  note ua = used_array [OF assms(3)]
  from cleanup_all_ok [OF assms(1) len, of "kmem s"] ua dom obtain es' where
    loop: "AESD_CIRCULAR_BUFFER_FOREACH (cleanup_body K) (entry ?b, kmem s) =
      Inr (es', kmem s |` (- ?P))" "used es' = []"
    by (auto simp: AESD_CIRCULAR_BUFFER_FOREACH_def)
  note laws = cdev_del_law [OF assms(2)] unregister_region_law [OF assms(2)]
  show thesis
  proof (cases "buffptr ?t")
    case None
    have "dom (kmem s |` (- ?P)) = {}" using dom None by (simp add: temp_entries_def)
    then have "kmem s |` (- ?P) = Map.empty" by blast
    then have run: "aesd_cleanup_module K s =
        Inr (set_dev (\<lambda>d. d\<lparr>buffer := ?b\<lparr>entry := es'\<rparr>\<rparr>)
          (s\<lparr>cdevs := {}, kmem := Map.empty,
             regions := regions s - {(aesd_major s, aesd_minor)}\<rparr>))"
      using loop None by (simp add: aesd_cleanup_module_def laws)
    show thesis by (rule that [OF run]) (simp_all add: temp None loop(2))
  next
    case (Some p)
    have p: "p \<in> dom (kmem s |` (- ?P))" and "dom (kmem s |` (- ?P - {p})) = {}"
      using dom disj Some by (auto simp: temp_entries_def)
    then have "kmem s |` (- ?P - {p}) = Map.empty" by (simp only: dom_eq_empty_conv)
    with p have "kfree_block K (kmem s |` (- ?P)) p = Inr Map.empty"
      by (auto simp: kfree_block_def kfree_law [OF assms(1)])
    then have run: "aesd_cleanup_module K s =
        Inr (set_dev (\<lambda>d. d\<lparr>buffer := ?b\<lparr>entry := es'\<rparr>, temp_entry := no_entry\<rparr>)
          (s\<lparr>cdevs := {}, kmem := Map.empty,
             regions := regions s - {(aesd_major s, aesd_minor)}\<rparr>))"
      using loop Some by (simp add: aesd_cleanup_module_def laws Let_def no_entry_def)
    show thesis by (rule that [OF run]) (simp_all add: loop(2))
  qed
qed

lemma aesd_setup_cdev_ok:
  assumes "chrdev_laws K" "aesd_setup_cdev K s = (err, s')"
  shows "cdevs s' = (if err = 0 then insert (aesd_major s, aesd_minor) (cdevs s) else cdevs s)"
    "kmem s' = kmem s" "aesd_major s' = aesd_major s" "regions s' = regions s"
    "buffer (aesd_device s') = buffer (aesd_device s)" "lock (aesd_device s') = lock (aesd_device s)"
    "temp_entry (aesd_device s') = temp_entry (aesd_device s)"
    "cdev (aesd_device s') = \<lparr>cdev_ops = Some Aesd_fops, cdev_owner = True\<rparr>"
proof -
  obtain cs where a: "cdev_add K (cdevs s) (aesd_major s, aesd_minor) = (err, cs)"
    and s': "s' = set_dev (\<lambda>d. d\<lparr>cdev := \<lparr>cdev_ops = Some Aesd_fops, cdev_owner = True\<rparr>\<rparr>) s\<lparr>cdevs := cs\<rparr>"
    using assms(2) by (auto simp: aesd_setup_cdev_def Let_def split: prod.splits)
  show "cdevs s' = (if err = 0 then insert (aesd_major s, aesd_minor) (cdevs s) else cdevs s)"
    "kmem s' = kmem s" "aesd_major s' = aesd_major s" "regions s' = regions s"
    "buffer (aesd_device s') = buffer (aesd_device s)" "lock (aesd_device s') = lock (aesd_device s)"
    "temp_entry (aesd_device s') = temp_entry (aesd_device s)"
    "cdev (aesd_device s') = \<lparr>cdev_ops = Some Aesd_fops, cdev_owner = True\<rparr>"
    using cdev_add_law [OF assms(1) a] by (simp_all add: s')
qed

text \<open>The state right after the module has been loaded.\<close>

definition drv_loaded :: "kstate \<Rightarrow> kstate \<Rightarrow> bool" where
  "drv_loaded s s' \<longleftrightarrow>
     drv_inv s' \<and> drv_spec s' = \<lparr>commands = [], pending = []\<rparr> \<and>
     lock (aesd_device s') = \<lparr>readers = 0, writer = False\<rparr> \<and>
     cdev (aesd_device s') = \<lparr>cdev_ops = Some Aesd_fops, cdev_owner = True\<rparr> \<and>
     (aesd_major s', aesd_minor) \<notin> regions s \<and>
     regions s' = insert (aesd_major s', aesd_minor) (regions s) \<and>
     cdevs s' = insert (aesd_major s', aesd_minor) (cdevs s)"

lemma aesd_init_ok:
  assumes "chrdev_laws K" "kmem s = Map.empty" "aesd_init_module K s = (r, s')"
  shows "if r = 0 then drv_loaded s s'
         else kmem s' = Map.empty \<and> regions s' = regions s \<and> cdevs s' = cdevs s"
proof -
  obtain res d rs where a: "alloc_chrdev_region K (regions s) aesd_minor = (res, d, rs)"
    by (cases "alloc_chrdev_region K (regions s) aesd_minor") auto
  note law = alloc_region_law [OF assms(1) a]
  show ?thesis
  proof (cases "res < 0")
    case True
    with assms law a show ?thesis by (auto simp: aesd_init_module_def Let_def)
  next
    case False
    with law have d: "d \<notin> regions s" "rs = insert d (regions s)" "(fst d, aesd_minor) = d"
      by (auto simp: prod_eq_iff)
    define s3 where "s3 = s\<lparr>regions := rs, aesd_major := fst d, aesd_device := zero_dev\<rparr>"
    obtain err s4 where st: "aesd_setup_cdev K s3 = (err, s4)" by force
    note c = aesd_setup_cdev_ok [OF assms(1) st]
    have run: "(r, s') = (if err \<noteq> 0
        then (err, s4\<lparr>regions := unregister_chrdev_region K (regions s4) d\<rparr>) else (err, s4))"
      using assms(3) a False st by (simp add: aesd_init_module_def Let_def s3_def zero_dev_def no_entry_def)
    show ?thesis
    proof (cases "err = 0")
      case True
      with run have s': "s' = s4" "r = 0" by simp_all
      have "drv_inv s4" "drv_spec s4 = \<lparr>commands = [], pending = []\<rparr>"
        using drv_inv_zero [of s4] c assms(2) by (simp_all add: s3_def zero_dev_def)
      then show ?thesis
        using True c d by (simp add: s' drv_loaded_def s3_def zero_dev_def)
    next
      case False
      with run c d assms(2) show ?thesis
        by (simp add: unregister_region_law [OF assms(1)] s3_def)
    qed
  qed
qed

section \<open>Properties\<close>

text \<open>The kernel before the module is loaded.\<close>

definition blank_state :: kstate where
  "blank_state = \<lparr>kmem = Map.empty, usermem = Map.empty, aesd_device = zero_dev, aesd_major = 0,
                  regions = {}, cdevs = {}\<rparr>"

text \<open>
  C27: Unloading the module never frees a block twice or through a stale
  pointer, and afterwards no block of the driver is left allocated, no slot of the ring and no
  pending entry points anywhere, and the device and its number are unregistered.
\<close>

theorem aesd_cleanup_frees_all:
  assumes "alloc_laws K" "chrdev_laws K" "drv_inv s"
  shows "\<exists>s'. aesd_cleanup_module K s = Inr s' \<and> kmem s' = Map.empty \<and>
    used (entry (buffer (aesd_device s'))) = [] \<and> temp_entry (aesd_device s') = no_entry \<and>
    cdevs s' = {} \<and> regions s' = regions s - {(aesd_major s, aesd_minor)}"
  using aesd_cleanup_ok [OF assms] by metis

theorem aesd_cleanup_frees_all_witness:
  "drv_inv example_state \<and> kmem example_state \<noteq> Map.empty \<and>
   (\<exists>s'. aesd_cleanup_module demo_kernel example_state = Inr s' \<and> kmem s' = Map.empty)"
  using aesd_cleanup_frees_all [OF demo_alloc_laws demo_chrdev_laws example_state_inv]
    example_state_inv by (auto simp: example_state_sel)

end
