(* ===== verification/Driver_Trace.thy ===== *)
theory Driver_Trace
  imports Driver_Write Driver_Read Driver_Module
begin

text \<open>
  The driver over its whole life: the kernel calls the handlers of \<open>aesd_fops\<close> on the open
  files, one after the other, in any order and with any outcome of the services. The runs
  of the step relation \<open>drv_step\<close> are all such histories. The theorems hold at every state
  reached after the module has been loaded.
\<close>

section \<open>The step relation\<close>

record sys =
  kst :: kstate
  files :: "nat \<rightharpoonup> kfile"      \<comment> \<open>the open files of the device\<close>

datatype drv_event =
    Ev_open nat
  | Ev_release nat
  | Ev_read nat addr size_t int
  | Ev_write nat umem addr size_t int
      \<comment> \<open>with the user memory at the time of the call and the return value\<close>
  | Ev_ioctl nat uint32 addr int
  | Ev_llseek nat loff_t int int
  | Ev_user umem              \<comment> \<open>the processes change their memory\<close>

definition aesd_inode :: inode where
  "aesd_inode = \<lparr>i_cdev = Aesd_Device\<rparr>"

text \<open>
  A fresh \<open>struct file\<close> has position 0; the kernel passes its position to \<open>read\<close> and
  \<open>write\<close> and stores the updated one back.
\<close>

inductive drv_step :: "sys \<Rightarrow> drv_event \<Rightarrow> sys \<Rightarrow> bool" where
  st_open: "files \<sigma> fd = None \<Longrightarrow> aesd_open aesd_inode \<lparr>f_pos = 0, private_data = Null_Dev\<rparr> = (0, f) \<Longrightarrow>
    drv_step \<sigma> (Ev_open fd) (\<sigma>\<lparr>files := (files \<sigma>)(fd \<mapsto> f)\<rparr>)"
| st_release: "files \<sigma> fd = Some f \<Longrightarrow> aesd_release aesd_inode f = 0 \<Longrightarrow>
    drv_step \<sigma> (Ev_release fd) (\<sigma>\<lparr>files := (files \<sigma>)(fd := None)\<rparr>)"
| st_read: "files \<sigma> fd = Some f \<Longrightarrow> kernel_laws K \<Longrightarrow>
    aesd_read K f buf count (f_pos f) (kst \<sigma>) = Inr (r, pos, s) \<Longrightarrow>
    drv_step \<sigma> (Ev_read fd buf count r) \<lparr>kst = s, files = (files \<sigma>)(fd \<mapsto> f\<lparr>f_pos := pos\<rparr>)\<rparr>"
| st_write: "files \<sigma> fd = Some f \<Longrightarrow> kernel_laws K \<Longrightarrow>
    aesd_write K f ubuf count (f_pos f) (kst \<sigma>) = Inr (r, pos, s) \<Longrightarrow>
    drv_step \<sigma> (Ev_write fd (usermem (kst \<sigma>)) ubuf count r)
      \<lparr>kst = s, files = (files \<sigma>)(fd \<mapsto> f\<lparr>f_pos := pos\<rparr>)\<rparr>"
| st_ioctl: "files \<sigma> fd = Some f \<Longrightarrow> kernel_laws K \<Longrightarrow>
    aesd_ioctl K f cmd arg (kst \<sigma>) = Inr (r, f', s) \<Longrightarrow>
    drv_step \<sigma> (Ev_ioctl fd cmd arg r) \<lparr>kst = s, files = (files \<sigma>)(fd \<mapsto> f')\<rparr>"
| st_llseek: "files \<sigma> fd = Some f \<Longrightarrow> kernel_laws K \<Longrightarrow>
    aesd_llseek K f offset whence (kst \<sigma>) = Inr (r, f', s) \<Longrightarrow>
    drv_step \<sigma> (Ev_llseek fd offset whence r) \<lparr>kst = s, files = (files \<sigma>)(fd \<mapsto> f')\<rparr>"
| st_user: "drv_step \<sigma> (Ev_user um) (\<sigma>\<lparr>kst := (kst \<sigma>)\<lparr>usermem := um\<rparr>\<rparr>)"

inductive drv_run :: "sys \<Rightarrow> drv_event list \<Rightarrow> sys \<Rightarrow> bool" where
  run_nil: "drv_run \<sigma> [] \<sigma>"
| run_snoc: "drv_run \<sigma> evs \<sigma>1 \<Longrightarrow> drv_step \<sigma>1 ev \<sigma>2 \<Longrightarrow> drv_run \<sigma> (evs @ [ev]) \<sigma>2"

inductive_cases drv_stepE:
  "drv_step \<sigma> (Ev_open fd) \<sigma>'" "drv_step \<sigma> (Ev_release fd) \<sigma>'"
  "drv_step \<sigma> (Ev_read fd buf count r) \<sigma>'" "drv_step \<sigma> (Ev_write fd um ubuf count r) \<sigma>'"
  "drv_step \<sigma> (Ev_ioctl fd cmd arg r) \<sigma>'" "drv_step \<sigma> (Ev_llseek fd offset whence r) \<sigma>'"
  "drv_step \<sigma> (Ev_user um) \<sigma>'"

inductive_simps drv_run_nil_iff: "drv_run \<sigma> [] \<sigma>'"

definition sys_loaded :: "kstate \<Rightarrow> sys" where
  "sys_loaded s = \<lparr>kst = s, files = Map.empty\<rparr>"

section \<open>The invariant of a run\<close>

definition sys_inv :: "sys \<Rightarrow> bool" where
  "sys_inv \<sigma> \<longleftrightarrow>
     drv_inv (kst \<sigma>) \<and> lock (aesd_device (kst \<sigma>)) = \<lparr>readers = 0, writer = False\<rparr> \<and>
     (\<forall>fd f. files \<sigma> fd = Some f \<longrightarrow>
        private_data f = Aesd_Device \<and> unat (f_pos f) \<le> 10 * 2 ^ 48)"

lemma sys_inv_file:
  assumes "sys_inv \<sigma>" "files \<sigma> fd = Some f"
  shows "drv_inv (kst \<sigma>)" "private_data f \<noteq> Null_Dev" "unat (f_pos f) \<le> 10 * 2 ^ 48"
    "0 \<le> sint (f_pos f)"
proof -
  show inv: "drv_inv (kst \<sigma>)" "private_data f \<noteq> Null_Dev" "unat (f_pos f) \<le> 10 * 2 ^ 48"
    using assms by (simp_all add: sys_inv_def)
  show "0 \<le> sint (f_pos f)"
    using inv(3) sint_unat [of "f_pos f"] by simp
qed

lemma sys_inv_update:
  assumes "sys_inv \<sigma>" "drv_inv s" "lock (aesd_device s) = lock (aesd_device (kst \<sigma>))"
    "private_data f = Aesd_Device" "unat (f_pos f) \<le> 10 * 2 ^ 48"
  shows "sys_inv \<lparr>kst = s, files = (files \<sigma>)(fd \<mapsto> f)\<rparr>"
  using assms by (simp add: sys_inv_def)

lemma kernel_lawsD:
  assumes "kernel_laws K"
  shows "alloc_laws K" "user_laws K" "lock_laws K" "seek_laws K" "chrdev_laws K"
  using assms by (simp_all add: kernel_laws_def)

lemma read_position:
  assumes "read_result um buf count fpos d r fpos' um'" "unat fpos \<le> 10 * 2 ^ 48"
    "length (spec_contents d) \<le> 10 * 2 ^ 48"
  shows "unat fpos' \<le> 10 * 2 ^ 48"
proof -
  let ?bs = "spec_read (unat fpos) (unat count) d"
  have "length ?bs \<le> length (spec_contents d) - unat fpos"
    by (subst spec_read_prefix) simp
  moreover have "?bs = [] \<or> unat fpos < length (spec_contents d)"
    using spec_read_Nil_iff [of "unat fpos" "unat count" d] by auto
  ultimately show ?thesis
    using assms by (auto simp: read_result_def Let_def)
qed

lemma ioctl_position:
  assumes "ioctl_result K s arg f r f'" "unat (f_pos f) \<le> 10 * 2 ^ 48"
    "length (spec_contents (drv_spec s)) \<le> 10 * 2 ^ 48"
  shows "private_data f' = private_data f" "unat (f_pos f') \<le> 10 * 2 ^ 48"
  using assms
  by (auto simp: ioctl_result_def unat_of_nat split: option.splits prod.splits if_splits)

lemma llseek_position:
  assumes "seek_laws K" "0 \<le> sint pos" "unat pos \<le> 10 * 2 ^ 48" "n \<le> 10 * 2 ^ 48"
    "fixed_size_llseek K pos offset whence (of_nat n) = (r, pos')"
  shows "unat pos' \<le> 10 * 2 ^ 48"
proof -
  have n: "sint (of_nat n :: loff_t) = int n"
    using assms(4) sint_word_of_int [of "int n"] by simp
  note law = fixed_size_llseek_law [OF assms(1,2) _ assms(5), unfolded n]
  have "pos' = pos \<or> 0 \<le> sint pos' \<and> sint pos' \<le> int n"
    using law by (auto split: if_splits)
  moreover have "unat pos' \<le> n" if "0 \<le> sint pos'" "sint pos' \<le> int n"
    using that(2) unat_sint [OF that(1)] by (simp only: flip: of_nat_le_iff [where 'a = int])
  ultimately show ?thesis using assms(3,4) by auto
qed

text \<open>What a step does to the abstract device.\<close>

fun event_data :: "drv_event \<Rightarrow> byte list list" where
  "event_data (Ev_write fd um ubuf count r) =
     (if 0 < r then [map (\<lambda>i. the (um (ubuf + i))) [0..<unat count]] else [])"
| "event_data ev = []"

lemma umem_holds_map:
  assumes "umem_holds um a data" "length data = n"
  shows "map (\<lambda>i. the (um (a + i))) [0..<n] = data"
  using assms by (intro nth_equalityI) (auto simp: umem_holds_def)

lemma write_event_spec:
  assumes "write_result um ubuf count d r d'"
  shows "d' = fold spec_write (event_data (Ev_write fd um ubuf count r)) d"
proof (cases "0 < r")
  case True
  with assms obtain data where "length data = unat count" "umem_holds um ubuf data"
    "d' = spec_write data d" by (auto simp: write_result_def errno_defs)
  with True umem_holds_map [of um ubuf data] show ?thesis by simp
next
  case False
  consider data where "r = int (length data)" "d' = spec_write data d" | "d' = d"
    using assms unfolding write_result_def by metis
  then have "d' = d" using False by cases (simp_all add: spec_write_def)
  with False show ?thesis by simp
qed

text \<open>Every step keeps the invariant, and its effect on the device is its event's data.\<close>

lemma drv_step_ok:
  assumes "drv_step \<sigma> ev \<sigma>'" "sys_inv \<sigma>"
  shows "sys_inv \<sigma>' \<and> drv_spec (kst \<sigma>') = fold spec_write (event_data ev) (drv_spec (kst \<sigma>))"
  using assms
proof cases
  case (st_open fd f)
  with assms(2) show ?thesis by (auto simp: sys_inv_def aesd_open_def aesd_inode_def)
next
  case (st_release fd f)
  with assms(2) show ?thesis by (auto simp: sys_inv_def)
next
  case (st_read fd f K buf count r pos s)
  note f = sys_inv_file [OF assms(2) st_read(3)] and k = kernel_lawsD [OF st_read(4)]
  from aesd_read_ok [OF k(2,3) f(1,2)] st_read(5) obtain um where
    s: "s = kst \<sigma>\<lparr>usermem := um\<rparr>"
    and r: "read_result (usermem (kst \<sigma>)) buf count (f_pos f) (drv_spec (kst \<sigma>)) r pos um"
    by (metis Pair_inject sum.inject(2))
  have "unat pos \<le> 10 * 2 ^ 48"
    using read_position [OF r f(3) drv_inv_commands(3) [OF f(1)]] .
  then show ?thesis
    using sys_inv_update [OF assms(2), of s "f\<lparr>f_pos := pos\<rparr>" fd] f(1) assms(2) st_read(1,2,3)
    by (simp add: s drv_inv_def sys_inv_def)
next
  case (st_write fd f K ubuf count r pos s)
  note f = sys_inv_file [OF assms(2) st_write(3)] and k = kernel_lawsD [OF st_write(4)]
  from aesd_write_ok [OF k(1-3) f(1,2)] st_write(5) have
    s: "pos = f_pos f" "drv_inv s" "same_rest (kst \<sigma>) s"
    and r: "write_result (usermem (kst \<sigma>)) ubuf count (drv_spec (kst \<sigma>)) r (drv_spec s)"
    by (metis Pair_inject sum.inject(2))+
  then show ?thesis
    using sys_inv_update [OF assms(2), of s "f\<lparr>f_pos := pos\<rparr>" fd] f assms(2) st_write(1,2,3)
      write_event_spec [OF r, of fd]
    by (simp add: same_rest_def sys_inv_def)
next
  case (st_ioctl fd f K cmd arg r f' s)
  note f = sys_inv_file [OF assms(2) st_ioctl(3)] and k = kernel_lawsD [OF st_ioctl(4)]
  have "s = kst \<sigma> \<and> private_data f' = private_data f \<and> unat (f_pos f') \<le> 10 * 2 ^ 48"
  proof (cases "cmd = AESDCHAR_IOCSEEKTO")
    case True
    from aesd_ioctl_seekto_ok [OF k(2,3) f(1,2)] st_ioctl(5) have
      "s = kst \<sigma>" "ioctl_result K (kst \<sigma>) arg f r f'"
      unfolding True by (metis Pair_inject sum.inject(2))+
    then show ?thesis
      using ioctl_position f(3) drv_inv_commands(3) [OF f(1)] by metis
  qed (use st_ioctl(5) f in \<open>simp add: aesd_ioctl_def res_iff\<close>)
  then show ?thesis
    using sys_inv_update [OF assms(2), of s f' fd] f(1) assms(2) st_ioctl(1,2,3)
    by (simp add: sys_inv_def)
next
  case (st_llseek fd f K offset whence r f' s)
  note f = sys_inv_file [OF assms(2) st_llseek(3)] and k = kernel_lawsD [OF st_llseek(4)]
  have "s = kst \<sigma> \<and> private_data f' = private_data f \<and> unat (f_pos f') \<le> 10 * 2 ^ 48"
    by (rule aesd_llseek_ok [OF k(3) f(1,2), of offset whence])
      (use st_llseek(5) f llseek_position [OF k(4) f(4,3) drv_inv_commands(3) [OF f(1)]] in auto)
  then show ?thesis
    using sys_inv_update [OF assms(2), of s f' fd] f(1) assms(2) st_llseek(1,2,3)
    by (simp add: sys_inv_def)
next
  case (st_user um)
  with assms(2) show ?thesis by (simp add: sys_inv_def drv_inv_def)
qed

lemma drv_run_ok:
  assumes "drv_run \<sigma> evs \<sigma>'" "sys_inv \<sigma>"
  shows "sys_inv \<sigma>' \<and>
    drv_spec (kst \<sigma>') = fold spec_write (concat (map event_data evs)) (drv_spec (kst \<sigma>))"
  using assms
proof (induction rule: drv_run.induct)
  case (run_snoc \<sigma> evs \<sigma>1 ev \<sigma>2)
  then show ?case using drv_step_ok [OF run_snoc.hyps(2)] by simp
qed simp

lemma sys_loaded_inv: "drv_loaded s0 s \<Longrightarrow> sys_inv (sys_loaded s)"
  by (simp add: drv_loaded_def sys_inv_def sys_loaded_def)

section \<open>Histories of writes\<close>

text \<open>
  The commands a sequence of fragments completes, and the fragment left over: a command ends
  with the first fragment whose last byte is a newline.
\<close>

fun split_commands :: "byte list \<Rightarrow> byte list list \<Rightarrow> byte list list \<times> byte list" where
  "split_commands acc [] = ([], acc)"
| "split_commands acc (w # ws) =
     (if last w = newline
      then let (cs, rest) = split_commands [] ws in ((acc @ w) # cs, rest)
      else split_commands (acc @ w) ws)"

lemma fold_spec_write:
  assumes "\<And>w. w \<in> set ws \<Longrightarrow> w \<noteq> []" "length (commands d) \<le> 10"
    "split_commands (pending d) ws = (cs, rest)"
  shows "fold spec_write ws d =
    \<lparr>commands = drop (length (commands d @ cs) - 10) (commands d @ cs), pending = rest\<rparr>"
  using assms
proof (induction ws arbitrary: d cs)
  case Nil
  then show ?case by simp
next
  case (Cons w ws)
  have w: "w \<noteq> []" using Cons.prems(1) by simp
  show ?case
  proof (cases "last w = newline")
    case False
    let ?d = "d\<lparr>pending := pending d @ w\<rparr>"
    have "spec_write w d = ?d" using w False by (simp add: spec_write_def)
    moreover have "fold spec_write ws ?d =
        \<lparr>commands = drop (length (commands ?d @ cs) - 10) (commands ?d @ cs), pending = rest\<rparr>"
      using Cons.prems False by (intro Cons.IH) simp_all
    ultimately show ?thesis by simp
  next
    case True
    let ?d = "\<lparr>commands = log_push 10 (pending d @ w) (commands d), pending = []\<rparr>"
    obtain cs' where cs: "cs = (pending d @ w) # cs'" "split_commands [] ws = (cs', rest)"
      using Cons.prems(3) True by (auto split: prod.splits)
    have "fold spec_write ws ?d =
        \<lparr>commands = drop (length (commands ?d @ cs') - 10) (commands ?d @ cs'), pending = rest\<rparr>"
      using Cons.prems(1,2) cs(2) by (intro Cons.IH) (auto simp: log_push_def)
    moreover have "spec_write w d = ?d" using w True by (simp add: spec_write_def)
    moreover have "drop (length (commands ?d @ cs') - 10) (commands ?d @ cs') =
        drop (length (commands d @ cs) - 10) (commands d @ cs)"
      using Cons.prems(2)
      by (cases "commands d") (auto simp: log_push_def cs(1) Suc_diff_le simp del: drop_append)
    ultimately show ?thesis by simp
  qed
qed

lemma event_data_nonempty:
  assumes "drv_step \<sigma> ev \<sigma>'" "sys_inv \<sigma>" "w \<in> set (event_data ev)"
  shows "w \<noteq> []"
  using assms
proof cases
  case (st_write fd f K ubuf count r pos s)
  then have r: "0 < r" using assms(3) by (simp split: if_splits)
  have "count \<noteq> 0" using st_write(5) r by (auto simp: aesd_write_def)
  then show ?thesis using assms(3) st_write(1) by (auto simp: unat_eq_zero split: if_splits)
qed (use assms(3) in simp_all)

lemma run_data_nonempty:
  assumes "drv_run \<sigma> evs \<sigma>'" "sys_inv \<sigma>" "w \<in> set (concat (map event_data evs))"
  shows "w \<noteq> []"
  using assms
proof (induction rule: drv_run.induct)
  case (run_snoc \<sigma> evs \<sigma>1 ev \<sigma>2)
  then show ?case
    using event_data_nonempty [OF run_snoc.hyps(2)] drv_run_ok [OF run_snoc.hyps(1)] by auto
qed simp

section \<open>Properties\<close>

text \<open>A loaded module and one open file: the start of the closed examples.\<close>

lemma example_loaded_empty:
  "\<exists>s. drv_loaded blank_state s \<and> kmem s = Map.empty \<and> temp_entry (aesd_device s) = \<lparr>buffptr = NULL, esize = 0\<rparr>"
proof -
  obtain r s' where i: "aesd_init_module demo_kernel blank_state = (r, s')" by force
  have "r = 0 \<and> kmem s' = Map.empty \<and> temp_entry (aesd_device s') = \<lparr>buffptr = NULL, esize = 0\<rparr>"
    using i by (auto simp: aesd_init_module_def demo_kernel_def blank_state_def aesd_setup_cdev_def Let_def)
  with i aesd_init_ok [OF demo_chrdev_laws _ i] show ?thesis by (auto simp: blank_state_def)
qed

lemma example_loaded: "\<exists>s. drv_loaded blank_state s"
  using example_loaded_empty by blast

lemma example_open_step:
  "drv_step (sys_loaded s) (Ev_open 3) \<lparr>kst = s, files = [3 \<mapsto> \<lparr>f_pos = 0, private_data = Aesd_Device\<rparr>]\<rparr>"
  using st_open [of "sys_loaded s" 3 "\<lparr>f_pos = 0, private_data = Aesd_Device\<rparr>"]
  by (simp add: sys_loaded_def aesd_open_def aesd_inode_def)

text \<open>
  C23: In every history after loading the module, whatever calls are made and
  whatever the kernel services return, the driver's invariant holds (the ring is well-formed,
  every entry owns its own block of the recorded size, no block is leaked), the semaphore is free
  between calls, and every open file refers to the device.
\<close>

theorem drv_run_invariant:
  assumes "drv_loaded s0 s" "drv_run (sys_loaded s) evs \<sigma>"
  shows "drv_inv (kst \<sigma>) \<and> lock (aesd_device (kst \<sigma>)) = \<lparr>readers = 0, writer = False\<rparr> \<and>
    (\<forall>fd f. files \<sigma> fd = Some f \<longrightarrow> private_data f = Aesd_Device)"
  using drv_run_ok [OF assms(2) sys_loaded_inv [OF assms(1)]] by (auto simp: sys_inv_def)

theorem drv_run_invariant_witness:
  "\<exists>s \<sigma>. drv_loaded blank_state s \<and> drv_run (sys_loaded s) [Ev_open 3] \<sigma> \<and> drv_inv (kst \<sigma>) \<and>
     files \<sigma> 3 \<noteq> None"
proof -
  obtain s where s: "drv_loaded blank_state s" using example_loaded by blast
  let ?\<sigma> = "\<lparr>kst = s, files = [3 \<mapsto> \<lparr>f_pos = 0, private_data = Aesd_Device\<rparr>]\<rparr>"
  have run: "drv_run (sys_loaded s) [Ev_open 3] ?\<sigma>"
    using run_snoc [OF run_nil example_open_step] by simp
  with s drv_run_invariant [OF s run] show ?thesis by (intro exI [of _ s] exI [of _ ?\<sigma>]) simp
qed

text \<open>
  C14: No handler can crash the kernel: at every state of every history, each of
  \<open>read\<close>, \<open>write\<close>, \<open>ioctl\<close> and \<open>llseek\<close> on an open file returns a result, for all arguments and
  all outcomes of the services, and so does unloading the module; no assertion fails, no
  \<open>NULL\<close> or stale pointer is used, no access leaves its block.
\<close>

theorem drv_run_safe:
  assumes "drv_loaded s0 s" "drv_run (sys_loaded s) evs \<sigma>" "files \<sigma> fd = Some f" "kernel_laws K"
  shows "(\<exists>y. aesd_read K f buf count (f_pos f) (kst \<sigma>) = Inr y) \<and>
    (\<exists>y. aesd_write K f buf count (f_pos f) (kst \<sigma>) = Inr y) \<and>
    (\<exists>y. aesd_ioctl K f cmd arg (kst \<sigma>) = Inr y) \<and>
    (\<exists>y. aesd_llseek K f offset whence (kst \<sigma>) = Inr y) \<and>
    (\<exists>y. aesd_cleanup_module K (kst \<sigma>) = Inr y)"
proof -
  have inv: "sys_inv \<sigma>"
    using drv_run_ok [OF assms(2) sys_loaded_inv [OF assms(1)]] by simp
  note f = sys_inv_file [OF inv assms(3)] and k = kernel_lawsD [OF assms(4)]
  have "\<exists>y. aesd_ioctl K f cmd arg (kst \<sigma>) = Inr y"
  proof (cases "cmd = AESDCHAR_IOCSEEKTO")
    case True
    then show ?thesis using aesd_ioctl_seekto_ok [OF k(2,3) f(1,2)] by metis
  qed (use f(2) in \<open>simp add: aesd_ioctl_def\<close>)
  then show ?thesis
    using aesd_read_ok [OF k(2,3) f(1,2)] aesd_write_ok [OF k(1-3) f(1,2)]
      aesd_llseek_ok [OF k(3) f(1,2)] aesd_cleanup_ok [OF k(1,5) f(1)] by metis
qed

theorem drv_run_safe_witness:
  "\<exists>s \<sigma> f y. drv_loaded blank_state s \<and> drv_run (sys_loaded s) [Ev_open 3] \<sigma> \<and>
     files \<sigma> 3 = Some f \<and> aesd_write demo_kernel f 0 1 (f_pos f) (kst \<sigma>) = Inr y"
proof -
  obtain s where s: "drv_loaded blank_state s" using example_loaded by blast
  let ?f = "\<lparr>f_pos = 0, private_data = Aesd_Device\<rparr>"
  let ?\<sigma> = "\<lparr>kst = s, files = [3 \<mapsto> ?f]\<rparr>"
  have run: "drv_run (sys_loaded s) [Ev_open 3] ?\<sigma>"
    using run_snoc [OF run_nil example_open_step] by simp
  have "files ?\<sigma> 3 = Some ?f" by simp
  from drv_run_safe [OF s run this demo_kernel_laws] obtain y where
    "aesd_write demo_kernel ?f 0 1 (f_pos ?f) (kst ?\<sigma>) = Inr y" by blast
  with s run show ?thesis by (intro exI [of _ s] exI [of _ ?\<sigma>] exI [of _ ?f] exI [of _ y]) simp
qed

text \<open>
  C1: The device remembers exactly the last ten completed commands: after any
  history, the stored commands are the ten newest of those that the accepted writes complete, in
  order, each the concatenation of the fragments written to it, and the pending entry is the
  unfinished rest, no matter which files were written and what was read or sought in between.
\<close>

theorem drv_run_history:
  assumes "drv_loaded s0 s" "drv_run (sys_loaded s) evs \<sigma>"
    and "split_commands [] (concat (map event_data evs)) = (cs, rest)"
  shows "drv_spec (kst \<sigma>) = \<lparr>commands = drop (length cs - 10) cs, pending = rest\<rparr>"
proof -
  have inv: "sys_inv (sys_loaded s)" using assms(1) by (rule sys_loaded_inv)
  have "drv_spec (kst (sys_loaded s)) = \<lparr>commands = [], pending = []\<rparr>"
    using assms(1) by (simp add: drv_loaded_def sys_loaded_def)
  then show ?thesis
    using drv_run_ok [OF assms(2) inv] run_data_nonempty [OF assms(2) inv] assms(3)
      fold_spec_write [of "concat (map event_data evs)" "\<lparr>commands = [], pending = []\<rparr>" cs rest]
    by simp
qed

theorem drv_run_history_witness:
  "\<exists>s \<sigma>. drv_loaded blank_state s \<and>
     drv_run (sys_loaded s)
       [Ev_open 3, Ev_user [0 \<mapsto> 97, 1 \<mapsto> 10], Ev_write 3 [0 \<mapsto> 97, 1 \<mapsto> 10] 0 2 2] \<sigma> \<and>
     drv_spec (kst \<sigma>) = \<lparr>commands = [[97, 10]], pending = []\<rparr>"
proof -
  let ?um = "[0 \<mapsto> 97, 1 \<mapsto> 10] :: umem" and ?f = "\<lparr>f_pos = 0, private_data = Aesd_Device\<rparr>"
  obtain s where s: "drv_loaded blank_state s" "kmem s = Map.empty"
    "temp_entry (aesd_device s) = \<lparr>buffptr = NULL, esize = 0\<rparr>" using example_loaded_empty by blast
  let ?s = "s\<lparr>usermem := ?um\<rparr>"
  let ?\<sigma> = "\<lparr>kst = ?s, files = [3 \<mapsto> ?f]\<rparr>"
  have "drv_run (sys_loaded s) [Ev_open 3] \<lparr>kst = s, files = [3 \<mapsto> ?f]\<rparr>"
    using run_snoc [OF run_nil example_open_step] by simp
  from run_snoc [OF this st_user [of _ ?um]]
  have run: "drv_run (sys_loaded s) [Ev_open 3, Ev_user ?um] ?\<sigma>" by simp
  have inv: "drv_inv ?s" using drv_run_ok [OF run sys_loaded_inv [OF s(1)]] by (simp add: sys_inv_def)
  note k = kernel_lawsD [OF demo_kernel_laws]
  have "private_data ?f \<noteq> Null_Dev" by simp
  then obtain r s' where w: "aesd_write demo_kernel ?f 0 2 0 ?s = Inr (r, 0, s')"
    by (rule aesd_write_ok [OF k(1-3) inv])
  have "List.find (\<lambda>p. kmem ?s p = None) demo_addrs = Some 1"
    using s(2) by (simp add: demo_addrs_def upt_conv_Cons)
  moreover have "lock (aesd_device ?s) = \<lparr>readers = 0, writer = False\<rparr>"
    using s(1) by (simp add: drv_loaded_def)
  ultimately have "write_served demo_kernel 0 2 ?s"
    using s(3) by (simp add: write_served_def demo_kernel_def demo_kmalloc_def demo_krealloc_def
        split: option.split)
  from aesd_write_served_retval [OF this w] have r: "r = 2" by simp
  have "drv_step ?\<sigma> (Ev_write 3 ?um 0 2 2) \<lparr>kst = s', files = [3 \<mapsto> ?f]\<rparr>"
    using st_write [of ?\<sigma> 3 ?f demo_kernel 0 2 2 0 s'] w demo_kernel_laws by (simp add: r)
  from run_snoc [OF run this]
  have run': "drv_run (sys_loaded s) [Ev_open 3, Ev_user ?um, Ev_write 3 ?um 0 2 2] \<lparr>kst = s', files = [3 \<mapsto> ?f]\<rparr>"
    by simp
  have "split_commands [] (concat (map event_data [Ev_open 3, Ev_user ?um, Ev_write 3 ?um 0 2 2])) = ([[97, 10]], [])"
    by (simp add: upt_conv_Cons)
  from drv_run_history [OF s(1) run' this] s(1) run' show ?thesis
    by (intro exI [of _ s] exI [of _ "\<lparr>kst = s', files = [3 \<mapsto> ?f]\<rparr>"]) simp
qed

end
