(* ===== verification/Device_File.thy ===== *)
theory Device_File
  imports Client_Spec Driver_Trace
begin

text \<open>
  The data file of a connection with the driver behind it. Theory \<open>Client_Flow\<close> runs the
  server on an abstract device; here the same \<open>stdio\<close> calls end in the handlers of
  \<open>aesd_fops\<close>: \<open>fread\<close> is a loop of \<open>aesd_read\<close> calls, \<open>fwrite\<close> with \<open>fflush\<close> a sequence of
  \<open>aesd_write\<close> calls, \<open>ioctl\<close> a call of \<open>aesd_ioctl\<close>, and the bytes travel through user memory.
  When the kernel serves the calls, they do what the abstract calls do, so the replies of a
  connection thread are those of the driver.
\<close>

section \<open>System calls on the device\<close>

record dev_file =                \<comment> \<open>a \<open>FILE\<close> on \<open>/dev/aesdchar\<close>\<close>
  kfile_of :: kfile
  at_eof :: bool

record layout =                  \<comment> \<open>where the thread keeps its buffers in user memory\<close>
  reply_buf :: addr              \<comment> \<open>\<open>buffer\<close> of \<open>reply_to_client\<close>\<close>
  flat_buf :: addr               \<comment> \<open>\<open>flat_data\<close>\<close>
  seek_arg :: addr               \<comment> \<open>\<open>seekto\<close>\<close>

definition put_user :: "addr \<Rightarrow> byte list \<Rightarrow> kstate \<Rightarrow> kstate" where
  "put_user a bs s = s\<lparr>usermem := write_umem (usermem s) a bs\<rparr>"

definition get_user :: "addr \<Rightarrow> nat \<Rightarrow> kstate \<Rightarrow> byte list" where
  "get_user a n s = map (\<lambda>i. the (usermem s (a + i))) [0..<n]"

text \<open>
  The \<open>read\<close> calls behind one \<open>fread\<close>: until all bytes have arrived or a call returns none
  (end of file) or an error. The result tells the number of bytes and whether the end was met.
\<close>

function dev_read_full ::
  "kernel \<Rightarrow> addr \<Rightarrow> nat \<Rightarrow> kfile \<Rightarrow> kstate \<Rightarrow> (nat \<times> bool \<times> kfile \<times> kstate) res" where
  "dev_read_full K buf n f s =
     (if n = 0 then Inr (0, False, f, s)
      else case aesd_read K f buf (of_nat n) (f_pos f) s of
             Inl e \<Rightarrow> Inl e
           | Inr (r, pos, s1) \<Rightarrow>
               if r \<le> 0 then Inr (0, r = 0, f\<lparr>f_pos := pos\<rparr>, s1)
               else res_bind (dev_read_full K (buf + nat r) (n - nat r) (f\<lparr>f_pos := pos\<rparr>) s1)
                      (\<lambda>(k, eof, f2, s2). Inr (nat r + k, eof, f2, s2)))"
  by pat_completeness auto
termination
  by (relation "measure (\<lambda>(K, buf, n, f, s). n)") auto

declare dev_read_full.simps [simp del]

definition dev_fread ::
  "kernel \<Rightarrow> addr \<Rightarrow> nat \<Rightarrow> dev_file \<Rightarrow> kstate \<Rightarrow> (nat \<times> dev_file \<times> kstate) res" where
  "dev_fread K buf n fp s =
     (if at_eof fp then Inr (0, fp, s)
      else res_bind (dev_read_full K buf n (kfile_of fp) s)
             (\<lambda>(k, eof, f, s1). Inr (k, \<lparr>kfile_of = f, at_eof = eof\<rparr>, s1)))"

text \<open>The \<open>write\<close> calls behind \<open>fwrite\<close> and \<open>fflush\<close>, up to the first that does not take all its bytes.\<close>

fun dev_write_all ::
  "kernel \<Rightarrow> addr \<Rightarrow> byte list list \<Rightarrow> kfile \<Rightarrow> kstate \<Rightarrow> (kfile \<times> kstate) res" where
  "dev_write_all K buf [] f s = Inr (f, s)"
| "dev_write_all K buf (w # ws) f s =
     res_bind (aesd_write K f buf (of_nat (length w)) (f_pos f) (put_user buf w s)) (\<lambda>(r, pos, s1).
       if r = int (length w) then dev_write_all K buf ws (f\<lparr>f_pos := pos\<rparr>) s1
       else Inr (f\<lparr>f_pos := pos\<rparr>, s1))"

definition dev_ioctl_seekto ::
  "kernel \<Rightarrow> addr \<Rightarrow> aesd_seekto \<Rightarrow> kfile \<Rightarrow> kstate \<Rightarrow> (kfile \<times> kstate) res" where
  "dev_ioctl_seekto K arg t f s =
     res_bind (aesd_ioctl K f AESDCHAR_IOCSEEKTO arg (put_user arg (bytes_of_seekto t) s))
       (\<lambda>(r, f', s'). Inr (f', s'))"

section \<open>The connection's work on the data file\<close>

text \<open>The part of \<open>write_new_packet\<close> under the write lock.\<close>

definition dev_write_locked ::
  "kernel \<Rightarrow> libc \<Rightarrow> layout \<Rightarrow> byte list \<Rightarrow> dev_file \<Rightarrow> kstate \<Rightarrow> (dev_file \<times> kstate) res" where
  "dev_write_locked K L lay flat_data fp s =
     (case packet_params flat_data of (params, seekto) \<Rightarrow>
        res_bind (if params = 2 then dev_ioctl_seekto K (seek_arg lay) seekto (kfile_of fp) s
                  else dev_write_all K (flat_buf lay) (stdio_split L flat_data) (kfile_of fp) s)
          (\<lambda>(f, s1). Inr (fp\<lparr>kfile_of := f\<rparr>, s1)))"

text \<open>The loop of \<open>reply_to_client\<close>, for at most \<open>m\<close> rounds.\<close>

fun dev_reply_loop ::
  "kernel \<Rightarrow> addr \<Rightarrow> nat \<Rightarrow> dev_file \<Rightarrow> kstate \<Rightarrow> byte list list \<Rightarrow> (byte list list \<times> dev_file \<times> kstate) res" where
  "dev_reply_loop K buf 0 fp s acc = Inl No_Return"
| "dev_reply_loop K buf (Suc m) fp s acc =
     res_bind (dev_fread K buf BUFFER_SIZE fp s) (\<lambda>(bytes_read, fp1, s1).
       if bytes_read = 0 then Inr (acc, fp1, s1)
       else dev_reply_loop K buf m fp1 s1 (acc @ [get_user buf bytes_read s1]))"

definition dev_packet ::
  "kernel \<Rightarrow> libc \<Rightarrow> layout \<Rightarrow> nat \<Rightarrow> byte list \<Rightarrow> dev_file \<Rightarrow> kstate
     \<Rightarrow> (byte list list \<times> dev_file \<times> kstate) res" where
  "dev_packet K L lay m flat_data fp s =
     res_bind (dev_write_locked K L lay flat_data fp s) (\<lambda>(fp1, s1).
       dev_reply_loop K (reply_buf lay) m fp1 s1 [])"

fun dev_session ::
  "kernel \<Rightarrow> libc \<Rightarrow> layout \<Rightarrow> nat \<Rightarrow> byte list list \<Rightarrow> dev_file \<Rightarrow> kstate
     \<Rightarrow> (byte list \<times> dev_file \<times> kstate) res" where
  "dev_session K L lay m [] fp s = Inr ([], fp, s)"
| "dev_session K L lay m (p # ps) fp s =
     res_bind (dev_packet K L lay m p fp s) (\<lambda>(bufs, fp1, s1).
     res_bind (dev_session K L lay m ps fp1 s1) (\<lambda>(out, fp2, s2).
       Inr (concat bufs @ out, fp2, s2)))"

section \<open>A kernel that serves\<close>

text \<open>
  No service refuses: a free lock is granted, accesses to mapped user memory succeed, and
  blocks of up to \<open>N\<close> bytes are available as long as no more than eleven are in use, which is
  all the driver ever holds.
\<close>

definition mapped :: "umem \<Rightarrow> addr \<Rightarrow> nat \<Rightarrow> bool" where
  "mapped um a n \<longleftrightarrow> (\<forall>i<n. um (a + i) \<noteq> None)"

definition kernel_serves :: "kernel \<Rightarrow> nat \<Rightarrow> bool" where
  "kernel_serves K N \<longleftrightarrow>
     (\<forall>l. \<not> writer l \<longrightarrow> fst (down_read_interruptible K l) = 0) \<and>
     (\<forall>l. \<not> writer l \<and> readers l = 0 \<longrightarrow> fst (down_write_killable K l) = 0) \<and>
     (\<forall>um a bs. mapped um a (length bs) \<longrightarrow> fst (copy_to_user K um a bs) = 0) \<and>
     (\<forall>um a n. mapped um a (unat n) \<longrightarrow> access_ok K a n \<and> fst (copy_from_user K um a n) = 0) \<and>
     (\<forall>h n. 0 < n \<and> unat n \<le> N \<and> finite (dom h) \<and> card (dom h) \<le> 11 \<longrightarrow> fst (kmalloc K h n) \<noteq> NULL) \<and>
     (\<forall>h p n. 0 < n \<and> unat n \<le> N \<longrightarrow> fst (krealloc K h p n) \<noteq> NULL)"

lemmas kernel_servesD = kernel_serves_def [THEN iffD1]
lemmas serves_down_read = kernel_servesD [THEN conjunct1, rule_format]
lemmas serves_down_write = kernel_servesD [THEN conjunct2, THEN conjunct1, rule_format]
lemmas serves_copy_out = kernel_servesD [THEN conjunct2, THEN conjunct2, THEN conjunct1, rule_format]
lemmas serves_copy_in =
  kernel_servesD [THEN conjunct2, THEN conjunct2, THEN conjunct2, THEN conjunct1, rule_format]
lemmas serves_kmalloc =
  kernel_servesD [THEN conjunct2, THEN conjunct2, THEN conjunct2, THEN conjunct2, THEN conjunct1, rule_format]
lemmas serves_krealloc =
  kernel_servesD [THEN conjunct2, THEN conjunct2, THEN conjunct2, THEN conjunct2, THEN conjunct2, rule_format]

text \<open>The driver is idle, the thread's reply buffer is mapped and its file is open on the device.\<close>

definition dev_ready :: "layout \<Rightarrow> dev_file \<Rightarrow> kstate \<Rightarrow> bool" where
  "dev_ready lay fp s \<longleftrightarrow>
     drv_inv s \<and> lock (aesd_device s) = \<lparr>readers = 0, writer = False\<rparr> \<and>
     private_data (kfile_of fp) = Aesd_Device \<and> mapped (usermem s) (reply_buf lay) BUFFER_SIZE"

definition stream_of :: "dev_file \<Rightarrow> stream" where
  "stream_of fp = \<lparr>file_pos = unat (f_pos (kfile_of fp)), file_eof = at_eof fp\<rparr>"

section \<open>Reading\<close>

lemma write_umem_append: "write_umem (write_umem um a xs) (a + length xs) ys = write_umem um a (xs @ ys)"
  by (rule ext) (auto simp: write_umem_def nth_append)

lemma mapped_write_umem: "mapped um a n \<Longrightarrow> mapped (write_umem um b bs) a n"
  by (simp add: mapped_def write_umem_def)

lemma umem_holds_write: "umem_holds (write_umem um a bs) a bs"
  by (simp add: umem_holds_def write_umem_def)

lemma mapped_write: "mapped (write_umem um a bs) a (length bs)"
  by (simp add: mapped_def write_umem_def)

lemma get_user_put_user: "get_user a (length bs) (put_user a bs s) = bs"
  by (intro nth_equalityI) (simp_all add: get_user_def put_user_def write_umem_def)

lemma serves_read_served:
  assumes "kernel_serves K N" "lock (aesd_device s) = \<lparr>readers = 0, writer = False\<rparr>"
    "mapped (usermem s) buf (unat n)"
  shows "read_served K buf n s"
  unfolding read_served_def copies_out_def
proof (intro conjI allI impI)
  show "fst (down_read_interruptible K (lock (aesd_device s))) = 0"
    using serves_down_read [OF assms(1)] assms(2) by simp
  fix bs :: "byte list" assume "length bs \<le> unat n"
  with assms(3) have "mapped (usermem s) buf (length bs)" by (simp add: mapped_def)
  then show "fst (copy_to_user K (usermem s) buf bs) = 0" by (rule serves_copy_out [OF assms(1)])
qed

text \<open>One \<open>read\<close> call the kernel serves.\<close>

lemma aesd_read_exact:
  assumes "user_laws K" "lock_laws K" "kernel_serves K N" "drv_inv s"
    "lock (aesd_device s) = \<lparr>readers = 0, writer = False\<rparr>" "private_data f \<noteq> Null_Dev"
    "mapped (usermem s) buf n" "n \<le> BUFFER_SIZE"
  defines "bs \<equiv> spec_read (unat (f_pos f)) n (drv_spec s)"
  obtains pos where "aesd_read K f buf (of_nat n) (f_pos f) s =
      Inr (int (length bs), pos, put_user buf bs s)" "unat pos = unat (f_pos f) + length bs"
proof -
  have n: "unat (of_nat n :: size_t) = n" using assms(8) by (simp add: unat_of_nat BUFFER_SIZE_def)
  then have "read_served K buf (of_nat n) s"
    by (intro serves_read_served [OF assms(3,5)]) (simp add: assms(7))
  with aesd_read_ok [OF assms(1,2,4,6), of buf "of_nat n" "f_pos f"] obtain r pos um where
    "aesd_read K f buf (of_nat n) (f_pos f) s = Inr (r, pos, s\<lparr>usermem := um\<rparr>)"
    "read_result (usermem s) buf (of_nat n) (f_pos f) (drv_spec s) r pos um" "0 \<le> r" by metis
  then show thesis
    using n by (intro that [of pos]) (auto simp: read_result_def Let_def errno_defs bs_def put_user_def)
qed

lemma put_user_simps [simp]:
  "drv_spec (put_user a bs s) = drv_spec s" "drv_inv (put_user a bs s) = drv_inv s"
  "aesd_device (put_user a bs s) = aesd_device s" "kmem (put_user a bs s) = kmem s"
  "usermem (put_user a bs s) = write_umem (usermem s) a bs" "put_user a [] s = s"
  by (simp_all add: put_user_def drv_inv_def)

lemma put_user_append: "put_user (a + length xs) ys (put_user a xs s) = put_user a (xs @ ys) s"
  by (simp add: put_user_def write_umem_append)

lemma dev_read_full_ok:
  assumes "user_laws K" "lock_laws K" "kernel_serves K N" "drv_inv s"
    "lock (aesd_device s) = \<lparr>readers = 0, writer = False\<rparr>" "private_data f \<noteq> Null_Dev"
    "mapped (usermem s) buf n" "n \<le> BUFFER_SIZE"
  shows "\<exists>pos. dev_read_full K buf n f s =
      Inr (length (read_full (drv_spec s) (unat (f_pos f)) n),
           length (read_full (drv_spec s) (unat (f_pos f)) n) < n, f\<lparr>f_pos := pos\<rparr>,
           put_user buf (read_full (drv_spec s) (unat (f_pos f)) n) s) \<and>
    unat pos = unat (f_pos f) + length (read_full (drv_spec s) (unat (f_pos f)) n)"
  using assms(4-8)
proof (induction n arbitrary: buf f s rule: less_induct)
  case (less n)
  let ?d = "drv_spec s" and ?p = "unat (f_pos f)"
  define bs where "bs = spec_read ?p n ?d"
  have full: "read_full ?d ?p n = (if bs = [] then [] else bs @ read_full ?d (?p + length bs) (n - length bs))"
    by (subst read_full.simps) (simp add: bs_def Let_def)
  show ?case
  proof (cases "n = 0")
    case True
    then have "bs = []" by (simp add: bs_def spec_read_Nil_iff)
    with True full show ?thesis
      by (subst dev_read_full.simps) (simp add: exI [of _ "f_pos f"])
  next
    case False
    from aesd_read_exact [OF assms(1-3) less.prems] obtain pos where
      r: "aesd_read K f buf (of_nat n) (f_pos f) s = Inr (int (length bs), pos, put_user buf bs s)"
      "unat pos = ?p + length bs" unfolding bs_def by metis
    show ?thesis
    proof (cases "bs = []")
      case True
      with False full r show ?thesis by (subst dev_read_full.simps) auto
    next
      case ne: False
      let ?f = "f\<lparr>f_pos := pos\<rparr>" and ?s = "put_user buf bs s"
      have le: "length bs \<le> n" by (simp add: bs_def spec_read_length)
      have "mapped (usermem ?s) (buf + length bs) (n - length bs)"
        using less.prems(4) le mapped_write_umem [of "usermem s" "buf + length bs" "n - length bs"]
        by (simp add: mapped_def add.assoc)
      with less.IH [of "n - length bs" ?s ?f "buf + length bs"] less.prems ne False
        order_trans [OF diff_le_self less.prems(5)] obtain pos' where
        "dev_read_full K (buf + length bs) (n - length bs) ?f ?s =
          Inr (length (read_full ?d (unat pos) (n - length bs)),
               length (read_full ?d (unat pos) (n - length bs)) < n - length bs, ?f\<lparr>f_pos := pos'\<rparr>,
               put_user (buf + length bs) (read_full ?d (unat pos) (n - length bs)) ?s)"
        "unat pos' = unat pos + length (read_full ?d (unat pos) (n - length bs))" by auto
      then show ?thesis
        using False ne r full le
        by (subst dev_read_full.simps) (auto simp: put_user_append intro!: exI [of _ pos'])
    qed
  qed
qed

lemma dev_fread_ok:
  assumes "user_laws K" "lock_laws K" "kernel_serves K N" "dev_ready lay fp s"
    "fread (drv_spec s) BUFFER_SIZE (stream_of fp) = (bs, f)"
  obtains fp' where
    "dev_fread K (reply_buf lay) BUFFER_SIZE fp s = Inr (length bs, fp', put_user (reply_buf lay) bs s)"
    "stream_of fp' = f" "dev_ready lay fp' (put_user (reply_buf lay) bs s)"
proof (cases "at_eof fp")
  case True
  then show thesis
    using assms(4,5) by (intro that [of fp]) (auto simp: dev_fread_def fread_def stream_of_def)
next
  case False
  let ?p = "unat (f_pos (kfile_of fp))"
  have bs: "bs = read_full (drv_spec s) ?p BUFFER_SIZE"
    "f = \<lparr>file_pos = ?p + length bs, file_eof = length bs < BUFFER_SIZE\<rparr>"
    using False assms(5) by (auto simp: fread_def stream_of_def Let_def)
  obtain pos where "dev_read_full K (reply_buf lay) BUFFER_SIZE (kfile_of fp) s =
      Inr (length bs, length bs < BUFFER_SIZE, (kfile_of fp)\<lparr>f_pos := pos\<rparr>, put_user (reply_buf lay) bs s)"
    "unat pos = ?p + length bs"
    using dev_read_full_ok [OF assms(1-3), of s "kfile_of fp" "reply_buf lay" BUFFER_SIZE] assms(4)
    unfolding bs(1) by (auto simp: dev_ready_def)
  then show thesis
    using False assms(4) bs(2)
    by (intro that [of "\<lparr>kfile_of = (kfile_of fp)\<lparr>f_pos := pos\<rparr>, at_eof = length bs < BUFFER_SIZE\<rparr>"])
      (simp_all add: dev_fread_def stream_of_def dev_ready_def mapped_write_umem)
qed

text \<open>The reply loop; every round but the last takes at least one byte of what is left.\<close>

lemma dev_reply_loop_ok:
  assumes "user_laws K" "lock_laws K" "kernel_serves K N" "dev_ready lay fp s"
    "length (spec_contents (drv_spec s)) - file_pos (stream_of fp) < m"
  shows "\<exists>bufs fp' s'. dev_reply_loop K (reply_buf lay) m fp s acc = Inr (bufs, fp', s') \<and>
    reply_loop (drv_spec s) (stream_of fp) acc = (bufs, stream_of fp') \<and>
    dev_ready lay fp' s' \<and> drv_spec s' = drv_spec s"
  using assms(4,5)
proof (induction m arbitrary: fp s acc)
  case (Suc m)
  obtain bs f where fr: "fread (drv_spec s) BUFFER_SIZE (stream_of fp) = (bs, f)" by force
  from dev_fread_ok [OF assms(1-3) Suc.prems(1) fr] obtain fp1 where
    r: "dev_fread K (reply_buf lay) BUFFER_SIZE fp s =
      Inr (length bs, fp1, put_user (reply_buf lay) bs s)"
    "stream_of fp1 = f" "dev_ready lay fp1 (put_user (reply_buf lay) bs s)" .
  show ?case
  proof (cases "bs = []")
    case True
    with r fr show ?thesis by (subst reply_loop.simps) auto
  next
    case False
    have "file_pos (stream_of fp) < length (spec_contents (drv_spec s))"
      "file_pos f = file_pos (stream_of fp) + length bs"
      using False fr read_full_bounds [of "drv_spec s" "file_pos (stream_of fp)" BUFFER_SIZE]
      by (auto simp: fread_def Let_def split: if_splits)
    then have "length (spec_contents (drv_spec s)) - file_pos f < m"
      using Suc.prems(2) False by (cases bs) auto
    with Suc.IH [of fp1 "put_user (reply_buf lay) bs s" "acc @ [bs]"] r show ?thesis
      using False fr by (subst reply_loop.simps) (auto simp: get_user_put_user)
  qed
qed simp

section \<open>Writing\<close>

text \<open>What a serving kernel can serve is bounded by the size of its largest block.\<close>

lemma serves_bound:
  assumes "alloc_laws K" "kernel_serves K N"
  shows "N \<le> 2 ^ 48"
proof (rule ccontr)
  assume "\<not> N \<le> 2 ^ 48"
  let ?n = "of_nat (2 ^ 48 + 1) :: size_t"
  have n: "unat ?n = 2 ^ 48 + 1" by (simp add: unat_of_nat)
  then have "0 < ?n" by (simp add: word_less_nat_alt)
  then show False
  proof (rule kmalloc_cases [OF assms(1), where h = Map.empty], goal_cases)
    case 1
    with \<open>0 < ?n\<close> \<open>\<not> N \<le> 2 ^ 48\<close> n serves_kmalloc [OF assms(2), of ?n Map.empty] show False by simp
  qed (use n in simp)
qed

lemma drv_inv_blocks:
  assumes "drv_inv s"
  shows "finite (dom (kmem s))" "card (dom (kmem s)) \<le> 11"
proof -
  have d: "dom (kmem s) = set (map eptr (all_entries s))"
    and "length (cb_entries (buffer (aesd_device s))) \<le> 10"
    using assms length_cb_entries_le by (simp_all add: drv_inv_def drv_frame_def)
  then have "length (map eptr (all_entries s)) \<le> 11"
    by (simp add: all_entries_def temp_entries_def)
  with card_length [of "map eptr (all_entries s)"] show "card (dom (kmem s)) \<le> 11" unfolding d by simp
  show "finite (dom (kmem s))" unfolding d by simp
qed

lemma drv_inv_pending:
  assumes "drv_inv s"
  shows "unat (esize (temp_entry (aesd_device s))) = length (pending (drv_spec s))"
proof (cases "buffptr (temp_entry (aesd_device s))")
  case None
  then have "temp_entry (aesd_device s) = no_entry" using assms by (simp add: drv_inv_def drv_frame_def)
  then show ?thesis by (simp add: drv_spec_def) (simp add: no_entry_def)
next
  case (Some p)
  then have "entry_ok (kmem s) (temp_entry (aesd_device s))"
    using assms by (simp add: drv_inv_def drv_frame_def all_entries_def temp_entries_def)
  with entry_ok_bytes show ?thesis by (simp add: drv_spec_def)
qed

lemma serves_write_served:
  assumes "alloc_laws K" "kernel_serves K N" "drv_inv s"
    "lock (aesd_device s) = \<lparr>readers = 0, writer = False\<rparr>" "mapped (usermem s) buf (unat n)" "0 < n"
    "length (pending (drv_spec s)) + unat n \<le> N"
  shows "write_served K buf n s"
proof -
  let ?e = "esize (temp_entry (aesd_device s))"
  have "unat ?e + unat n < 2 ^ 64"
    using assms(7) serves_bound [OF assms(1,2)] by (simp add: drv_inv_pending [OF assms(3)])
  then have u: "unat (?e + n) = unat ?e + unat n" by (intro unat_add_lt) simp
  moreover have "0 < unat n" using assms(6) by (simp add: word_less_nat_alt)
  ultimately have "0 < ?e + n" by (simp only: word_less_nat_alt unat_0)
  then have "fst (krealloc K h p (?e + n)) \<noteq> NULL" for h p
    using u assms(7) by (intro serves_krealloc [OF assms(2)]) (simp add: drv_inv_pending [OF assms(3)])
  then show ?thesis
    using assms(4-7) drv_inv_blocks [OF assms(3)] serves_kmalloc [OF assms(2), of n "kmem s"]
      serves_copy_in [OF assms(2,5)] serves_down_write [OF assms(2)]
    by (simp add: write_served_def)
qed

lemma spec_write_pending: "length (pending (spec_write w d)) \<le> length (pending d) + length w"
  by (simp add: spec_write_def)

text \<open>One \<open>write\<close> call that the kernel serves takes all its bytes.\<close>

lemma dev_write_ok:
  assumes "alloc_laws K" "user_laws K" "lock_laws K" "kernel_serves K N" "drv_inv s"
    "lock (aesd_device s) = \<lparr>readers = 0, writer = False\<rparr>" "private_data f \<noteq> Null_Dev"
    "length (pending (drv_spec s)) + length w \<le> N"
  shows "\<exists>s1. aesd_write K f buf (of_nat (length w)) (f_pos f) (put_user buf w s) =
      Inr (int (length w), f_pos f, s1) \<and> drv_inv s1 \<and>
    same_rest (put_user buf w s) s1 \<and> drv_spec s1 = spec_write w (drv_spec s)"
proof (cases "w = []")
  case True
  with assms(5) show ?thesis by (simp add: aesd_write_def same_rest_def spec_write_def)
next
  case False
  let ?s = "put_user buf w s" and ?n = "of_nat (length w) :: size_t"
  have "length w \<le> 2 ^ 48" using assms(8) serves_bound [OF assms(1,4)] by simp
  then have n: "unat ?n = length w" by (simp add: unat_of_nat)
  with False have "0 < ?n" by (simp add: word_less_nat_alt)
  then have "write_served K buf ?n ?s"
    using assms(5,6,8) n mapped_write [of "usermem s" buf w]
    by (intro serves_write_served [OF assms(1,4)]) simp_all
  from aesd_write_completes [OF assms(1-3) _ assms(7) this, of w "f_pos f"] show ?thesis
    using assms(5) n umem_holds_write by simp
qed

lemma dev_write_all_ok:
  assumes "alloc_laws K" "user_laws K" "lock_laws K" "kernel_serves K N" "drv_inv s"
    "lock (aesd_device s) = \<lparr>readers = 0, writer = False\<rparr>" "private_data f \<noteq> Null_Dev"
    "length (pending (drv_spec s)) + length (concat ws) \<le> N"
  shows "\<exists>s'. dev_write_all K buf ws f s = Inr (f, s') \<and> drv_inv s' \<and>
    lock (aesd_device s') = lock (aesd_device s) \<and> drv_spec s' = fold spec_write ws (drv_spec s) \<and>
    (\<forall>a n. mapped (usermem s) a n \<longrightarrow> mapped (usermem s') a n)"
  using assms(5,6,8)
proof (induction ws arbitrary: s)
  case (Cons w ws)
  let ?s = "put_user buf w s" and ?n = "of_nat (length w) :: size_t"
  have "\<exists>s1. aesd_write K f buf ?n (f_pos f) ?s = Inr (int (length w), f_pos f, s1) \<and> drv_inv s1 \<and>
      same_rest ?s s1 \<and> drv_spec s1 = spec_write w (drv_spec s)"
    using Cons.prems by (intro dev_write_ok [OF assms(1-4) _ _ assms(7)]) simp_all
  then obtain s1 where s1: "aesd_write K f buf ?n (f_pos f) ?s = Inr (int (length w), f_pos f, s1)"
    "drv_inv s1" "same_rest ?s s1" "drv_spec s1 = spec_write w (drv_spec s)" by blast
  have "length (pending (drv_spec s1)) + length (concat ws) \<le> N"
    using Cons.prems(3) spec_write_pending [of w "drv_spec s"] by (simp add: s1(4))
  with Cons.IH [of s1] s1 Cons.prems(2) obtain s2 where
    "dev_write_all K buf ws f s1 = Inr (f, s2)" "drv_inv s2"
    "lock (aesd_device s2) = lock (aesd_device s1)" "drv_spec s2 = fold spec_write ws (drv_spec s1)"
    "\<forall>a n. mapped (usermem s1) a n \<longrightarrow> mapped (usermem s2) a n" by (auto simp: same_rest_def)
  then show ?case
    using s1 mapped_write_umem by (auto simp: same_rest_def)
qed simp

section \<open>A packet\<close>

lemma dev_ioctl_ok:
  assumes "user_laws K" "lock_laws K" "kernel_serves K N" "dev_ready lay fp s"
  shows "\<exists>f'. dev_ioctl_seekto K arg t (kfile_of fp) s = Inr (f', put_user arg (bytes_of_seekto t) s) \<and>
    private_data f' = private_data (kfile_of fp) \<and>
    stream_of (fp\<lparr>kfile_of := f'\<rparr>) = ioctl_seekto (drv_spec s) t (stream_of fp)"
proof -
  let ?s = "put_user arg (bytes_of_seekto t) s" and ?f = "kfile_of fp"
  let ?g = "global_pos (map length (commands (drv_spec s))) (unat (write_cmd t)) (unat (write_cmd_offset t))"
  have "mapped (usermem ?s) arg (unat (of_nat sizeof_seekto :: size_t))"
    using mapped_write [of "usermem s" arg "bytes_of_seekto t"]
    by (simp add: bytes_of_seekto_def sizeof_seekto_def)
  from serves_copy_in [OF assms(3) this] have "ioctl_served K arg ?s"
    using assms(4) serves_down_write [OF assms(3)] by (simp add: ioctl_served_def dev_ready_def)
  then have run: "aesd_ioctl K ?f AESDCHAR_IOCSEEKTO arg ?s = Inr (case ?g of
       None \<Rightarrow> (- EINVAL, ?f, ?s) | Some p \<Rightarrow> (0, ?f\<lparr>f_pos := of_nat p\<rparr>, ?s))"
    using aesd_ioctl_served [OF assms(1,2), of ?s ?f arg t] assms(4) umem_holds_write
    by (simp add: dev_ready_def)
  show ?thesis
  proof (cases ?g)
    case (Some p)
    have "drv_inv s" using assms(4) by (simp add: dev_ready_def)
    from drv_inv_commands(3) [OF this] have "p < 10 * 2 ^ 48"
      using global_pos_less [OF Some] by (simp add: spec_contents_def sum_list_map_length)
    then have "unat (of_nat p :: loff_t) = p" by (simp add: unat_of_nat)
    with Some run show ?thesis by (simp add: dev_ioctl_seekto_def ioctl_seekto_def stream_of_def)
  qed (use run in \<open>simp add: dev_ioctl_seekto_def ioctl_seekto_def\<close>)
qed

lemma dev_write_locked_ok:
  assumes "alloc_laws K" "user_laws K" "lock_laws K" "kernel_serves K N" "libc_laws L" "dev_ready lay fp s"
    "length (pending (drv_spec s)) + length pkt \<le> N" "packet_params pkt = (params, t)"
  shows "\<exists>fp' s'. dev_write_locked K L lay pkt fp s = Inr (fp', s') \<and> dev_ready lay fp' s' \<and>
    drv_spec s' = (if params = 2 then drv_spec s else fwrite_flush L pkt (drv_spec s)) \<and>
    stream_of fp' = (if params = 2 then ioctl_seekto (drv_spec s) t (stream_of fp) else stream_of fp)"
proof (cases "params = 2")
  case True
  from dev_ioctl_ok [OF assms(2-4,6), of "seek_arg lay" t] obtain f' where
    "dev_ioctl_seekto K (seek_arg lay) t (kfile_of fp) s = Inr (f', put_user (seek_arg lay) (bytes_of_seekto t) s)"
    "private_data f' = private_data (kfile_of fp)"
    "stream_of (fp\<lparr>kfile_of := f'\<rparr>) = ioctl_seekto (drv_spec s) t (stream_of fp)" by blast
  with True assms(6,8) show ?thesis
    by (auto simp: dev_write_locked_def dev_ready_def mapped_write_umem)
next
  case False
  have "concat (stdio_split L pkt) = pkt" using assms(5) by (simp add: libc_laws_def)
  with dev_write_all_ok [OF assms(1-4), of s "kfile_of fp" "stdio_split L pkt" "flat_buf lay"] assms(6,7)
  obtain s' where "dev_write_all K (flat_buf lay) (stdio_split L pkt) (kfile_of fp) s = Inr (kfile_of fp, s')"
    "drv_inv s'" "lock (aesd_device s') = lock (aesd_device s)"
    "drv_spec s' = fwrite_flush L pkt (drv_spec s)"
    "\<forall>a n. mapped (usermem s) a n \<longrightarrow> mapped (usermem s') a n"
    by (auto simp: dev_ready_def fwrite_flush_def)
  with False assms(6,8) show ?thesis by (auto simp: dev_write_locked_def dev_ready_def)
qed

lemma spec_write_total:
  "length (spec_contents (spec_write w d)) + length (pending (spec_write w d)) \<le>
   length (spec_contents d) + length (pending d) + length w"
  by (cases "commands d") (auto simp: spec_write_def spec_contents_def log_push_def)

lemma packet_spec_total:
  assumes "packet_spec p d f = (r, d', f')"
  shows "length (spec_contents d') + length (pending d') \<le> length (spec_contents d) + length (pending d) + length p"
  using assms spec_write_total [of p d] by (auto simp: packet_spec_def Let_def split: prod.splits if_splits)

lemma packet_spec_pending:
  assumes "packet_spec p d f = (r, d', f')" "is_line p"
  shows "length (pending d') \<le> length (pending d)"
  using assms by (auto simp: packet_spec_def Let_def spec_write_def is_line_def split: prod.splits if_splits)

lemma dev_packet_ok:
  assumes "alloc_laws K" "user_laws K" "lock_laws K" "kernel_serves K N" "libc_laws L" "dev_ready lay fp s"
    "is_line pkt" "length (pending (drv_spec s)) + length pkt \<le> N"
    "length (spec_contents (drv_spec s)) + length (pending (drv_spec s)) + length pkt < m"
  shows "\<exists>bufs fp' s'. dev_packet K L lay m pkt fp s = Inr (bufs, fp', s') \<and> dev_ready lay fp' s' \<and>
    packet_spec pkt (drv_spec s) (stream_of fp) = (concat bufs, drv_spec s', stream_of fp')"
proof -
  obtain params t where pp: "packet_params pkt = (params, t)" by force
  from dev_write_locked_ok [OF assms(1-6,8) pp] obtain fp1 s1 where
    w: "dev_write_locked K L lay pkt fp s = Inr (fp1, s1)" "dev_ready lay fp1 s1"
    "drv_spec s1 = (if params = 2 then drv_spec s else spec_write pkt (drv_spec s))"
    "stream_of fp1 = (if params = 2 then ioctl_seekto (drv_spec s) t (stream_of fp) else stream_of fp)"
    using fwrite_flush_is_line [OF assms(5,7)] by auto
  have "length (spec_contents (drv_spec s1)) < m"
    using w(3) assms(9) spec_write_total [of pkt "drv_spec s"] by (auto split: if_splits)
  then have "length (spec_contents (drv_spec s1)) - file_pos (stream_of fp1) < m" by simp
  from dev_reply_loop_ok [OF assms(2-4) w(2) this, of "[]"] obtain bufs fp2 s2 where
    r: "dev_reply_loop K (reply_buf lay) m fp1 s1 [] = Inr (bufs, fp2, s2)"
    "reply_loop (drv_spec s1) (stream_of fp1) [] = (bufs, stream_of fp2)"
    "dev_ready lay fp2 s2" "drv_spec s2 = drv_spec s1" by blast
  have "packet_spec pkt (drv_spec s) (stream_of fp) = (concat bufs, drv_spec s2, stream_of fp2)"
    using r(2) reply_loop_eof [of "stream_of fp1" "drv_spec s1" "[]"]
      reply_loop_eq [of "stream_of fp1" "drv_spec s1" "[]"]
    by (cases "file_eof (stream_of fp1)") (auto simp: packet_spec_def pp r(4) w(3,4) Let_def)
  with w(1) r(1,3) show ?thesis by (simp add: dev_packet_def)
qed

section \<open>A session\<close>

lemma serve_out: "serve ps (out @ r, d, f) = (out @ fst (serve ps (r, d, f)), snd (serve ps (r, d, f)))"
proof (induction ps arbitrary: r d f)
  case (Cons p ps)
  obtain r1 d1 f1 where "packet_spec p d f = (r1, d1, f1)" by (cases "packet_spec p d f")
  with Cons [of "r @ r1" d1 f1] show ?case by simp
qed simp

lemma dev_session_ok:
  assumes "alloc_laws K" "user_laws K" "lock_laws K" "kernel_serves K N" "libc_laws L" "dev_ready lay fp s"
    "\<And>p. p \<in> set ps \<Longrightarrow> is_line p \<and> length (pending (drv_spec s)) + length p \<le> N"
    "length (spec_contents (drv_spec s)) + length (pending (drv_spec s)) + length (concat ps) < m"
  shows "\<exists>out fp' s'. dev_session K L lay m ps fp s = Inr (out, fp', s') \<and> dev_ready lay fp' s' \<and>
    serve ps ([], drv_spec s, stream_of fp) = (out, drv_spec s', stream_of fp')"
  using assms(6-8)
proof (induction ps arbitrary: fp s)
  case (Cons p ps)
  have p: "is_line p" "length (pending (drv_spec s)) + length p \<le> N" using Cons.prems(2) by simp_all
  have "length (spec_contents (drv_spec s)) + length (pending (drv_spec s)) + length p < m"
    using Cons.prems(3) by simp
  from dev_packet_ok [OF assms(1-5) Cons.prems(1) p this] obtain bufs fp1 s1 where
    r: "dev_packet K L lay m p fp s = Inr (bufs, fp1, s1)" "dev_ready lay fp1 s1"
    "packet_spec p (drv_spec s) (stream_of fp) = (concat bufs, drv_spec s1, stream_of fp1)" by blast
  note pend = packet_spec_pending [OF r(3) p(1)] and total = packet_spec_total [OF r(3)]
  have "is_line q \<and> length (pending (drv_spec s1)) + length q \<le> N" if "q \<in> set ps" for q
    using that Cons.prems(2) [of q] pend by simp
  moreover have "length (spec_contents (drv_spec s1)) + length (pending (drv_spec s1)) + length (concat ps) < m"
    using Cons.prems(3) total by simp
  ultimately obtain out fp2 s2 where
    "dev_session K L lay m ps fp1 s1 = Inr (out, fp2, s2)" "dev_ready lay fp2 s2"
    "serve ps ([], drv_spec s1, stream_of fp1) = (out, drv_spec s2, stream_of fp2)"
    using Cons.IH [OF r(2)] by blast
  then show ?case
    using r serve_out [of ps "concat bufs" "[]" "drv_spec s1" "stream_of fp1"] by simp
qed simp

lemma lines_of_lines: "p \<in> set (fst (lines_of s)) \<Longrightarrow> is_line p"
proof (induction s rule: lines_of.induct)
  case (1 s)
  show ?case
  proof (cases "memchr_nl s")
    case None
    with "1.prems" show ?thesis by (simp add: lines_of_None)
  next
    case (Some i)
    obtain ls r where l: "lines_of (drop (Suc i) s) = (ls, r)" by force
    with lines_of_Some [OF Some l] "1.prems" consider "p = take (Suc i) s" | "p \<in> set ls" by auto
    then show ?thesis
    proof cases
      case 1
      with memchr_nl_Some [OF Some] show ?thesis
        by (simp add: is_line_def take_Suc_conv_app_nth)
    qed (use "1.IH" Some l in simp)
  qed
qed

lemma lines_of_concat: "s = concat (fst (lines_of s)) @ snd (lines_of s)"
proof (induction s rule: lines_of.induct)
  case (1 s)
  show ?case
  proof (cases "memchr_nl s")
    case (Some i)
    obtain ls r where l: "lines_of (drop (Suc i) s) = (ls, r)" by force
    with "1.IH" [OF Some] lines_of_Some [OF Some l] show ?thesis
      using append_take_drop_id [of "Suc i" s] by simp
  qed (simp add: lines_of_None)
qed

section \<open>A concrete device\<close>

definition dev_example :: kstate where
  "dev_example = example_state\<lparr>usermem := \<lambda>a. Some 0\<rparr>"

definition dev_example_file :: dev_file where
  "dev_example_file = \<lparr>kfile_of = example_file, at_eof = False\<rparr>"

definition dev_example_layout :: layout where
  "dev_example_layout = \<lparr>reply_buf = 0, flat_buf = 5000, seek_arg = 6000\<rparr>"

lemma demo_find_addr:
  assumes "finite (dom h)" "card (dom h) \<le> 11"
  shows "List.find (\<lambda>p. h p = None) demo_addrs \<noteq> None"
proof
  assume "List.find (\<lambda>p. h p = None) demo_addrs = None"
  then have "set demo_addrs \<subseteq> dom h" by (auto simp: find_None_iff)
  from card_mono [OF assms(1) this] assms(2) show False by (simp add: demo_addrs_def)
qed

lemma demo_kernel_serves: "kernel_serves demo_kernel 4096"
  unfolding kernel_serves_def
proof (intro conjI allI impI, goal_cases)
  case (6 h n)
  then show ?case using demo_find_addr [of h] by (auto simp: demo_kernel_def demo_kmalloc_def)
next
  case (7 h p n)
  then show ?case by (simp add: demo_kernel_def demo_krealloc_def split: option.split)
qed (simp_all add: demo_kernel_def mapped_def)

lemma dev_example_ready: "dev_ready dev_example_layout dev_example_file dev_example"
  using example_state_inv
  by (simp add: dev_ready_def dev_example_def dev_example_file_def example_state_sel drv_inv_def mapped_def)

lemma dev_example_spec:
  "drv_spec dev_example = \<lparr>commands = [[104, 10]], pending = [97]\<rparr>"
  "stream_of dev_example_file = \<lparr>file_pos = 0, file_eof = False\<rparr>"
  by (simp_all add: dev_example_def example_state_spec dev_example_file_def stream_of_def example_state_sel)

section \<open>Properties\<close>

text \<open>
  C18: Handling one packet on the driver implements the specification of the
  server. The write or the seek and the reply, run as \<open>aesd_write\<close>, \<open>aesd_ioctl\<close> and
  \<open>aesd_read\<close> calls with all bytes going through user memory, end (the reply loop after at most
  as many rounds as there are bytes stored), keep the driver's invariant and its lock free, send
  the bytes \<open>packet_spec\<close> prescribes, and leave the device and the open file as it says, however
  \<open>stdio\<close> cuts the line into calls.
\<close>

theorem device_packet_refines:
  assumes "kernel_laws K" "kernel_serves K N" "libc_laws L" "dev_ready lay fp s"
    and "is_line pkt" "length (pending (drv_spec s)) + length pkt \<le> N"
    and "length (spec_contents (drv_spec s)) + length (pending (drv_spec s)) + length pkt < m"
  shows "\<exists>bufs fp' s'. dev_packet K L lay m pkt fp s = Inr (bufs, fp', s') \<and> dev_ready lay fp' s' \<and>
    packet_spec pkt (drv_spec s) (stream_of fp) = (concat bufs, drv_spec s', stream_of fp')"
  using dev_packet_ok [OF kernel_lawsD(1-3) [OF assms(1)] assms(2-7)] .

theorem device_packet_refines_witness:
  "\<exists>bufs fp' s'. dev_packet demo_kernel demo_libc dev_example_layout 9 [98, 10] dev_example_file dev_example =
      Inr (bufs, fp', s') \<and> concat bufs = [104, 10, 97, 98, 10] \<and>
    drv_spec s' = \<lparr>commands = [[104, 10], [97, 98, 10]], pending = []\<rparr>"
proof -
  have p: "packet_params [98, 10] = (0, \<lparr>write_cmd = 0, write_cmd_offset = 0\<rparr>)"
    by (simp add: packet_params_def sscanf_seekto_def seekto_prefix_def Let_def)
  have "is_line [98, 10]" by (simp add: is_line_def)
  from device_packet_refines [OF demo_kernel_laws demo_kernel_serves demo_libc_laws dev_example_ready this, of 9]
  show ?thesis
    by (auto simp: dev_example_spec packet_spec_def p Let_def spec_write_def log_push_def spec_contents_def)
qed

text \<open>
  C4: The server on the driver. Take a connection thread whose data file is an
  open file of the loaded driver, and any byte stream, cut into chunks in any way, whose lines fit
  the kernel's allocator. The thread ends without a fault, and running the same lines through the
  driver's handlers ends too: the bytes the thread has sent are the bytes the driver delivered, and
  the device and the file the thread sees are those of the driver, whose invariant still holds.
\<close>

theorem client_over_driver:
  assumes "kernel_laws K" "kernel_serves K N" "libc_laws L" "libc_serves L"
    and "conn_start \<sigma>" "chunks_ok cs" "length cs < n"
    and "dev_ready lay fp s" "dev \<sigma> = drv_spec s" "cfile (client \<sigma>) = Some (stream_of fp)"
    and "length (pending (drv_spec s)) + length (concat cs) \<le> N"
    and "length (spec_contents (drv_spec s)) + N < m"
  shows "\<exists>\<sigma>' out fp' s'. process_client_thread L n cs (Some a) \<sigma> = Inr (Some a, \<sigma>') \<and>
    dev_session K L lay m (fst (lines_of (concat cs))) fp s = Inr (out, fp', s') \<and>
    concat (sent \<sigma>') = concat (sent \<sigma>) @ out \<and> dev \<sigma>' = drv_spec s' \<and>
    cfile (client \<sigma>') = Some (stream_of fp') \<and> dev_ready lay fp' s'"
proof -
  let ?ls = "fst (lines_of (concat cs))"
  obtain s1 where c: "process_client L n cs \<sigma> = Inr s1" "same_thread \<sigma> s1"
    "conn_of s1 = serve ?ls (conn_of \<sigma>)" using process_client_start [OF assms(3-7)] by metis
  have len: "length (concat ?ls) \<le> length (concat cs)"
    using arg_cong [OF lines_of_concat [of "concat cs"], of length] by simp
  have "length p \<le> length (concat ?ls)" if "p \<in> set ?ls" for p
    using that by (auto simp: length_concat intro: member_le_sum_list)
  then have "is_line p \<and> length (pending (drv_spec s)) + length p \<le> N" if "p \<in> set ?ls" for p
    using that lines_of_lines [OF that] len assms(11) by fastforce
  moreover have "length (spec_contents (drv_spec s)) + length (pending (drv_spec s)) + length (concat ?ls) < m"
    using len assms(11,12) by simp
  ultimately obtain out fp' s' where d: "dev_session K L lay m ?ls fp s = Inr (out, fp', s')"
    "dev_ready lay fp' s'" "serve ?ls ([], drv_spec s, stream_of fp) = (out, drv_spec s', stream_of fp')"
    using dev_session_ok [OF kernel_lawsD(1-3) [OF assms(1)] assms(2,3,8)] by blast
  have "serve ?ls (conn_of \<sigma>) = (concat (sent \<sigma>) @ out, drv_spec s', stream_of fp')"
    using serve_out [of ?ls "concat (sent \<sigma>)" "[]" "drv_spec s" "stream_of fp"] d(3) assms(9,10)
    by (simp add: conn_of_def)
  moreover have "cfile (client s1) \<noteq> NULL"
    using c(2) assms(10) by (simp add: same_thread_def)
  ultimately show ?thesis
    using c d(1,2) by (auto simp: process_client_thread_def same_thread_def conn_of_def)
qed

theorem client_over_driver_witness:
  "\<exists>\<sigma>' out fp' s'.
     process_client_thread demo_libc 3 [[98], [10]] (Some 1)
       (example_conn\<lparr>dev := \<lparr>commands = [[104, 10]], pending = [97]\<rparr>\<rparr>) = Inr (Some 1, \<sigma>') \<and>
     dev_session demo_kernel demo_libc dev_example_layout 5000 [[98, 10]] dev_example_file dev_example =
       Inr (out, fp', s') \<and> concat (sent \<sigma>') = out \<and> dev \<sigma>' = drv_spec s' \<and> drv_inv s'"
proof -
  let ?c = "example_conn\<lparr>dev := \<lparr>commands = [[104, 10]], pending = [97]\<rparr>\<rparr>"
  let ?cs = "[[98], [10]] :: byte list list"
  have l: "fst (lines_of (concat ?cs)) = [[98, 10]]" by (simp add: lines_of.simps)
  have "conn_start ?c" "chunks_ok ?cs" "dev ?c = drv_spec dev_example"
    "cfile (client ?c) = Some (stream_of dev_example_file)" "sent ?c = []"
    by (simp_all add: conn_start_def example_conn_def chunks_ok_def BUFFER_SIZE_def dev_example_spec)
  with client_over_driver [OF demo_kernel_laws demo_kernel_serves demo_libc_laws demo_libc_serves,
      of ?c ?cs 3 dev_example_layout dev_example_file dev_example 5000 1] dev_example_ready
  show ?thesis unfolding l by (auto simp: dev_example_spec spec_contents_def dev_ready_def)
qed

end
