(* ===== verification/Client_Concurrency.thy ===== *)
theory Client_Concurrency
  imports Client_Spec
begin

text \<open>
  Several connections at once. What the threads share is the device and the reader/writer lock
  of \<open>struct shared_info\<close>; collecting a packet concerns a thread alone, so a thread is given by
  the packets it has still to handle. The steps are the accesses to the lock and the system
  calls between them, as \<open>write_new_packet\<close> and \<open>reply_to_client\<close> make them: a packet may take
  several \<open>write\<close> calls and a reply several \<open>fread\<close>s, and the threads interleave in any way the
  lock allows.
\<close>

section \<open>States and steps\<close>

text \<open>Where a thread is: the next action, with what it still needs.\<close>

datatype phase =
    Idle                                  \<comment> \<open>before \<open>pthread_rwlock_wrlock\<close>\<close>
  | Locked "byte list"                    \<comment> \<open>holds the write lock for this packet\<close>
  | Writing "byte list" "byte list list"  \<comment> \<open>the packet and the \<open>write\<close> calls still to make\<close>
  | Stored "byte list"                    \<comment> \<open>before the unlock\<close>
  | Answering                             \<comment> \<open>before \<open>pthread_rwlock_rdlock\<close>\<close>
  | Reading stream "byte list"            \<comment> \<open>in the loop; file and replies when it began\<close>
  | Answered stream "byte list"           \<comment> \<open>before the unlock\<close>

record conn_thread =
  todo :: "byte list list"
  phase :: phase
  cstream :: stream
  replied :: "byte list"

record conns =
  shared_dev :: dev_spec
  lock_writer :: "nat option"
  lock_readers :: "nat set"
  thr :: "nat \<rightharpoonup> conn_thread"
  committed :: "(nat \<times> byte list) list"   \<comment> \<open>packets in the order of their unlocks\<close>

definition upd :: "nat \<Rightarrow> conn_thread \<Rightarrow> conns \<Rightarrow> conns" where
  "upd i t c = c\<lparr>thr := (thr c)(i \<mapsto> t)\<rparr>"

inductive conn_step :: "libc \<Rightarrow> conns \<Rightarrow> conns \<Rightarrow> bool" for L where
  wrlock: "thr c i = Some t \<Longrightarrow> phase t = Idle \<Longrightarrow> todo t = p # ps \<Longrightarrow>
    lock_writer c = None \<Longrightarrow> lock_readers c = {} \<Longrightarrow>
    conn_step L c (upd i (t\<lparr>todo := ps, phase := Locked p\<rparr>) (c\<lparr>lock_writer := Some i\<rparr>))"
| seek: "thr c i = Some t \<Longrightarrow> phase t = Locked p \<Longrightarrow> packet_params p = (2, s) \<Longrightarrow>
    conn_step L c (upd i (t\<lparr>phase := Stored p, cstream := ioctl_seekto (shared_dev c) s (cstream t)\<rparr>) c)"
| fwrite: "thr c i = Some t \<Longrightarrow> phase t = Locked p \<Longrightarrow> fst (packet_params p) \<noteq> 2 \<Longrightarrow>
    conn_step L c (upd i (t\<lparr>phase := Writing p (stdio_split L p)\<rparr>) c)"
| sys_write: "thr c i = Some t \<Longrightarrow> phase t = Writing p (b # bs) \<Longrightarrow>
    conn_step L c (upd i (t\<lparr>phase := Writing p bs\<rparr>) (c\<lparr>shared_dev := spec_write b (shared_dev c)\<rparr>))"
| fflush: "thr c i = Some t \<Longrightarrow> phase t = Writing p [] \<Longrightarrow>
    conn_step L c (upd i (t\<lparr>phase := Stored p\<rparr>) c)"
| wrunlock: "thr c i = Some t \<Longrightarrow> phase t = Stored p \<Longrightarrow>
    conn_step L c (upd i (t\<lparr>phase := Answering\<rparr>)
      (c\<lparr>lock_writer := None, committed := committed c @ [(i, p)]\<rparr>))"
| rdlock: "thr c i = Some t \<Longrightarrow> phase t = Answering \<Longrightarrow> lock_writer c = None \<Longrightarrow>
    conn_step L c (upd i (t\<lparr>phase := Reading (cstream t) (replied t)\<rparr>)
      (c\<lparr>lock_readers := insert i (lock_readers c)\<rparr>))"
| fread_send: "thr c i = Some t \<Longrightarrow> phase t = Reading f0 r0 \<Longrightarrow>
    fread (shared_dev c) BUFFER_SIZE (cstream t) = (bs, f) \<Longrightarrow> bs \<noteq> [] \<Longrightarrow>
    conn_step L c (upd i (t\<lparr>cstream := f, replied := replied t @ bs\<rparr>) c)"
| fread_end: "thr c i = Some t \<Longrightarrow> phase t = Reading f0 r0 \<Longrightarrow>
    fread (shared_dev c) BUFFER_SIZE (cstream t) = ([], f) \<Longrightarrow>
    conn_step L c (upd i (t\<lparr>cstream := f, phase := Answered f0 r0\<rparr>) c)"
| rdunlock: "thr c i = Some t \<Longrightarrow> phase t = Answered f0 r0 \<Longrightarrow>
    conn_step L c (upd i (t\<lparr>phase := Idle\<rparr>) (c\<lparr>lock_readers := lock_readers c - {i}\<rparr>))"

text \<open>The start: no thread has begun, the lock is free.\<close>

definition conns_start :: "dev_spec \<Rightarrow> (nat \<rightharpoonup> byte list list) \<Rightarrow> conns" where
  "conns_start d P =
     \<lparr>shared_dev = d, lock_writer = None, lock_readers = {},
      thr = (\<lambda>i. map_option (\<lambda>ps. \<lparr>todo = ps, phase = Idle,
        cstream = \<lparr>file_pos = 0, file_eof = False\<rparr>, replied = []\<rparr>) (P i)),
      committed = []\<rparr>"

section \<open>Invariant\<close>

text \<open>The packets in the order of the lock, as the sequential specification stores them.\<close>

definition serial :: "dev_spec \<Rightarrow> (nat \<times> byte list) list \<Rightarrow> dev_spec" where
  "serial d h = fold (\<lambda>(i, p). store_packet p) h d"

text \<open>The packet a thread has taken up and not committed.\<close>

fun in_hand :: "phase \<Rightarrow> byte list list" where
  "in_hand (Locked p) = [p]" | "in_hand (Writing p bs) = [p]" | "in_hand (Stored p) = [p]"
| "in_hand ph = []"

fun wants_read :: "phase \<Rightarrow> bool" where
  "wants_read (Reading f r) \<longleftrightarrow> True" | "wants_read (Answered f r) \<longleftrightarrow> True" | "wants_read ph \<longleftrightarrow> False"

fun after_store :: "phase \<Rightarrow> bool" where
  "after_store Answering \<longleftrightarrow> True" | "after_store ph \<longleftrightarrow> wants_read ph"

text \<open>What the device is when thread \<open>i\<close> is in the given phase and \<open>base\<close> is committed.\<close>

fun phase_dev :: "libc \<Rightarrow> dev_spec \<Rightarrow> phase \<Rightarrow> dev_spec \<Rightarrow> bool" where
  "phase_dev L base (Locked p) d \<longleftrightarrow> d = base"
| "phase_dev L base (Writing p bs) d \<longleftrightarrow> fst (packet_params p) \<noteq> 2 \<and>
     (\<exists>as. stdio_split L p = as @ bs \<and> d = fold spec_write as base)"
| "phase_dev L base (Stored p) d \<longleftrightarrow> d = store_packet p base"
| "phase_dev L base ph d \<longleftrightarrow> True"

text \<open>The reply of a thread to one packet, once the device is fixed.\<close>

definition snapshot :: "stream \<Rightarrow> dev_spec \<Rightarrow> byte list" where
  "snapshot f d = concat (fst (reply_loop d f []))"

fun phase_reply :: "dev_spec \<Rightarrow> conn_thread \<Rightarrow> phase \<Rightarrow> bool" where
  "phase_reply d t (Reading f0 r0) \<longleftrightarrow> replied t @ snapshot (cstream t) d = r0 @ snapshot f0 d"
| "phase_reply d t (Answered f0 r0) \<longleftrightarrow> replied t = r0 @ snapshot f0 d"
| "phase_reply d t ph \<longleftrightarrow> True"

definition handled :: "nat \<Rightarrow> (nat \<times> byte list) list \<Rightarrow> byte list list" where
  "handled i h = map snd (filter (\<lambda>(j, _). j = i) h)"

definition thread_inv :: "libc \<Rightarrow> dev_spec \<Rightarrow> byte list list option \<Rightarrow> conns \<Rightarrow> nat \<Rightarrow> conn_thread \<Rightarrow> bool" where
  "thread_inv L d0 ps c i t \<longleftrightarrow>
     ps = Some (handled i (committed c) @ in_hand (phase t) @ todo t) \<and>
     (in_hand (phase t) \<noteq> [] \<longleftrightarrow> lock_writer c = Some i) \<and>
     (wants_read (phase t) \<longleftrightarrow> i \<in> lock_readers c) \<and>
     phase_dev L (serial d0 (committed c)) (phase t) (shared_dev c) \<and>
     phase_reply (shared_dev c) t (phase t) \<and>
     (after_store (phase t) \<longrightarrow> handled i (committed c) \<noteq> [])"

definition conn_inv :: "libc \<Rightarrow> dev_spec \<Rightarrow> (nat \<rightharpoonup> byte list list) \<Rightarrow> conns \<Rightarrow> bool" where
  "conn_inv L d0 P c \<longleftrightarrow>
     dom (thr c) = dom P \<and> (\<forall>i t. thr c i = Some t \<longrightarrow> thread_inv L d0 (P i) c i t) \<and>
     (lock_writer c \<noteq> None \<longrightarrow> lock_readers c = {}) \<and>
     (lock_writer c = None \<longrightarrow> shared_dev c = serial d0 (committed c)) \<and>
     set_option (lock_writer c) \<union> lock_readers c \<subseteq> dom (thr c)"

lemma conn_invD:
  assumes "conn_inv L d0 P c"
  shows "dom (thr c) = dom P" "\<And>i t. thr c i = Some t \<Longrightarrow> thread_inv L d0 (P i) c i t"
    "lock_writer c \<noteq> None \<Longrightarrow> lock_readers c = {}"
    "lock_writer c = None \<Longrightarrow> shared_dev c = serial d0 (committed c)"
    "set_option (lock_writer c) \<union> lock_readers c \<subseteq> dom (thr c)"
  using assms unfolding conn_inv_def by blast+

lemma phase_dev_none: "in_hand ph = [] \<Longrightarrow> phase_dev L base ph d"
  by (cases ph) simp_all

lemma phase_reply_none: "\<not> wants_read ph \<Longrightarrow> phase_reply d t ph"
  by (cases ph) simp_all

lemma handled_snoc: "handled j (h @ [(i, p)]) = handled j h @ (if j = i then [p] else [])"
  by (simp add: handled_def)

lemma serial_snoc: "serial d (h @ [(i, p)]) = store_packet p (serial d h)"
  by (simp add: serial_def)

text \<open>
  The frame of all steps: thread \<open>i\<close> moves; the device and the list of committed packets change
  only under its write lock.
\<close>

lemma conn_inv_move:
  assumes inv: "conn_inv L d0 P c" and t: "thr c i = Some t"
    and w: "\<And>j. j \<noteq> i \<Longrightarrow> w' = Some j \<longleftrightarrow> lock_writer c = Some j"
    and r: "\<And>j. j \<noteq> i \<Longrightarrow> j \<in> r' \<longleftrightarrow> j \<in> lock_readers c"
    and h: "h' = committed c \<or> lock_writer c = Some i \<and> (\<exists>p. h' = committed c @ [(i, p)])"
    and d: "d' = shared_dev c \<or> lock_writer c = Some i"
    and c': "c' = \<lparr>shared_dev = d', lock_writer = w', lock_readers = r', thr = (thr c)(i \<mapsto> t'), committed = h'\<rparr>"
    and own: "thread_inv L d0 (P i) c' i t'"
    and g: "w' \<noteq> None \<Longrightarrow> r' = {}" "w' = None \<Longrightarrow> d' = serial d0 h'"
  shows "conn_inv L d0 P c'"
proof -
  note v = conn_invD [OF inv]
  have other: "thread_inv L d0 (P j) c' j u" if j: "j \<noteq> i" and u: "thr c j = Some u" for j u
  proof -
    note k = v(2) [OF u, unfolded thread_inv_def]
    have hj: "handled j h' = handled j (committed c)" using h j by (auto simp: handled_snoc)
    have "phase_dev L (serial d0 h') (phase u) d' \<and> phase_reply d' u (phase u)"
    proof (cases "lock_writer c = Some i")
      case True
      then have "in_hand (phase u) = []" "\<not> wants_read (phase u)" using k j v(3) by auto
      then show ?thesis by (simp add: phase_dev_none phase_reply_none)
    next
      case False
      then have "h' = committed c" "d' = shared_dev c" using h d by auto
      then show ?thesis using k by simp
    qed
    then show ?thesis using k w [OF j] r [OF j] by (simp add: thread_inv_def c' hj)
  qed
  have "set_option w' \<union> r' \<subseteq> dom (thr c')"
  proof
    fix j assume "j \<in> set_option w' \<union> r'"
    then show "j \<in> dom (thr c')" using v(5) w [of j] r [of j] by (cases "j = i") (auto simp: c')
  qed
  moreover have "dom (thr c') = dom P" using v(1) t by (auto simp: c')
  ultimately show ?thesis
    unfolding conn_inv_def using own other g by (auto simp: c' split: if_splits)
qed

section \<open>Steps keep the invariant\<close>

lemma snapshot_eq: "snapshot f d = (if file_eof f then [] else drop (file_pos f) (spec_contents d))"
  using reply_loop_eq [of f d "[]"] by (auto simp: snapshot_def reply_loop_eof)

lemma snapshot_fread:
  assumes "fread d BUFFER_SIZE f = (bs, f')"
  shows "snapshot f d = bs @ snapshot f' d \<and> (bs = [] \<longrightarrow> snapshot f d = [])"
proof (cases "file_eof f")
  case True
  with assms show ?thesis by (auto simp: fread_def snapshot_eq)
next
  case False
  let ?C = "spec_contents d"
  have b: "bs = take BUFFER_SIZE (drop (file_pos f) ?C)"
    "f' = \<lparr>file_pos = file_pos f + length bs, file_eof = length bs < BUFFER_SIZE\<rparr>"
    using assms False by (auto simp: fread_def read_full_eq Let_def)
  have "bs = drop (file_pos f) ?C" if "length bs < BUFFER_SIZE" using that by (auto simp: b(1))
  moreover have "drop (file_pos f) ?C = bs @ drop (file_pos f + length bs) ?C" if "\<not> length bs < BUFFER_SIZE"
    using that by (simp add: b(1) add.commute append_take_drop_id flip: drop_drop)
  moreover have "drop (file_pos f) ?C = []" if "bs = []" using that by (simp add: b(1) BUFFER_SIZE_def)
  ultimately show ?thesis using False by (auto simp: snapshot_eq b(2))
qed

lemma stdio_line: "libc_laws L \<Longrightarrow> is_line p \<Longrightarrow> fold spec_write (stdio_split L p) d = spec_write p d"
  using fwrite_flush_is_line [of L p d] by (simp add: fwrite_flush_def)

lemma upd_eq:
  "upd i t c = \<lparr>shared_dev = shared_dev c, lock_writer = lock_writer c, lock_readers = lock_readers c,
     thr = (thr c)(i \<mapsto> t), committed = committed c\<rparr>"
  by (cases c) (simp add: upd_def)

text \<open>The steps that leave lock, device and list alone.\<close>

lemma conn_inv_local:
  assumes inv: "conn_inv L d0 P c" and t: "thr c i = Some t"
    and "thread_inv L d0 (P i) (upd i t' c) i t'"
  shows "conn_inv L d0 P (upd i t' c)"
  by (rule conn_inv_move [OF inv t _ _ _ _ upd_eq assms(3)])
    (use conn_invD(3,4) [OF inv] in simp_all)

lemma conn_step_inv:
  assumes "conn_step L c c'" "libc_laws L" "\<forall>ps \<in> ran P. \<forall>p \<in> set ps. is_line p" "conn_inv L d0 P c"
  shows "conn_inv L d0 P c'"
  using assms(1)
proof cases
  case (wrlock i t p ps)
  note v = conn_invD(2) [OF assms(4) wrlock(2), unfolded thread_inv_def]
  have "shared_dev c = serial d0 (committed c)" using conn_invD(4) [OF assms(4) wrlock(5)] .
  then show ?thesis
    unfolding wrlock(1)
    by (intro conn_inv_move [OF assms(4) wrlock(2), where w' = "Some i" and r' = "lock_readers c"
          and d' = "shared_dev c" and h' = "committed c" and t' = "t\<lparr>todo := ps, phase := Locked p\<rparr>"])
      (use v wrlock(3-6) in \<open>auto simp: thread_inv_def upd_eq\<close>)
next
  case (seek i t p s)
  note v = conn_invD(2) [OF assms(4) seek(2), unfolded thread_inv_def]
  show ?thesis
    unfolding seek(1)
    by (rule conn_inv_local [OF assms(4) seek(2)])
      (use v seek(3,4) in \<open>simp add: thread_inv_def upd_eq store_packet_def\<close>)
next
  case (fwrite i t p)
  note v = conn_invD(2) [OF assms(4) fwrite(2), unfolded thread_inv_def]
  show ?thesis
    unfolding fwrite(1)
    by (rule conn_inv_local [OF assms(4) fwrite(2)])
      (use v fwrite(3,4) in \<open>simp add: thread_inv_def upd_eq\<close>)
next
  case (sys_write i t p b bs)
  note v = conn_invD(2) [OF assms(4) sys_write(2), unfolded thread_inv_def]
  let ?d = "spec_write b (shared_dev c)"
  obtain as where as: "stdio_split L p = as @ b # bs" "shared_dev c = fold spec_write as (serial d0 (committed c))"
    using v sys_write(3) by auto
  then have "stdio_split L p = (as @ [b]) @ bs" "?d = fold spec_write (as @ [b]) (serial d0 (committed c))"
    by simp_all
  then have "\<exists>as. stdio_split L p = as @ bs \<and> ?d = fold spec_write as (serial d0 (committed c))" by blast
  then show ?thesis
    unfolding sys_write(1)
    by (intro conn_inv_move [OF assms(4) sys_write(2), where w' = "lock_writer c" and r' = "lock_readers c"
          and d' = "spec_write b (shared_dev c)" and h' = "committed c" and t' = "t\<lparr>phase := Writing p bs\<rparr>"])
      (use v sys_write(3) conn_invD(3) [OF assms(4)] in \<open>auto simp: thread_inv_def upd_eq\<close>)
next
  case (fflush i t p)
  note v = conn_invD(2) [OF assms(4) fflush(2), unfolded thread_inv_def]
  have "is_line p" using v fflush(3) assms(3) by (auto simp: ran_def)
  then have "shared_dev c = store_packet p (serial d0 (committed c))"
    using v fflush(3) stdio_line [OF assms(2)] by (auto simp: store_packet_def)
  then show ?thesis
    unfolding fflush(1)
    by (intro conn_inv_local [OF assms(4) fflush(2)])
      (use v fflush(3) in \<open>simp add: thread_inv_def upd_eq\<close>)
next
  case (wrunlock i t p)
  note v = conn_invD(2) [OF assms(4) wrunlock(2), unfolded thread_inv_def]
  show ?thesis
    unfolding wrunlock(1)
    by (intro conn_inv_move [OF assms(4) wrunlock(2), where w' = "None" and r' = "lock_readers c"
          and d' = "shared_dev c" and h' = "committed c @ [(i, p)]" and t' = "t\<lparr>phase := Answering\<rparr>"])
      (use v wrunlock(3) conn_invD(3) [OF assms(4)] in
        \<open>auto simp: thread_inv_def upd_eq handled_snoc serial_snoc\<close>)
next
  case (rdlock i t)
  note v = conn_invD(2) [OF assms(4) rdlock(2), unfolded thread_inv_def]
  show ?thesis
    unfolding rdlock(1)
    by (intro conn_inv_move [OF assms(4) rdlock(2), where w' = "lock_writer c" and r' = "insert i (lock_readers c)"
          and d' = "shared_dev c" and h' = "committed c" and t' = "t\<lparr>phase := Reading (cstream t) (replied t)\<rparr>"])
      (use v rdlock(3,4) conn_invD(4) [OF assms(4)] in \<open>auto simp: thread_inv_def upd_eq\<close>)
next
  case (fread_send i t f0 r0 bs f)
  note v = conn_invD(2) [OF assms(4) fread_send(2), unfolded thread_inv_def]
  show ?thesis
    unfolding fread_send(1)
    by (rule conn_inv_local [OF assms(4) fread_send(2)])
      (use v fread_send(3) snapshot_fread [OF fread_send(4)] in \<open>simp add: thread_inv_def upd_eq\<close>)
next
  case (fread_end i t f0 r0 f)
  note v = conn_invD(2) [OF assms(4) fread_end(2), unfolded thread_inv_def]
  have e: "snapshot (cstream t) (shared_dev c) = []" using snapshot_fread [OF fread_end(4)] by blast
  show ?thesis
    unfolding fread_end(1)
    by (rule conn_inv_local [OF assms(4) fread_end(2)])
      (use v fread_end(3) in \<open>simp add: thread_inv_def upd_eq e\<close>)
next
  case (rdunlock i t f0 r0)
  note v = conn_invD(2) [OF assms(4) rdunlock(2), unfolded thread_inv_def]
  show ?thesis
    unfolding rdunlock(1)
    by (intro conn_inv_move [OF assms(4) rdunlock(2), where w' = "lock_writer c" and r' = "lock_readers c - {i}"
          and d' = "shared_dev c" and h' = "committed c" and t' = "t\<lparr>phase := Idle\<rparr>"])
      (use v rdunlock(3) conn_invD(3,4) [OF assms(4)] in \<open>auto simp: thread_inv_def upd_eq\<close>)
qed

lemma conns_start_inv: "conn_inv L d P (conns_start d P)"
  by (auto simp: conn_inv_def conns_start_def thread_inv_def handled_def serial_def dom_def)

abbreviation conn_reach :: "libc \<Rightarrow> dev_spec \<Rightarrow> (nat \<rightharpoonup> byte list list) \<Rightarrow> conns \<Rightarrow> bool" where
  "conn_reach L d P c \<equiv> (conn_step L)\<^sup>*\<^sup>* (conns_start d P) c"

lemma conn_reach_inv:
  assumes "conn_reach L d P c" "libc_laws L" "\<forall>ps \<in> ran P. \<forall>p \<in> set ps. is_line p"
  shows "conn_inv L d P c"
  using assms(1)
proof (induction rule: rtranclp_induct)
  case base
  show ?case by (rule conns_start_inv)
next
  case (step c c')
  then show ?case using conn_step_inv [OF step(2) assms(2,3)] by blast
qed

section \<open>Progress\<close>

definition finished :: "conns \<Rightarrow> bool" where
  "finished c \<longleftrightarrow> (\<forall>i t. thr c i = Some t \<longrightarrow> phase t = Idle \<and> todo t = [])"

text \<open>The owner of the write lock and every reader can go on, by a step of their own.\<close>

definition thread_moves :: "libc \<Rightarrow> conns \<Rightarrow> nat \<Rightarrow> bool" where
  "thread_moves L c i \<longleftrightarrow> (\<exists>c' t'. conn_step L c c' \<and> thr c' = (thr c)(i \<mapsto> t'))"

lemma thread_movesI: "conn_step L c (upd i t c1) \<Longrightarrow> thr c1 = thr c \<Longrightarrow> thread_moves L c i"
  unfolding thread_moves_def by (intro exI [of _ "upd i t c1"]) (auto simp: upd_def)

lemma writer_moves:
  assumes "thr c i = Some t" "in_hand (phase t) \<noteq> []"
  shows "thread_moves L c i"
proof (cases "phase t")
  case (Locked p)
  obtain n s where ps: "packet_params p = (n, s)" by force
  show ?thesis
  proof (cases "n = 2")
    case True
    then show ?thesis using thread_movesI [OF conn_step.seek [OF assms(1) Locked]] ps by blast
  next
    case False
    then show ?thesis using thread_movesI [OF conn_step.fwrite [OF assms(1) Locked]] ps by auto
  qed
next
  case (Writing p bs)
  then show ?thesis
    using thread_movesI [OF conn_step.fflush [OF assms(1)]] thread_movesI [OF conn_step.sys_write [OF assms(1)]]
    by (cases bs) auto
next
  case (Stored p)
  then show ?thesis using thread_movesI [OF conn_step.wrunlock [OF assms(1)]] by simp
qed (use assms(2) in simp_all)

lemma reader_moves:
  assumes "thr c i = Some t" "wants_read (phase t)"
  shows "thread_moves L c i"
proof (cases "phase t")
  case (Reading f0 r0)
  obtain bs f where "fread (shared_dev c) BUFFER_SIZE (cstream t) = (bs, f)" by force
  then show ?thesis
    using thread_movesI [OF conn_step.fread_send [OF assms(1) Reading]]
      thread_movesI [OF conn_step.fread_end [OF assms(1) Reading]]
    by (cases "bs = []") auto
next
  case (Answered f0 r0)
  then show ?thesis using thread_movesI [OF conn_step.rdunlock [OF assms(1)]] by simp
qed (use assms(2) in simp_all)

text \<open>
  A thread that waits for the lock can take it, or the lock is held by a thread that can go on.
\<close>

lemma waiting_moves:
  assumes inv: "conn_inv L d P c" and t: "thr c i = Some t"
    "phase t = Idle \<and> todo t \<noteq> [] \<or> phase t = Answering"
  shows "\<exists>j u. thr c j = Some u \<and> thread_moves L c j \<and> (j = i \<or> in_hand (phase u) \<noteq> [] \<or> wants_read (phase u))"
proof (cases "lock_writer c")
  case (Some j)
  then obtain u where u: "thr c j = Some u" using conn_invD(5) [OF inv] by auto
  then have "in_hand (phase u) \<noteq> []" using conn_invD(2) [OF inv u] Some by (simp add: thread_inv_def)
  with u writer_moves [OF u] show ?thesis by blast
next
  case None
  show ?thesis
  proof (cases "lock_readers c = {}")
    case False
    then obtain j u where u: "thr c j = Some u" "j \<in> lock_readers c"
      using conn_invD(5) [OF inv] by blast
    then have "wants_read (phase u)" using conn_invD(2) [OF inv u(1)] by (simp add: thread_inv_def)
    with u(1) reader_moves [OF u(1)] show ?thesis by blast
  next
    case True
    from t(2) have "thread_moves L c i"
    proof
      assume a: "phase t = Idle \<and> todo t \<noteq> []"
      then obtain p ps where "todo t = p # ps" by (cases "todo t") auto
      with a thread_movesI [OF conn_step.wrlock [OF t(1) _ _ None True]] show ?thesis by simp
    next
      assume "phase t = Answering"
      with thread_movesI [OF conn_step.rdlock [OF t(1) _ None]] show ?thesis by simp
    qed
    with t(1) show ?thesis by blast
  qed
qed

lemma conn_progress:
  assumes inv: "conn_inv L d P c" and "\<not> finished c"
  shows "\<exists>c'. conn_step L c c'"
proof -
  obtain i t where t: "thr c i = Some t" "phase t \<noteq> Idle \<or> todo t \<noteq> []"
    using assms(2) by (auto simp: finished_def)
  have "\<exists>j. thread_moves L c j"
  proof (cases "in_hand (phase t) \<noteq> [] \<or> wants_read (phase t)")
    case True
    then show ?thesis using writer_moves [OF t(1)] reader_moves [OF t(1)] by blast
  next
    case False
    then have "phase t = Idle \<and> todo t \<noteq> [] \<or> phase t = Answering" using t(2) by (cases "phase t") auto
    then show ?thesis using waiting_moves [OF inv t(1)] by blast
  qed
  then show ?thesis by (auto simp: thread_moves_def)
qed

section \<open>Termination\<close>

text \<open>
  Every step but a \<open>fread\<close> and \<open>send\<close> brings its thread to a place with fewer steps to come; a
  \<open>fread\<close> that delivers bytes leaves fewer of them to read.
\<close>

fun phase_weight :: "libc \<Rightarrow> phase \<Rightarrow> nat" where
  "phase_weight L Idle = 0"
| "phase_weight L (Locked p) = 6 + length (stdio_split L p)"
| "phase_weight L (Writing p bs) = 5 + length bs"
| "phase_weight L (Stored p) = 4"
| "phase_weight L Answering = 3"
| "phase_weight L (Reading f r) = 2"
| "phase_weight L (Answered f r) = 1"

definition thread_weight :: "libc \<Rightarrow> conn_thread \<Rightarrow> nat" where
  "thread_weight L t = sum_list (map (\<lambda>p. 8 + length (stdio_split L p)) (todo t)) + phase_weight L (phase t)"

definition thread_left :: "dev_spec \<Rightarrow> conn_thread \<Rightarrow> nat" where
  "thread_left d t = (case phase t of Reading f r \<Rightarrow> length (snapshot (cstream t) d) | _ \<Rightarrow> 0)"

definition total :: "(conn_thread \<Rightarrow> nat) \<Rightarrow> (nat \<rightharpoonup> conn_thread) \<Rightarrow> nat" where
  "total f T = (\<Sum>i \<in> dom T. f (the (T i)))"

lemma total_upd:
  assumes "finite (dom T)" "T i = Some t"
  shows "total f (T(i \<mapsto> t')) + f t = total f T + f t'"
proof -
  have i: "i \<in> dom T" and d: "dom (T(i \<mapsto> t')) = dom T" using assms(2) by auto
  have "(\<Sum>j \<in> dom T - {i}. f (the ((T(i \<mapsto> t')) j))) = (\<Sum>j \<in> dom T - {i}. f (the (T j)))"
    by (rule sum.cong) auto
  then show ?thesis
    unfolding total_def d
    using sum.remove [OF assms(1) i, of "\<lambda>j. f (the ((T(i \<mapsto> t')) j))"]
      sum.remove [OF assms(1) i, of "\<lambda>j. f (the (T j))"] assms(2) by simp
qed

definition conn_measure :: "libc \<Rightarrow> conns \<Rightarrow> nat \<times> nat" where
  "conn_measure L c = (total (thread_weight L) (thr c), total (thread_left (shared_dev c)) (thr c))"

lemma conn_step_decreases:
  assumes "conn_step L c c'" "finite (dom (thr c))"
  shows "(conn_measure L c', conn_measure L c) \<in> less_than <*lex*> less_than"
proof -
  have less: "(conn_measure L c', conn_measure L c) \<in> less_than <*lex*> less_than"
    if "thr c i = Some t" "thr c' = (thr c)(i \<mapsto> t')" "thread_weight L t' < thread_weight L t" for i t t'
    using total_upd [OF assms(2) that(1), of "thread_weight L" t'] that(2,3) by (simp add: conn_measure_def)
  show ?thesis
    using assms(1)
  proof cases
    case (fread_send i t f0 r0 bs f)
    let ?t = "t\<lparr>cstream := f, replied := replied t @ bs\<rparr>"
    have "thread_weight L ?t = thread_weight L t" by (simp add: thread_weight_def)
    moreover have "thread_left (shared_dev c) ?t < thread_left (shared_dev c) t"
      using snapshot_fread [OF fread_send(4)] fread_send(3,5) by (simp add: thread_left_def)
    ultimately show ?thesis
      using total_upd [OF assms(2) fread_send(2), of "thread_weight L" ?t]
        total_upd [OF assms(2) fread_send(2), of "thread_left (shared_dev c)" ?t] fread_send(1)
      by (simp add: conn_measure_def upd_def)
  qed (rule less, assumption, simp add: upd_def, simp add: thread_weight_def)+
qed

section \<open>One thread alone\<close>

text \<open>
  Without interference the steps of a thread are the sequential handling of its packet.
  \<open>conf\<close> is a configuration seen from thread \<open>i\<close>: the device, the lock, the other threads, the
  list of commits, and its own state.
\<close>

definition conf ::
  "nat \<Rightarrow> (nat \<rightharpoonup> conn_thread) \<Rightarrow> dev_spec \<Rightarrow> nat option \<Rightarrow> nat set \<Rightarrow> (nat \<times> byte list) list
     \<Rightarrow> byte list list \<Rightarrow> phase \<Rightarrow> stream \<Rightarrow> byte list \<Rightarrow> conns" where
  "conf i T d w R h ps ph f r =
     \<lparr>shared_dev = d, lock_writer = w, lock_readers = R,
      thr = T(i \<mapsto> \<lparr>todo = ps, phase = ph, cstream = f, replied = r\<rparr>), committed = h\<rparr>"

lemma conf_of:
  assumes "thr c i = Some t"
  shows "c = conf i (thr c) (shared_dev c) (lock_writer c) (lock_readers c) (committed c)
    (todo t) (phase t) (cstream t) (replied t)"
  using assms by (cases c; cases t) (simp add: conf_def fun_upd_idem)

lemma conf_wrlock:
  "conn_step L (conf i T d None {} h (p # ps) Idle f r)
     (conf i T d (Some i) {} h ps (Locked p) f r)"
  using conn_step.wrlock [of "conf i T d None {} h (p # ps) Idle f r" i
      "\<lparr>todo = (p # ps), phase = Idle, cstream = f, replied = r\<rparr>"]
  by (simp add: conf_def upd_def)

lemma conf_seek:
  "packet_params p = (2, s) \<Longrightarrow> conn_step L (conf i T d w R h ps (Locked p) f r)
     (conf i T d w R h ps (Stored p) (ioctl_seekto d s f) r)"
  using conn_step.seek [of "conf i T d w R h ps (Locked p) f r" i
      "\<lparr>todo = ps, phase = (Locked p), cstream = f, replied = r\<rparr>"]
  by (simp add: conf_def upd_def)

lemma conf_fwrite:
  "fst (packet_params p) \<noteq> 2 \<Longrightarrow> conn_step L (conf i T d w R h ps (Locked p) f r)
     (conf i T d w R h ps (Writing p (stdio_split L p)) f r)"
  using conn_step.fwrite [of "conf i T d w R h ps (Locked p) f r" i
      "\<lparr>todo = ps, phase = (Locked p), cstream = f, replied = r\<rparr>"]
  by (simp add: conf_def upd_def)

lemma conf_sys_write:
  "conn_step L (conf i T d w R h ps (Writing p (b # bs)) f r)
     (conf i T (spec_write b d) w R h ps (Writing p bs) f r)"
  using conn_step.sys_write [of "conf i T d w R h ps (Writing p (b # bs)) f r" i
      "\<lparr>todo = ps, phase = (Writing p (b # bs)), cstream = f, replied = r\<rparr>"]
  by (simp add: conf_def upd_def)

lemma conf_fflush:
  "conn_step L (conf i T d w R h ps (Writing p []) f r)
     (conf i T d w R h ps (Stored p) f r)"
  using conn_step.fflush [of "conf i T d w R h ps (Writing p []) f r" i
      "\<lparr>todo = ps, phase = (Writing p []), cstream = f, replied = r\<rparr>"]
  by (simp add: conf_def upd_def)

lemma conf_wrunlock:
  "conn_step L (conf i T d w R h ps (Stored p) f r)
     (conf i T d None R (h @ [(i, p)]) ps Answering f r)"
  using conn_step.wrunlock [of "conf i T d w R h ps (Stored p) f r" i
      "\<lparr>todo = ps, phase = (Stored p), cstream = f, replied = r\<rparr>"]
  by (simp add: conf_def upd_def)

lemma conf_rdlock:
  "conn_step L (conf i T d None R h ps Answering f r)
     (conf i T d None (insert i R) h ps (Reading f r) f r)"
  using conn_step.rdlock [of "conf i T d None R h ps Answering f r" i
      "\<lparr>todo = ps, phase = Answering, cstream = f, replied = r\<rparr>"]
  by (simp add: conf_def upd_def)

lemma conf_fread_send:
  "fread d BUFFER_SIZE f = (bs, f') \<Longrightarrow> bs \<noteq> [] \<Longrightarrow> conn_step L (conf i T d w R h ps (Reading f0 r0) f r)
     (conf i T d w R h ps (Reading f0 r0) f' (r @ bs))"
  using conn_step.fread_send [of "conf i T d w R h ps (Reading f0 r0) f r" i
      "\<lparr>todo = ps, phase = (Reading f0 r0), cstream = f, replied = r\<rparr>"]
  by (simp add: conf_def upd_def)

lemma conf_fread_end:
  "fread d BUFFER_SIZE f = ([], f') \<Longrightarrow> conn_step L (conf i T d w R h ps (Reading f0 r0) f r)
     (conf i T d w R h ps (Answered f0 r0) f' r)"
  using conn_step.fread_end [of "conf i T d w R h ps (Reading f0 r0) f r" i
      "\<lparr>todo = ps, phase = (Reading f0 r0), cstream = f, replied = r\<rparr>"]
  by (simp add: conf_def upd_def)

lemma conf_rdunlock:
  "conn_step L (conf i T d w R h ps (Answered f0 r0) f r)
     (conf i T d w (R - {i}) h ps Idle f r)"
  using conn_step.rdunlock [of "conf i T d w R h ps (Answered f0 r0) f r" i
      "\<lparr>todo = ps, phase = (Answered f0 r0), cstream = f, replied = r\<rparr>"]
  by (simp add: conf_def upd_def)

lemma write_alone:
  "(conn_step L)\<^sup>*\<^sup>* (conf i T d w R h ps (Writing p bs) f r)
     (conf i T (fold spec_write bs d) w R h ps (Stored p) f r)"
proof (induction bs arbitrary: d)
  case Nil
  show ?case using conf_fflush by auto
next
  case (Cons b bs)
  show ?case using converse_rtranclp_into_rtranclp [OF conf_sys_write Cons.IH] by simp
qed

text \<open>From the lock to the unlock: the effect of \<open>write_locked\<close> in one piece.\<close>

lemma store_alone:
  assumes "libc_laws L" "is_line p" "packet_params p = (n, s)"
  shows "(conn_step L)\<^sup>*\<^sup>* (conf i T d None {} h (p # ps) Idle f r)
    (conf i T (store_packet p d) None {} (h @ [(i, p)]) ps Answering
      (if n = 2 then ioctl_seekto d s f else f) r)"
proof -
  have mid: "(conn_step L)\<^sup>*\<^sup>* (conf i T d (Some i) {} h ps (Locked p) f r)
    (conf i T (store_packet p d) (Some i) {} h ps (Stored p) (if n = 2 then ioctl_seekto d s f else f) r)"
  proof (cases "n = 2")
    case True
    then show ?thesis using conf_seek [of p s] assms(3) by (auto simp: store_packet_def)
  next
    case False
    then show ?thesis
      using converse_rtranclp_into_rtranclp [OF conf_fwrite write_alone, of p L i T d "Some i"]
        stdio_line [OF assms(1,2), of d] assms(3) by (simp add: store_packet_def)
  qed
  show ?thesis
    by (rule converse_rtranclp_into_rtranclp [OF conf_wrlock
          rtranclp.rtrancl_into_rtrancl [OF mid conf_wrunlock]])
qed

lemma read_alone:
  "\<exists>bufs f'. reply_loop d f acc = (acc @ bufs, f') \<and>
    (conn_step L)\<^sup>*\<^sup>* (conf i T d w R h ps (Reading f0 r0) f r) (conf i T d w R h ps (Answered f0 r0) f' (r @ concat bufs))"
proof (induction d f acc arbitrary: r rule: reply_loop.induct)
  case (1 d f acc)
  obtain bs f' where fr: "fread d BUFFER_SIZE f = (bs, f')" by force
  show ?case
  proof (cases "bs = []")
    case True
    then have "reply_loop d f acc = (acc, f')" by (subst reply_loop.simps) (simp add: fr)
    with conf_fread_end [of d f f'] fr True show ?thesis
      by (intro exI [of _ "[]"] exI [of _ f']) auto
  next
    case False
    have "bs = fst (fread d BUFFER_SIZE f)" "f' = snd (fread d BUFFER_SIZE f)" by (simp_all add: fr)
    from "1.IH" [OF this False, of "r @ bs"] obtain bufs f'' where
      b: "reply_loop d f' (acc @ [bs]) = ((acc @ [bs]) @ bufs, f'')"
      "(conn_step L)\<^sup>*\<^sup>* (conf i T d w R h ps (Reading f0 r0) f' (r @ bs))
         (conf i T d w R h ps (Answered f0 r0) f'' ((r @ bs) @ concat bufs))" by blast
    have "reply_loop d f acc = (acc @ bs # bufs, f'')"
      using b(1) False by (subst reply_loop.simps) (simp add: fr)
    moreover have "(conn_step L)\<^sup>*\<^sup>* (conf i T d w R h ps (Reading f0 r0) f r)
        (conf i T d w R h ps (Answered f0 r0) f'' (r @ concat (bs # bufs)))"
      using converse_rtranclp_into_rtranclp [OF conf_fread_send [OF fr False] b(2)] by simp
    ultimately show ?thesis by blast
  qed
qed

lemma answer_alone:
  assumes "reply_loop d f [] = (bufs, f')"
  shows "(conn_step L)\<^sup>*\<^sup>* (conf i T d None {} h ps Answering f r) (conf i T d None {} h ps Idle f' (r @ concat bufs))"
proof -
  have "(conn_step L)\<^sup>*\<^sup>* (conf i T d None {i} h ps (Reading f r) f r)
      (conf i T d None {i} h ps (Answered f r) f' (r @ concat bufs))"
    using read_alone [of d f "[]" L i T None "{i}" h ps f r r] assms by auto
  moreover have "conn_step L (conf i T d None {} h ps Answering f r) (conf i T d None {i} h ps (Reading f r) f r)"
    using conf_rdlock [of L i T d "{}"] by simp
  moreover have "conn_step L (conf i T d None {i} h ps (Answered f r) f' (r @ concat bufs))
      (conf i T d None {} h ps Idle f' (r @ concat bufs))"
    using conf_rdunlock [of L i T d None "{i}"] by simp
  ultimately show ?thesis
    by (blast intro: converse_rtranclp_into_rtranclp rtranclp.rtrancl_into_rtrancl)
qed

section \<open>What holds in every reachable state\<close>

text \<open>
  Whenever no thread holds the write lock, the device is as if the packets committed so far had
  been stored whole, one after the other, in the order in which their threads released the lock.
  This order keeps the order of the packets of each connection, and no packet is lost or
  duplicated.
\<close>

lemma conn_serial_ok:
  assumes "conn_reach L d P c" "libc_laws L" "\<forall>ps \<in> ran P. \<forall>p \<in> set ps. is_line p"
    "lock_writer c = None"
  shows "shared_dev c = serial d (committed c) \<and>
    (\<forall>i ps. P i = Some ps \<longrightarrow> (\<exists>t. thr c i = Some t \<and> ps = handled i (committed c) @ todo t))"
proof -
  note inv = conn_reach_inv [OF assms(1-3)]
  have "\<exists>t. thr c i = Some t \<and> ps = handled i (committed c) @ todo t" if i: "P i = Some ps" for i ps
  proof -
    obtain t where t: "thr c i = Some t" using conn_invD(1) [OF inv] i by blast
    from conn_invD(2) [OF inv t] i assms(4) t show ?thesis by (auto simp: thread_inv_def)
  qed
  then show ?thesis using conn_invD(4) [OF inv assms(4)] by blast
qed

text \<open>
  What a thread about to give back the read lock has sent since it took it are the contents of the
  device from its file position on, its own packet included.
\<close>

lemma conn_snapshot_ok:
  assumes "conn_reach L d P c" "libc_laws L" "\<forall>ps \<in> ran P. \<forall>p \<in> set ps. is_line p"
    "thr c i = Some t" "phase t = Answered f r"
  shows "replied t =
      r @ (if file_eof f then [] else drop (file_pos f) (spec_contents (serial d (committed c)))) \<and>
    shared_dev c = serial d (committed c) \<and> handled i (committed c) \<noteq> []"
proof -
  note inv = conn_reach_inv [OF assms(1-3)]
  note v = conn_invD(2) [OF inv assms(4), unfolded thread_inv_def]
  have "i \<in> lock_readers c" using v assms(5) by simp
  then have "lock_writer c = None" using conn_invD(3) [OF inv] by fastforce
  then have "shared_dev c = serial d (committed c)" by (rule conn_invD(4) [OF inv])
  then show ?thesis using v assms(5) by (simp add: snapshot_eq)
qed

section \<open>Properties\<close>

lemma line_ab: "is_line [97, 10]" "is_line [98, 10]"
  by (simp_all add: is_line_def)

text \<open>
  A thread that is not interrupted handles its packet as the sequential
  specification says: the interleaved steps, run through from one packet to the next, have the
  effect of \<open>packet_spec\<close> on device, file and replies.
\<close>

lemma conn_alone_sequential:
  assumes "libc_laws L" "is_line p" "thr c i = Some t" "phase t = Idle" "todo t = p # ps"
    "lock_writer c = None" "lock_readers c = {}" "packet_spec p (shared_dev c) (cstream t) = (r, d', f')"
  shows "\<exists>c' t'. (conn_step L)\<^sup>*\<^sup>* c c' \<and> thr c' = (thr c)(i \<mapsto> t') \<and> phase t' = Idle \<and> todo t' = ps \<and>
    lock_writer c' = None \<and> lock_readers c' = {} \<and> committed c' = committed c @ [(i, p)] \<and>
    shared_dev c' = d' \<and> cstream t' = f' \<and> replied t' = replied t @ r"
proof -
  obtain n s where ns: "packet_params p = (n, s)" by force
  let ?d = "store_packet p (shared_dev c)"
  let ?f = "if n = 2 then ioctl_seekto (shared_dev c) s (cstream t) else cstream t"
  obtain bufs f'' where b: "reply_loop ?d ?f [] = (bufs, f'')" by force
  have e: "?d = d'" "f'' = f'" "concat bufs = r"
    using assms(8) b reply_loop_eq [of ?f ?d "[]"] reply_loop_eof [of ?f ?d "[]"]
    by (auto simp: packet_spec_def ns store_packet_def Let_def split: if_splits)
  let ?c = "\<lambda>d h ps ph f r. conf i (thr c) d None {} h ps ph f r"
  have "c = ?c (shared_dev c) (committed c) (p # ps) Idle (cstream t) (replied t)"
    using conf_of [OF assms(3)] assms(4-7) by simp
  moreover have "(conn_step L)\<^sup>*\<^sup>* (?c (shared_dev c) (committed c) (p # ps) Idle (cstream t) (replied t))
      (?c d' (committed c @ [(i, p)]) ps Idle f' (replied t @ r))"
    using rtranclp_trans [OF store_alone [OF assms(1,2) ns] answer_alone [OF b]] unfolding e .
  ultimately have run: "(conn_step L)\<^sup>*\<^sup>* c (?c d' (committed c @ [(i, p)]) ps Idle f' (replied t @ r))" by simp
  show ?thesis
    by (rule exI [of _ "?c d' (committed c @ [(i, p)]) ps Idle f' (replied t @ r)"],
        rule exI [of _ "\<lparr>todo = ps, phase = Idle, cstream = f', replied = replied t @ r\<rparr>"])
      (use run in \<open>simp add: conf_def\<close>)
qed

end
