(* ===== verification/Device_Conns.thy ===== *)
theory Device_Conns
  imports Device_File Client_Concurrency
begin

text \<open>
  The whole system: several connection threads, interleaved in any way their lock allows, on the
  driver. The steps are those of theory \<open>Client_Concurrency\<close>, but each access to the data file is
  a call of the driver's handlers on the one kernel state, with the bytes in user memory. An
  abstraction function maps these states to those of the abstract system, and every step of the
  concrete system is a step of the abstract one; so what holds there holds on the driver.
\<close>

section \<open>States and steps\<close>

record dev_thread =
  dtodo :: "byte list list"
  dphase :: phase
  dfile :: dev_file
  dreplied :: "byte list"

record dev_conns =
  dkst :: kstate
  dwriter :: "nat option"
  dreaders :: "nat set"
  dthr :: "nat \<rightharpoonup> dev_thread"
  dcommitted :: "(nat \<times> byte list) list"

definition dupd :: "nat \<Rightarrow> dev_thread \<Rightarrow> dev_conns \<Rightarrow> dev_conns" where
  "dupd i t c = c\<lparr>dthr := (dthr c)(i \<mapsto> t)\<rparr>"

text \<open>
  Thread \<open>i\<close> keeps its buffers in user memory as \<open>lay i\<close> says. When the driver refuses a \<open>write\<close>, \<open>stdio\<close>
  drops the rest of the packet; the sources do not look at the results of \<open>fwrite\<close> and \<open>fflush\<close>, so
  the thread goes on to unlock and reply as if the packet were stored.
\<close>

inductive dev_step :: "kernel \<Rightarrow> libc \<Rightarrow> (nat \<Rightarrow> layout) \<Rightarrow> dev_conns \<Rightarrow> dev_conns \<Rightarrow> bool" for K L lay where
  d_wrlock: "dthr c i = Some t \<Longrightarrow> dphase t = Idle \<Longrightarrow> dtodo t = p # ps \<Longrightarrow>
    dwriter c = None \<Longrightarrow> dreaders c = {} \<Longrightarrow>
    dev_step K L lay c (dupd i (t\<lparr>dtodo := ps, dphase := Locked p\<rparr>) (c\<lparr>dwriter := Some i\<rparr>))"
| d_seek: "dthr c i = Some t \<Longrightarrow> dphase t = Locked p \<Longrightarrow> packet_params p = (2, seekto) \<Longrightarrow>
    dev_ioctl_seekto K (seek_arg (lay i)) seekto (kfile_of (dfile t)) (dkst c) = Inr (f, s) \<Longrightarrow>
    dev_step K L lay c (dupd i (t\<lparr>dphase := Stored p, dfile := (dfile t)\<lparr>kfile_of := f\<rparr>\<rparr>) (c\<lparr>dkst := s\<rparr>))"
| d_fwrite: "dthr c i = Some t \<Longrightarrow> dphase t = Locked p \<Longrightarrow> fst (packet_params p) \<noteq> 2 \<Longrightarrow>
    dev_step K L lay c (dupd i (t\<lparr>dphase := Writing p (stdio_split L p)\<rparr>) c)"
| d_sys_write: "dthr c i = Some t \<Longrightarrow> dphase t = Writing p (b # bs) \<Longrightarrow>
    aesd_write K (kfile_of (dfile t)) (flat_buf (lay i)) (of_nat (length b)) (f_pos (kfile_of (dfile t)))
      (put_user (flat_buf (lay i)) b (dkst c)) = Inr (int (length b), pos, s) \<Longrightarrow>
    dev_step K L lay c (dupd i (t\<lparr>dphase := Writing p bs,
        dfile := (dfile t)\<lparr>kfile_of := (kfile_of (dfile t))\<lparr>f_pos := pos\<rparr>\<rparr>\<rparr>) (c\<lparr>dkst := s\<rparr>))"
| d_write_refused: "dthr c i = Some t \<Longrightarrow> dphase t = Writing p (b # bs) \<Longrightarrow>
    aesd_write K (kfile_of (dfile t)) (flat_buf (lay i)) (of_nat (length b)) (f_pos (kfile_of (dfile t)))
      (put_user (flat_buf (lay i)) b (dkst c)) = Inr (r, pos, s) \<Longrightarrow> r \<noteq> int (length b) \<Longrightarrow>
    dev_step K L lay c (dupd i (t\<lparr>dphase := Stored p,
        dfile := (dfile t)\<lparr>kfile_of := (kfile_of (dfile t))\<lparr>f_pos := pos\<rparr>\<rparr>\<rparr>) (c\<lparr>dkst := s\<rparr>))"
| d_fflush: "dthr c i = Some t \<Longrightarrow> dphase t = Writing p [] \<Longrightarrow>
    dev_step K L lay c (dupd i (t\<lparr>dphase := Stored p\<rparr>) c)"
| d_wrunlock: "dthr c i = Some t \<Longrightarrow> dphase t = Stored p \<Longrightarrow>
    dev_step K L lay c (dupd i (t\<lparr>dphase := Answering\<rparr>)
      (c\<lparr>dwriter := None, dcommitted := dcommitted c @ [(i, p)]\<rparr>))"
| d_rdlock: "dthr c i = Some t \<Longrightarrow> dphase t = Answering \<Longrightarrow> dwriter c = None \<Longrightarrow>
    dev_step K L lay c (dupd i (t\<lparr>dphase := Reading (stream_of (dfile t)) (dreplied t)\<rparr>)
      (c\<lparr>dreaders := insert i (dreaders c)\<rparr>))"
| d_fread_send: "dthr c i = Some t \<Longrightarrow> dphase t = Reading f0 r0 \<Longrightarrow>
    dev_fread K (reply_buf (lay i)) BUFFER_SIZE (dfile t) (dkst c) = Inr (n, fp, s) \<Longrightarrow> n \<noteq> 0 \<Longrightarrow>
    dev_step K L lay c (dupd i (t\<lparr>dfile := fp, dreplied := dreplied t @ get_user (reply_buf (lay i)) n s\<rparr>)
      (c\<lparr>dkst := s\<rparr>))"
| d_fread_end: "dthr c i = Some t \<Longrightarrow> dphase t = Reading f0 r0 \<Longrightarrow>
    dev_fread K (reply_buf (lay i)) BUFFER_SIZE (dfile t) (dkst c) = Inr (0, fp, s) \<Longrightarrow>
    dev_step K L lay c (dupd i (t\<lparr>dfile := fp, dphase := Answered f0 r0\<rparr>) (c\<lparr>dkst := s\<rparr>))"
| d_rdunlock: "dthr c i = Some t \<Longrightarrow> dphase t = Answered f0 r0 \<Longrightarrow>
    dev_step K L lay c (dupd i (t\<lparr>dphase := Idle\<rparr>) (c\<lparr>dreaders := dreaders c - {i}\<rparr>))"

text \<open>The start: each connection has opened the device.\<close>

definition opened_file :: dev_file where
  "opened_file = \<lparr>kfile_of = snd (aesd_open aesd_inode \<lparr>f_pos = 0, private_data = Null_Dev\<rparr>), at_eof = False\<rparr>"

definition dev_conns_start :: "kstate \<Rightarrow> (nat \<rightharpoonup> byte list list) \<Rightarrow> dev_conns" where
  "dev_conns_start s P =
     \<lparr>dkst = s, dwriter = None, dreaders = {},
      dthr = (\<lambda>i. map_option (\<lambda>ps. \<lparr>dtodo = ps, dphase = Idle, dfile = opened_file, dreplied = []\<rparr>) (P i)),
      dcommitted = []\<rparr>"

section \<open>Abstraction\<close>

definition abs_thread :: "dev_thread \<Rightarrow> conn_thread" where
  "abs_thread t = \<lparr>todo = dtodo t, phase = dphase t, cstream = stream_of (dfile t), replied = dreplied t\<rparr>"

definition abs_conns :: "dev_conns \<Rightarrow> conns" where
  "abs_conns c =
     \<lparr>shared_dev = drv_spec (dkst c), lock_writer = dwriter c, lock_readers = dreaders c,
      thr = (\<lambda>i. map_option abs_thread (dthr c i)), committed = dcommitted c\<rparr>"

definition dev_inv :: "(nat \<Rightarrow> layout) \<Rightarrow> dev_conns \<Rightarrow> bool" where
  "dev_inv lay c \<longleftrightarrow>
     drv_inv (dkst c) \<and> lock (aesd_device (dkst c)) = \<lparr>readers = 0, writer = False\<rparr> \<and>
     (\<forall>i t. dthr c i = Some t \<longrightarrow> private_data (kfile_of (dfile t)) = Aesd_Device \<and>
        mapped (usermem (dkst c)) (reply_buf (lay i)) BUFFER_SIZE)"

lemma dev_inv_ready:
  "dev_inv lay c \<Longrightarrow> dthr c i = Some t \<Longrightarrow> dev_ready (lay i) (dfile t) (dkst c)"
  by (simp add: dev_inv_def dev_ready_def)

text \<open>The frame of all steps: the driver stays idle and well-formed, user memory stays mapped.\<close>

lemma dev_inv_move:
  assumes "dev_inv lay c" "dthr c i = Some t" "drv_inv s" "lock (aesd_device s) = lock (aesd_device (dkst c))"
    "private_data (kfile_of (dfile t')) = Aesd_Device" "\<And>a n. mapped (usermem (dkst c)) a n \<Longrightarrow> mapped (usermem s) a n"
    "dkst c' = s" "dthr c' = (dthr c)(i \<mapsto> t')"
  shows "dev_inv lay c'"
  using assms by (auto simp: dev_inv_def)

lemma abs_upd:
  "abs_conns (dupd i t c) = upd i (abs_thread t) (abs_conns c)"
  by (auto simp: abs_conns_def dupd_def upd_def)

lemma abs_thr: "dthr c i = Some t \<Longrightarrow> thr (abs_conns c) i = Some (abs_thread t)"
  by (simp add: abs_conns_def)

lemma abs_start:
  "abs_conns (dev_conns_start s P) = conns_start (drv_spec s) P"
  by (auto simp: abs_conns_def dev_conns_start_def conns_start_def abs_thread_def opened_file_def
      stream_of_def aesd_open_def aesd_inode_def option.map_comp comp_def)

lemma dev_inv_start:
  assumes "drv_inv s" "lock (aesd_device s) = \<lparr>readers = 0, writer = False\<rparr>"
    "\<And>i. i \<in> dom P \<Longrightarrow> mapped (usermem s) (reply_buf (lay i)) BUFFER_SIZE"
  shows "dev_inv lay (dev_conns_start s P)"
  using assms by (auto simp: dev_inv_def dev_conns_start_def opened_file_def aesd_open_def aesd_inode_def)

section \<open>Simulation\<close>

text \<open>A \<open>write\<close> call that took all its bytes has appended them.\<close>

lemma write_took_all:
  assumes "alloc_laws K" "user_laws K" "lock_laws K" "drv_inv s" "private_data f \<noteq> Null_Dev"
    "aesd_write K f buf (of_nat (length b)) fpos (put_user buf b s) = Inr (int (length b), pos, s')"
  shows "pos = fpos" "drv_inv s'" "same_rest (put_user buf b s) s'" "drv_spec s' = spec_write b (drv_spec s)"
proof -
  let ?s = "put_user buf b s"
  have inv: "drv_inv ?s" using assms(4) by simp
  have w: "pos = fpos \<and> drv_inv s' \<and> same_rest ?s s' \<and>
      write_result (usermem ?s) buf (of_nat (length b)) (drv_spec ?s) (int (length b)) (drv_spec s')"
    by (rule aesd_write_ok [OF assms(1-3) inv assms(5), of buf "of_nat (length b)" fpos])
      (use assms(6) in auto)
  then show "pos = fpos" "drv_inv s'" "same_rest ?s s'" by simp_all
  from w have "int (length b) = int (unat (of_nat (length b) :: size_t))"
    by (auto simp: write_result_def errno_defs)
  then have "unat (of_nat (length b) :: size_t) = length b" by (simp only: of_nat_eq_iff)
  with w obtain data where d: "length data = length b" "umem_holds (usermem ?s) buf data"
    "drv_spec s' = spec_write data (drv_spec s)" by (auto simp: write_result_def errno_defs)
  moreover have "umem_holds (usermem ?s) buf b" by (simp add: umem_holds_write)
  ultimately show "drv_spec s' = spec_write b (drv_spec s)" using umem_holds_unique by metis
qed

lemma abs_sel [simp]:
  "todo (abs_thread t) = dtodo t" "phase (abs_thread t) = dphase t" "cstream (abs_thread t) = stream_of (dfile t)"
  "replied (abs_thread t) = dreplied t" "shared_dev (abs_conns c) = drv_spec (dkst c)"
  "lock_writer (abs_conns c) = dwriter c" "lock_readers (abs_conns c) = dreaders c"
  "committed (abs_conns c) = dcommitted c"
  by (simp_all add: abs_thread_def abs_conns_def)

lemma abs_update [simp]:
  "abs_thread (t\<lparr>dtodo := ps\<rparr>) = (abs_thread t)\<lparr>todo := ps\<rparr>" "abs_thread (t\<lparr>dphase := ph\<rparr>) = (abs_thread t)\<lparr>phase := ph\<rparr>"
  "abs_thread (t\<lparr>dfile := fp\<rparr>) = (abs_thread t)\<lparr>cstream := stream_of fp\<rparr>"
  "abs_thread (t\<lparr>dreplied := r\<rparr>) = (abs_thread t)\<lparr>replied := r\<rparr>"
  "abs_conns (c\<lparr>dwriter := w\<rparr>) = (abs_conns c)\<lparr>lock_writer := w\<rparr>"
  "abs_conns (c\<lparr>dreaders := R\<rparr>) = (abs_conns c)\<lparr>lock_readers := R\<rparr>"
  "abs_conns (c\<lparr>dcommitted := h\<rparr>) = (abs_conns c)\<lparr>committed := h\<rparr>"
  "abs_conns (c\<lparr>dkst := s\<rparr>) = (abs_conns c)\<lparr>shared_dev := drv_spec s\<rparr>"
  by (simp_all add: abs_thread_def abs_conns_def)

lemma upd_same_dev: "d = shared_dev c \<Longrightarrow> c\<lparr>shared_dev := d\<rparr> = c"
  by simp

text \<open>A step that does not touch the driver, and the three kinds of steps that do.\<close>

lemma quiet_step:
  assumes "dev_inv lay c" "dthr c i = Some t" "kfile_of (dfile t') = kfile_of (dfile t)"
    "dkst c1 = dkst c" "dthr c1 = dthr c"
  shows "dev_inv lay (dupd i t' c1)"
  by (rule dev_inv_move [OF assms(1,2), of "dkst c"]) (use assms in \<open>auto simp: dupd_def dev_inv_def\<close>)

lemma seek_simulates:
  assumes "kernel_laws K" "kernel_serves K N" "dev_inv lay c" "dthr c i = Some t" "dphase t = Locked p"
    "packet_params p = (2, seekto)"
    "dev_ioctl_seekto K (seek_arg (lay i)) seekto (kfile_of (dfile t)) (dkst c) = Inr (f, s)"
    "c' = dupd i (t\<lparr>dphase := Stored p, dfile := (dfile t)\<lparr>kfile_of := f\<rparr>\<rparr>) (c\<lparr>dkst := s\<rparr>)"
  shows "conn_step L (abs_conns c) (abs_conns c') \<and> dev_inv lay c'"
proof
  note laws = kernel_lawsD [OF assms(1)] and rd = dev_inv_ready [OF assms(3,4)]
  from dev_ioctl_ok [OF laws(2,3) assms(2) rd, of "seek_arg (lay i)" seekto] assms(7) have
    f: "s = put_user (seek_arg (lay i)) (bytes_of_seekto seekto) (dkst c)"
    "private_data f = private_data (kfile_of (dfile t))"
    "stream_of ((dfile t)\<lparr>kfile_of := f\<rparr>) = ioctl_seekto (drv_spec (dkst c)) seekto (stream_of (dfile t))" by auto
  show "conn_step L (abs_conns c) (abs_conns c')"
    using seek [OF abs_thr [OF assms(4)], of p seekto L] assms(5,6)
    by (simp add: assms(8) abs_upd f(1,3) upd_same_dev)
  show "dev_inv lay c'"
    by (rule dev_inv_move [OF assms(3,4), of s])
      (use f rd in \<open>auto simp: assms(8) dupd_def dev_ready_def mapped_write_umem\<close>)
qed

lemma write_simulates:
  assumes "kernel_laws K" "dev_inv lay c" "dthr c i = Some t" "dphase t = Writing p (b # bs)"
    "aesd_write K (kfile_of (dfile t)) (flat_buf (lay i)) (of_nat (length b)) (f_pos (kfile_of (dfile t)))
      (put_user (flat_buf (lay i)) b (dkst c)) = Inr (int (length b), pos, s)"
    "c' = dupd i (t\<lparr>dphase := Writing p bs,
        dfile := (dfile t)\<lparr>kfile_of := (kfile_of (dfile t))\<lparr>f_pos := pos\<rparr>\<rparr>\<rparr>) (c\<lparr>dkst := s\<rparr>)"
  shows "conn_step L (abs_conns c) (abs_conns c') \<and> dev_inv lay c'"
proof
  note rd = dev_inv_ready [OF assms(2,3), unfolded dev_ready_def]
  then have "private_data (kfile_of (dfile t)) \<noteq> Null_Dev" "drv_inv (dkst c)" by simp_all
  note w = write_took_all [OF kernel_lawsD(1-3) [OF assms(1)] this(2,1) assms(5)]
  show "conn_step L (abs_conns c) (abs_conns c')"
    using sys_write [OF abs_thr [OF assms(3)], of p b bs L] assms(4)
    by (simp add: assms(6) abs_upd w(1,4))
  show "dev_inv lay c'"
    by (rule dev_inv_move [OF assms(2,3) w(2)])
      (use w(3) rd in \<open>auto simp: assms(6) dupd_def same_rest_def mapped_write_umem\<close>)
qed

lemma fread_exact:
  assumes "kernel_laws K" "kernel_serves K N" "dev_inv lay c" "dthr c i = Some t"
    "dev_fread K (reply_buf (lay i)) BUFFER_SIZE (dfile t) (dkst c) = Inr (n, fp, s)"
  shows "\<exists>bs. fread (drv_spec (dkst c)) BUFFER_SIZE (stream_of (dfile t)) = (bs, stream_of fp) \<and> n = length bs \<and>
    get_user (reply_buf (lay i)) n s = bs \<and> drv_spec s = drv_spec (dkst c) \<and>
    (\<forall>t' c'. dfile t' = fp \<longrightarrow> dkst c' = s \<longrightarrow> dthr c' = (dthr c)(i \<mapsto> t') \<longrightarrow> dev_inv lay c')"
proof -
  note laws = kernel_lawsD [OF assms(1)] and rd = dev_inv_ready [OF assms(3,4)]
  obtain bs f where fr: "fread (drv_spec (dkst c)) BUFFER_SIZE (stream_of (dfile t)) = (bs, f)" by force
  from dev_fread_ok [OF laws(2,3) assms(2) rd fr] assms(5) have
    f: "n = length bs" "s = put_user (reply_buf (lay i)) bs (dkst c)" "stream_of fp = f"
    "dev_ready (lay i) fp s" by (metis Pair_inject sum.inject(2))+
  have "dev_inv lay c'" if "dfile t' = fp" "dkst c' = s" "dthr c' = (dthr c)(i \<mapsto> t')" for t' c'
    by (rule dev_inv_move [OF assms(3,4), of s t'])
      (use that f rd in \<open>auto simp: dev_ready_def mapped_write_umem\<close>)
  with fr f(1-3) show ?thesis by (auto simp: get_user_put_user)
qed

text \<open>What a thread is about to write, the kernel can hold; then no write is refused.\<close>

definition write_fits :: "nat \<Rightarrow> dev_conns \<Rightarrow> bool" where
  "write_fits N c \<longleftrightarrow> (\<forall>i t p b bs. dthr c i = Some t \<longrightarrow> dphase t = Writing p (b # bs) \<longrightarrow>
     length (pending (drv_spec (dkst c))) + length b \<le> N)"

lemma write_granted:
  assumes "kernel_laws K" "kernel_serves K N" "dev_inv lay c" "write_fits N c" "dthr c i = Some t"
    "dphase t = Writing p (b # bs)"
  shows "\<exists>s1. aesd_write K (kfile_of (dfile t)) (flat_buf (lay i)) (of_nat (length b)) (f_pos (kfile_of (dfile t)))
      (put_user (flat_buf (lay i)) b (dkst c)) = Inr (int (length b), f_pos (kfile_of (dfile t)), s1)"
proof -
  note laws = kernel_lawsD [OF assms(1)] and rd = dev_inv_ready [OF assms(3,5), unfolded dev_ready_def]
  from rd assms(4-6) have "drv_inv (dkst c)" "lock (aesd_device (dkst c)) = \<lparr>readers = 0, writer = False\<rparr>"
    "private_data (kfile_of (dfile t)) \<noteq> Null_Dev" "length (pending (drv_spec (dkst c))) + length b \<le> N"
    by (simp_all add: write_fits_def)
  from dev_write_ok [OF laws(1-3) assms(2) this, of "flat_buf (lay i)"] show ?thesis by blast
qed

lemma dev_step_simulates:
  assumes "dev_step K L lay c c'" "kernel_laws K" "kernel_serves K N" "dev_inv lay c" "write_fits N c"
  shows "conn_step L (abs_conns c) (abs_conns c') \<and> dev_inv lay c'"
  using assms(1)
proof cases
  case (d_wrlock i t p ps)
  with wrlock [OF abs_thr, of c i t p ps L] quiet_step [OF assms(4)] show ?thesis by (simp add: abs_upd)
next
  case (d_seek i t p seekto f s)
  then show ?thesis by (intro seek_simulates [OF assms(2-4)])
next
  case (d_fwrite i t p)
  with fwrite [OF abs_thr, of c i t p L] quiet_step [OF assms(4)] show ?thesis by (simp add: abs_upd)
next
  case (d_sys_write i t p b bs pos s)
  then show ?thesis by (intro write_simulates [OF assms(2,4)])
next
  case (d_write_refused i t p b bs r pos s)
  with write_granted [OF assms(2-5) d_write_refused(2,3)] show ?thesis by auto
next
  case (d_fflush i t p)
  with fflush [OF abs_thr, of c i t p L] quiet_step [OF assms(4)] show ?thesis by (simp add: abs_upd)
next
  case (d_wrunlock i t p)
  with wrunlock [OF abs_thr, of c i t p L] quiet_step [OF assms(4)] show ?thesis by (simp add: abs_upd)
next
  case (d_rdlock i t)
  with rdlock [OF abs_thr, of c i t L] quiet_step [OF assms(4)] show ?thesis by (simp add: abs_upd)
next
  case (d_fread_send i t f0 r0 n fp s)
  from fread_exact [OF assms(2-4) d_fread_send(2,4)] obtain bs where
    b: "fread (drv_spec (dkst c)) BUFFER_SIZE (stream_of (dfile t)) = (bs, stream_of fp)" "n = length bs"
    "get_user (reply_buf (lay i)) n s = bs" "drv_spec s = drv_spec (dkst c)"
    "\<forall>t' c'. dfile t' = fp \<longrightarrow> dkst c' = s \<longrightarrow> dthr c' = (dthr c)(i \<mapsto> t') \<longrightarrow> dev_inv lay c'" by blast
  show ?thesis
  proof
    show "conn_step L (abs_conns c) (abs_conns c')"
      using fread_send [OF abs_thr [OF d_fread_send(2)], of f0 r0 bs "stream_of fp" L] b(1-4) d_fread_send(3,5)
      by (simp add: d_fread_send(1) abs_upd upd_same_dev)
    show "dev_inv lay c'" by (rule b(5) [rule_format]) (simp_all add: d_fread_send(1) dupd_def)
  qed
next
  case (d_fread_end i t f0 r0 fp s)
  from fread_exact [OF assms(2-4) d_fread_end(2,4)] obtain bs where
    b: "fread (drv_spec (dkst c)) BUFFER_SIZE (stream_of (dfile t)) = (bs, stream_of fp)" "0 = length bs"
    "drv_spec s = drv_spec (dkst c)"
    "\<forall>t' c'. dfile t' = fp \<longrightarrow> dkst c' = s \<longrightarrow> dthr c' = (dthr c)(i \<mapsto> t') \<longrightarrow> dev_inv lay c'" by blast
  show ?thesis
  proof
    show "conn_step L (abs_conns c) (abs_conns c')"
      using fread_end [OF abs_thr [OF d_fread_end(2)], of f0 r0 "stream_of fp" L] b(1-3) d_fread_end(3)
      by (simp add: d_fread_end(1) abs_upd upd_same_dev)
    show "dev_inv lay c'" by (rule b(4) [rule_format]) (simp_all add: d_fread_end(1) dupd_def)
  qed
next
  case (d_rdunlock i t f0 r0)
  with rdunlock [OF abs_thr, of c i t f0 r0 L] quiet_step [OF assms(4)] show ?thesis by (simp add: abs_upd)
qed

section \<open>No thread blocks the others\<close>

text \<open>
  The other direction: where the kernel serves its callers, each step of the abstract system can
  be taken on the driver. The one demand is that the kernel can hold what is written.
\<close>

lemma abs_thrE:
  assumes "thr (abs_conns c) i = Some a"
  obtains t where "dthr c i = Some t" "a = abs_thread t"
  using assms by (auto simp: abs_conns_def)

lemma fread_moves:
  assumes "kernel_laws K" "kernel_serves K N" "dev_inv lay c" "dthr c i = Some t" "dphase t = Reading f0 r0"
  shows "\<exists>c'. dev_step K L lay c c'"
proof -
  note laws = kernel_lawsD [OF assms(1)]
  obtain bs f where "fread (drv_spec (dkst c)) BUFFER_SIZE (stream_of (dfile t)) = (bs, f)" by force
  from dev_fread_ok [OF laws(2,3) assms(2) dev_inv_ready [OF assms(3,4)] this] obtain fp s where
    f: "dev_fread K (reply_buf (lay i)) BUFFER_SIZE (dfile t) (dkst c) = Inr (length bs, fp, s)" by blast
  show ?thesis
  proof (cases "length bs = 0")
    case True
    with f have "dev_fread K (reply_buf (lay i)) BUFFER_SIZE (dfile t) (dkst c) = Inr (0, fp, s)" by simp
    from d_fread_end [where lay = lay, OF assms(4,5) this] show ?thesis by blast
  next
    case False
    with d_fread_send [where lay = lay, OF assms(4,5) f] show ?thesis by blast
  qed
qed

lemma write_moves:
  assumes "kernel_laws K" "kernel_serves K N" "dev_inv lay c" "write_fits N c" "dthr c i = Some t"
    "dphase t = Writing p (b # bs)"
  shows "\<exists>c'. dev_step K L lay c c'"
proof -
  from write_granted [OF assms(1-6)] d_sys_write [OF assms(5,6)] show ?thesis by blast
qed

lemma dev_step_exists:
  assumes "conn_step L (abs_conns c) a" "kernel_laws K" "kernel_serves K N" "dev_inv lay c" "write_fits N c"
  shows "\<exists>c'. dev_step K L lay c c'"
  using assms(1)
proof cases
  case (wrlock i u p ps)
  from abs_thrE [OF wrlock(2)] wrlock(3-) show ?thesis by (metis d_wrlock abs_sel(1,2,6,7))
next
  case (seek i u p seekto)
  from seek(2) obtain t where t: "dthr c i = Some t" "u = abs_thread t" by (rule abs_thrE)
  from dev_ioctl_ok [OF kernel_lawsD(2,3) [OF assms(2)] assms(3) dev_inv_ready [OF assms(4) t(1)],
      of "seek_arg (lay i)" seekto]
  obtain f s where f: "dev_ioctl_seekto K (seek_arg (lay i)) seekto (kfile_of (dfile t)) (dkst c) = Inr (f, s)"
    by blast
  have "dphase t = Locked p" using seek(3) t(2) by simp
  from d_seek [where lay = lay, OF t(1) this seek(4) f] show ?thesis by blast
next
  case (fwrite i u p)
  from abs_thrE [OF fwrite(2)] fwrite(3-) show ?thesis by (metis d_fwrite abs_sel(2))
next
  case (sys_write i u p b bs)
  from sys_write(2) obtain t where "dthr c i = Some t" "u = abs_thread t" by (rule abs_thrE)
  with sys_write(3) write_moves [OF assms(2-5)] show ?thesis by simp
next
  case (fflush i u p)
  from abs_thrE [OF fflush(2)] fflush(3-) show ?thesis by (metis d_fflush abs_sel(2))
next
  case (wrunlock i u p)
  from abs_thrE [OF wrunlock(2)] wrunlock(3-) show ?thesis by (metis d_wrunlock abs_sel(2))
next
  case (rdlock i u)
  from abs_thrE [OF rdlock(2)] rdlock(3-) show ?thesis by (metis d_rdlock abs_sel(2,6))
next
  case (fread_send i u f0 r0 bs f)
  from fread_send(2) obtain t where "dthr c i = Some t" "u = abs_thread t" by (rule abs_thrE)
  with fread_send(3) fread_moves [OF assms(2-4)] show ?thesis by simp
next
  case (fread_end i u f0 r0 f)
  from fread_end(2) obtain t where "dthr c i = Some t" "u = abs_thread t" by (rule abs_thrE)
  with fread_end(3) fread_moves [OF assms(2-4)] show ?thesis by simp
next
  case (rdunlock i u f0 r0)
  from abs_thrE [OF rdunlock(2)] rdunlock(3-) show ?thesis by (metis d_rdunlock abs_sel(2))
qed

text \<open>What is written always fits when the kernel can hold the unfinished line and one more packet.\<close>

lemma committed_lines:
  assumes "conn_reach L d P c" "libc_laws L" "\<forall>ps \<in> ran P. \<forall>p \<in> set ps. is_line p"
  shows "\<forall>(i, p) \<in> set (committed c). is_line p"
  using assms(1)
proof (induction rule: rtranclp_induct)
  case base
  then show ?case by (simp add: conns_start_def)
next
  case (step c c')
  note inv = conn_reach_inv [OF step(1) assms(2,3)]
  have "is_line p" if "thr c i = Some t" "phase t = Stored p" for i t p
    using conn_invD(2) [OF inv that(1)] that(2) assms(3) ranI [of P i] by (auto simp: thread_inv_def)
  with step(2,3) show ?case by cases (auto simp: upd_def)
qed

lemma serial_pending:
  "\<forall>(i, p) \<in> set h. is_line p \<Longrightarrow> length (pending (serial d h)) \<le> length (pending d)"
proof (induction h rule: rev_induct)
  case (snoc x h)
  obtain i p where "x = (i, p)" by force
  with snoc show ?case by (auto simp: serial_snoc store_packet_def spec_write_def is_line_def)
qed (simp add: serial_def)

lemma fold_spec_write_pending:
  "length (pending (fold spec_write ws d)) \<le> length (pending d) + length (concat ws)"
proof (induction ws arbitrary: d)
  case (Cons w ws)
  from Cons [of "spec_write w d"] spec_write_pending [of w d] show ?case by simp
qed simp

lemma reach_write_fits:
  assumes "conn_reach L d P (abs_conns c)" "libc_laws L" "\<forall>ps \<in> ran P. \<forall>p \<in> set ps. is_line p"
    "\<forall>ps \<in> ran P. \<forall>p \<in> set ps. length (pending d) + length p \<le> N"
  shows "write_fits N c"
  unfolding write_fits_def
proof (intro allI impI)
  fix i t p b bs assume t: "dthr c i = Some t" "dphase t = Writing p (b # bs)"
  let ?base = "serial d (dcommitted c)"
  note v = conn_invD(2) [OF conn_reach_inv [OF assms(1-3)] abs_thr [OF t(1)], unfolded thread_inv_def]
  from v t(2) obtain as where a: "stdio_split L p = as @ b # bs" "drv_spec (dkst c) = fold spec_write as ?base"
    by auto
  have "concat (stdio_split L p) = p" using assms(2) by (simp add: libc_laws_def)
  then have p: "length (concat as) + length b \<le> length p" using a(1) by auto
  have "length (pending ?base) \<le> length (pending d)"
    using serial_pending committed_lines [OF assms(1-3)] by simp
  moreover have "length (pending d) + length p \<le> N"
    using v t(2) assms(4) ranI [of P i] by auto
  ultimately show "length (pending (drv_spec (dkst c))) + length b \<le> N"
    using fold_spec_write_pending [of as ?base] p by (simp add: a(2))
qed

section \<open>Every run\<close>

text \<open>So every run on the driver is, seen through the abstraction, a run of the abstract system.\<close>

definition dev_reach ::
  "kernel \<Rightarrow> libc \<Rightarrow> (nat \<Rightarrow> layout) \<Rightarrow> kstate \<Rightarrow> (nat \<rightharpoonup> byte list list) \<Rightarrow> dev_conns \<Rightarrow> bool" where
  "dev_reach K L lay s P c \<longleftrightarrow> (dev_step K L lay)\<^sup>*\<^sup>* (dev_conns_start s P) c"

text \<open>The driver is idle at the start, and each connection has its reply buffer mapped.\<close>

definition dev_boot :: "(nat \<Rightarrow> layout) \<Rightarrow> kstate \<Rightarrow> (nat \<rightharpoonup> byte list list) \<Rightarrow> bool" where
  "dev_boot lay s P \<longleftrightarrow> drv_inv s \<and> lock (aesd_device s) = \<lparr>readers = 0, writer = False\<rparr> \<and>
     (\<forall>i \<in> dom P. mapped (usermem s) (reply_buf (lay i)) BUFFER_SIZE)"

lemma dev_reach_simulates:
  assumes "dev_reach K L lay s P c" "kernel_laws K" "kernel_serves K N" "libc_laws L" "dev_boot lay s P"
    "\<forall>ps \<in> ran P. \<forall>p \<in> set ps. is_line p"
    "\<forall>ps \<in> ran P. \<forall>p \<in> set ps. length (pending (drv_spec s)) + length p \<le> N"
  shows "conn_reach L (drv_spec s) P (abs_conns c) \<and> dev_inv lay c"
  using assms(1) unfolding dev_reach_def
proof (induction rule: rtranclp_induct)
  case base
  show ?case using dev_inv_start [of s P lay] assms(5) by (simp add: abs_start dev_boot_def)
next
  case (step c c')
  then have "write_fits N c" using reach_write_fits [OF _ assms(4,6,7)] by blast
  with step dev_step_simulates [OF step(2) assms(2,3)] show ?case by (auto intro: rtranclp.rtrancl_into_rtrancl)
qed

section \<open>Correctness of the whole system\<close>

text \<open>
  C5: connection threads that share the character device, interleaved in any
  way their lock allows, leave the driver well-formed, as long as the kernel grants the locks, the
  memory accesses and allocations for the unfinished line and one more packet (a write it refused
  would be lost, since its result is not looked at). Whenever no thread holds the write lock, the
  driver holds exactly what the packets handled so far, stored one after the other, leave in it; each
  connection's packets are handled in the order they came, none lost and none twice. And a thread
  that has sent its reply has sent the driver's contents, from its own file position on, as all the
  packets handled so far have left them, its own among them.
\<close>

theorem concurrent_over_driver:
  assumes "dev_reach K L lay s P c" "kernel_laws K" "kernel_serves K N" "libc_laws L" "dev_boot lay s P"
    "\<forall>ps \<in> ran P. \<forall>p \<in> set ps. is_line p"
    "\<forall>ps \<in> ran P. \<forall>p \<in> set ps. length (pending (drv_spec s)) + length p \<le> N"
  shows "drv_inv (dkst c) \<and>
    (dwriter c = None \<longrightarrow> drv_spec (dkst c) = serial (drv_spec s) (dcommitted c) \<and>
      (\<forall>i ps. P i = Some ps \<longrightarrow> (\<exists>t. dthr c i = Some t \<and> ps = handled i (dcommitted c) @ dtodo t))) \<and>
    (\<forall>i t f r. dthr c i = Some t \<longrightarrow> dphase t = Answered f r \<longrightarrow>
      dreplied t = r @ (if file_eof f then [] else drop (file_pos f) (spec_contents (drv_spec (dkst c)))) \<and>
      drv_spec (dkst c) = serial (drv_spec s) (dcommitted c) \<and> handled i (dcommitted c) \<noteq> [])"
proof -
  from dev_reach_simulates [OF assms(1-7)] have
    r: "conn_reach L (drv_spec s) P (abs_conns c)" and inv: "dev_inv lay c" by blast+
  have ser: "drv_spec (dkst c) = serial (drv_spec s) (dcommitted c) \<and>
      (\<forall>i ps. P i = Some ps \<longrightarrow> (\<exists>t. dthr c i = Some t \<and> ps = handled i (dcommitted c) @ dtodo t))"
    if "dwriter c = None"
    using conn_serial_ok [OF r assms(4,6)] that by simp (metis abs_sel(1) abs_thrE)
  have snap: "dreplied t = r @ (if file_eof f then [] else drop (file_pos f) (spec_contents (drv_spec (dkst c)))) \<and>
      drv_spec (dkst c) = serial (drv_spec s) (dcommitted c) \<and> handled i (dcommitted c) \<noteq> []"
    if "dthr c i = Some t" "dphase t = Answered f r" for i t f r
    using conn_snapshot_ok [OF r assms(4,6) abs_thr [OF that(1)], of f r] that(2) by simp
  from inv ser snap show ?thesis by (simp add: dev_inv_def)
qed

text \<open>The loss: after a refused write the packet counts as handled, and the device has not changed.\<close>

lemma refused_write_lost:
  assumes "kernel_laws K" "dev_inv lay c" "dthr c i = Some t" "dphase t = Writing p (b # bs)" "length b < 2 ^ 64"
    and w: "aesd_write K (kfile_of (dfile t)) (flat_buf (lay i)) (of_nat (length b)) (f_pos (kfile_of (dfile t)))
      (put_user (flat_buf (lay i)) b (dkst c)) = Inr (r, pos, s)" "r \<noteq> int (length b)"
  shows "\<exists>c' t'. (dev_step K L lay)\<^sup>*\<^sup>* c c' \<and> dthr c' i = Some t' \<and> dphase t' = Answering \<and>
    dcommitted c' = dcommitted c @ [(i, p)] \<and> drv_spec (dkst c') = drv_spec (dkst c)"
proof -
  let ?s = "put_user (flat_buf (lay i)) b (dkst c)" and ?n = "of_nat (length b) :: size_t"
  let ?t = "t\<lparr>dphase := Stored p, dfile := (dfile t)\<lparr>kfile_of := (kfile_of (dfile t))\<lparr>f_pos := pos\<rparr>\<rparr>\<rparr>"
  let ?c1 = "dupd i ?t (c\<lparr>dkst := s\<rparr>)"
  have rd: "drv_inv ?s" "private_data (kfile_of (dfile t)) \<noteq> Null_Dev"
    using dev_inv_ready [OF assms(2,3)] by (simp_all add: dev_ready_def)
  have "write_result (usermem ?s) (flat_buf (lay i)) ?n (drv_spec ?s) r (drv_spec s)"
    by (rule aesd_write_ok [OF kernel_lawsD(1-3) [OF assms(1)] rd, of "flat_buf (lay i)" ?n "f_pos (kfile_of (dfile t))"])
      (use w(1) in auto)
  moreover have "unat ?n = length b" using assms(5) by (simp add: unat_of_nat)
  ultimately have d: "drv_spec s = drv_spec (dkst c)" using w(2) by (auto simp: write_result_def)
  have 1: "dev_step K L lay c ?c1" using d_write_refused [where lay = lay, OF assms(3,4) w] .
  define c2 where "c2 = dupd i (?t\<lparr>dphase := Answering\<rparr>)
    (?c1\<lparr>dwriter := None, dcommitted := dcommitted ?c1 @ [(i, p)]\<rparr>)"
  have "dev_step K L lay ?c1 c2" unfolding c2_def by (rule d_wrunlock) (simp_all add: dupd_def)
  with 1 have "(dev_step K L lay)\<^sup>*\<^sup>* c c2" by simp
  moreover have "dthr c2 i = Some (?t\<lparr>dphase := Answering\<rparr>)" "dcommitted c2 = dcommitted c @ [(i, p)]"
    "drv_spec (dkst c2) = drv_spec (dkst c)" by (simp_all add: c2_def dupd_def d)
  ultimately show ?thesis by (intro exI [of _ c2] exI [of _ "?t\<lparr>dphase := Answering\<rparr>"]) simp
qed

lemma boot_example: "dev_boot (\<lambda>i. dev_example_layout) dev_example P"
  using dev_example_ready by (simp add: dev_boot_def dev_ready_def)

text \<open>An example run: the first of two connections stores its packet.\<close>

lemma store_run:
  assumes "dthr c i = Some \<lparr>dtodo = [97, 10] # ps, dphase = Idle, dfile = fp, dreplied = r\<rparr>"
    "dwriter c = None" "dreaders c = {}" "dev_inv lay c" "length (pending (drv_spec (dkst c))) + 2 \<le> 4096"
  shows "\<exists>c'. (dev_step demo_kernel demo_libc lay)\<^sup>*\<^sup>* c c' \<and> dwriter c' = None \<and>
    dcommitted c' = dcommitted c @ [(i, [97, 10])]"
proof -
  let ?S = "dev_step demo_kernel demo_libc lay" and ?p = "[97, 10] :: byte list"
  let ?t = "\<lambda>ph. \<lparr>dtodo = ps, dphase = ph, dfile = fp, dreplied = r\<rparr>"
  let ?c1 = "dupd i (?t (Locked ?p)) (c\<lparr>dwriter := Some i\<rparr>)"
  let ?c2 = "dupd i (?t (Writing ?p [?p])) ?c1"
  have "dev_ready (lay i) fp (dkst c)" using dev_inv_ready [OF assms(4,1)] by simp
  with dev_write_ok [OF kernel_lawsD(1-3) [OF demo_kernel_laws] demo_kernel_serves, of "dkst c" "kfile_of fp" ?p
      "flat_buf (lay i)"] assms(5)
  obtain s where s: "aesd_write demo_kernel (kfile_of fp) (flat_buf (lay i)) (of_nat (length ?p)) (f_pos (kfile_of fp))
      (put_user (flat_buf (lay i)) ?p (dkst c)) = Inr (int (length ?p), f_pos (kfile_of fp), s)"
    by (auto simp: dev_ready_def)
  let ?c3 = "dupd i (?t (Writing ?p [])) (?c2\<lparr>dkst := s\<rparr>)"
  let ?c4 = "dupd i (?t (Stored ?p)) ?c3"
  let ?c5 = "dupd i (?t Answering) (?c4\<lparr>dwriter := None, dcommitted := dcommitted ?c4 @ [(i, ?p)]\<rparr>)"
  have pp: "fst (packet_params ?p) \<noteq> 2"
    by (simp add: packet_params_def sscanf_seekto_def seekto_prefix_def Let_def)
  have "?S c ?c1" using d_wrlock [OF assms(1) _ _ assms(2,3), of ?p ps] by simp
  moreover have "?S ?c1 ?c2"
    using d_fwrite [of ?c1 i "?t (Locked ?p)" ?p demo_kernel demo_libc] pp by (simp add: dupd_def demo_libc_def)
  moreover have "?S ?c2 ?c3"
    using d_sys_write [where lay = lay and c = ?c2 and i = i and t = "?t (Writing ?p [?p])" and p = ?p and b = ?p
        and bs = "[]" and K = demo_kernel and L = demo_libc and pos = "f_pos (kfile_of fp)" and s = s] s
    by (simp add: dupd_def)
  moreover have "?S ?c3 ?c4" using d_fflush [of ?c3 i "?t (Writing ?p [])" ?p] by (simp add: dupd_def)
  moreover have "?S ?c4 ?c5" using d_wrunlock [of ?c4 i "?t (Stored ?p)" ?p] by (simp add: dupd_def)
  ultimately have "?S\<^sup>*\<^sup>* c ?c5" by (meson converse_rtranclp_into_rtranclp rtranclp.rtrancl_refl)
  then show ?thesis by (intro exI [of _ ?c5]) (simp add: dupd_def)
qed

theorem concurrent_over_driver_witness:
  "\<exists>c. dev_reach demo_kernel demo_libc (\<lambda>i. dev_example_layout) dev_example
       [1 \<mapsto> [[97, 10]], 2 \<mapsto> [[98, 10]]] c \<and> dcommitted c = [(1, [97, 10])] \<and>
     drv_spec (dkst c) = \<lparr>commands = [[104, 10], [97, 97, 10]], pending = []\<rparr>"
proof -
  let ?P = "[1 \<mapsto> [[97, 10]], 2 \<mapsto> [[98, 10]]] :: nat \<rightharpoonup> byte list list"
  let ?lay = "\<lambda>i :: nat. dev_example_layout" and ?c = "dev_conns_start dev_example ?P"
  have "dev_inv ?lay ?c" using boot_example [of ?P] by (intro dev_inv_start) (auto simp: dev_boot_def)
  with store_run [of ?c 1 "[]" opened_file "[]" ?lay] obtain c where c: "dev_reach demo_kernel demo_libc ?lay dev_example ?P c"
    "dwriter c = None" "dcommitted c = [(1, [97, 10])]"
    unfolding dev_reach_def by (auto simp: dev_conns_start_def dev_example_spec)
  have l: "\<forall>ps \<in> ran ?P. \<forall>p \<in> set ps. is_line p" using line_ab by (auto simp: ran_def)
  have n: "\<forall>ps \<in> ran ?P. \<forall>p \<in> set ps. length (pending (drv_spec dev_example)) + length p \<le> 4096"
    by (auto simp: ran_def dev_example_spec)
  from concurrent_over_driver [OF c(1) demo_kernel_laws demo_kernel_serves demo_libc_laws boot_example l n] c(2,3)
  have "drv_spec (dkst c) = serial (drv_spec dev_example) [(1, [97, 10])]" by simp
  then show ?thesis using c(1,3)
    by (auto simp: serial_def store_packet_def packet_params_def sscanf_seekto_def seekto_prefix_def Let_def
        dev_example_spec spec_write_def log_push_def)
qed

text \<open>
  C8: while some thread has work left, some thread can take its next step:
  the server's lock, the driver's own lock and the kernel's allocations never bring the system to a
  stop, as long as the kernel grants the locks, the memory accesses and allocations for the
  unfinished line and one more packet.
\<close>

theorem concurrent_no_deadlock:
  assumes "dev_reach K L lay s P c" "kernel_laws K" "kernel_serves K N" "libc_laws L" "dev_boot lay s P"
    "\<forall>ps \<in> ran P. \<forall>p \<in> set ps. is_line p"
    "\<forall>ps \<in> ran P. \<forall>p \<in> set ps. length (pending (drv_spec s)) + length p \<le> N"
    "dthr c i = Some t" "dphase t \<noteq> Idle \<or> dtodo t \<noteq> []"
  shows "\<exists>c'. dev_step K L lay c c'"
proof -
  from dev_reach_simulates [OF assms(1-7)] have
    r: "conn_reach L (drv_spec s) P (abs_conns c)" and inv: "dev_inv lay c" by blast+
  have "\<not> finished (abs_conns c)" using assms(9) abs_thr [OF assms(8)] unfolding finished_def by fastforce
  with conn_progress [OF conn_reach_inv [OF r assms(4,6)]] obtain a where "conn_step L (abs_conns c) a" by blast
  then show ?thesis using assms(2,3) inv reach_write_fits [OF r assms(4,6,7)] by (rule dev_step_exists)
qed

theorem concurrent_no_deadlock_witness:
  "\<exists>c'. dev_step demo_kernel demo_libc (\<lambda>i. dev_example_layout)
     (dev_conns_start dev_example [1 \<mapsto> [[97, 10]], 2 \<mapsto> [[98, 10]]]) c'"
proof (rule concurrent_no_deadlock)
  let ?P = "[1 \<mapsto> [[97, 10]], 2 \<mapsto> [[98, 10]]] :: nat \<rightharpoonup> byte list list"
  show "dev_reach demo_kernel demo_libc (\<lambda>i. dev_example_layout) dev_example ?P (dev_conns_start dev_example ?P)"
    by (simp add: dev_reach_def)
  show "\<forall>ps \<in> ran ?P. \<forall>p \<in> set ps. is_line p" using line_ab by (auto simp: ran_def)
  show "\<forall>ps \<in> ran ?P. \<forall>p \<in> set ps. length (pending (drv_spec dev_example)) + length p \<le> 4096"
    by (auto simp: ran_def dev_example_spec)
  let ?t = "\<lparr>dtodo = [[97, 10]], dphase = Idle, dfile = opened_file, dreplied = []\<rparr>"
  show "dthr (dev_conns_start dev_example ?P) 1 = Some ?t" by (simp add: dev_conns_start_def)
  show "dphase ?t \<noteq> Idle \<or> dtodo ?t \<noteq> []" by simp
qed (rule demo_kernel_laws demo_kernel_serves demo_libc_laws boot_example)+

end
