(* ===== verification/Plain_File.thy ===== *)
theory Plain_File
  imports Client_Spec
begin

text \<open>
  The other build of the server (\<open>USE_AESD_CHAR_DEVICE\<close> is 0): the data file is an ordinary
  file opened with mode \<open>a+\<close>, so that reading starts at its beginning and every write goes to
  its end. After writing a packet the server rewinds the stream, which also clears the
  end-of-file indicator. An ordinary file does not know \<open>AESDCHAR_IOCSEEKTO\<close>: the call fails and
  its result is ignored. The file system takes every write; packets it refuses are left out.
\<close>

section \<open>The file\<close>

definition plain_fread :: "byte list \<Rightarrow> nat \<Rightarrow> stream \<Rightarrow> byte list \<times> stream" where
  "plain_fread data n f =
     (if file_eof f then ([], f)
      else let bs = take n (drop (file_pos f) data)
           in (bs, \<lparr>file_pos = file_pos f + length bs, file_eof = length bs < n\<rparr>))"

definition plain_rewind :: "stream \<Rightarrow> stream" where
  "plain_rewind f = \<lparr>file_pos = 0, file_eof = False\<rparr>"

section \<open>Handling a packet\<close>

text \<open>The part of \<open>write_new_packet\<close> under the lock, with the \<open>fseek\<close> of this build.\<close>

definition plain_write_locked :: "byte list \<Rightarrow> byte list \<Rightarrow> stream \<Rightarrow> byte list \<times> stream" where
  "plain_write_locked flat_data data f =
     (case packet_params flat_data of (params, seekto) \<Rightarrow>
        if params = 2 then (data, f)
        else let written = f\<lparr>file_pos := length data + length flat_data\<rparr>
             in (data @ flat_data, plain_rewind written))"

function plain_reply_loop :: "byte list \<Rightarrow> stream \<Rightarrow> byte list list \<Rightarrow> byte list list \<times> stream" where
  "plain_reply_loop data f acc =
     (let bs = fst (plain_fread data BUFFER_SIZE f); f' = snd (plain_fread data BUFFER_SIZE f) in
      if bs = [] then (acc, f') else plain_reply_loop data f' (acc @ [bs]))"
  by auto
termination
proof (relation "measure (\<lambda>(data, f, acc). length data - file_pos f)")
  fix data :: "byte list" and f :: stream and acc :: "byte list list" and bs f'
  assume "bs = fst (plain_fread data BUFFER_SIZE f)" "f' = snd (plain_fread data BUFFER_SIZE f)" "bs \<noteq> []"
  then show "((data, f', acc @ [bs]), data, f, acc) \<in> measure (\<lambda>(data, f, acc). length data - file_pos f)"
    by (auto simp: plain_fread_def Let_def split: if_splits intro!: diff_less_mono2)
qed simp

declare plain_reply_loop.simps [simp del]

definition plain_packet :: "byte list \<Rightarrow> byte list \<Rightarrow> stream \<Rightarrow> byte list \<times> byte list \<times> stream" where
  "plain_packet pkt data f =
     (case plain_write_locked pkt data f of (data1, f1) \<Rightarrow>
      case plain_reply_loop data1 f1 [] of (bufs, f2) \<Rightarrow> (concat bufs, data1, f2))"

fun plain_session :: "byte list list \<Rightarrow> byte list \<Rightarrow> stream \<Rightarrow> byte list list \<times> byte list \<times> stream" where
  "plain_session [] data f = ([], data, f)"
| "plain_session (p # ps) data f =
     (case plain_packet p data f of (r, data1, f1) \<Rightarrow>
      case plain_session ps data1 f1 of (rs, data2, f2) \<Rightarrow> (r # rs, data2, f2))"

section \<open>What is sent\<close>

text \<open>To the reply loop the file looks like a device that holds its contents.\<close>

lemma plain_fread_eq: "spec_contents d = data \<Longrightarrow> plain_fread data n f = fread d n f"
  by (simp add: plain_fread_def fread_def read_full_eq)

lemma plain_reply_loop_eq: "spec_contents d = data \<Longrightarrow> plain_reply_loop data f acc = reply_loop d f acc"
proof (induction data f acc rule: plain_reply_loop.induct)
  case (1 data f acc)
  then show ?case
    by (subst plain_reply_loop.simps, subst reply_loop.simps) (simp add: plain_fread_eq [OF "1.prems"] Let_def)
qed

text \<open>The end-of-file indicator is set after every reply.\<close>

lemma plain_packet_cases:
  "plain_packet pkt data f =
     (if fst (packet_params pkt) = 2
      then (if file_eof f then [] else drop (file_pos f) data, data, snd (snd (plain_packet pkt data f)))
      else (data @ pkt, data @ pkt, snd (snd (plain_packet pkt data f)))) \<and>
   file_eof (snd (snd (plain_packet pkt data f)))"
proof -
  let ?seek = "fst (packet_params pkt) = 2"
  let ?data = "if ?seek then data else data @ pkt"
  let ?d = "\<lparr>commands = [?data], pending = []\<rparr>" and ?f = "if ?seek then f else \<lparr>file_pos = 0, file_eof = False\<rparr>"
  have c: "spec_contents ?d = ?data" by (simp add: spec_contents_def)
  obtain bufs f' where r: "reply_loop ?d ?f [] = (bufs, f')" by force
  then have "concat bufs = (if file_eof ?f then [] else drop (file_pos ?f) ?data)"
    using reply_loop_eq [of ?f ?d "[]"] reply_loop_eof [of ?f ?d "[]"] c by (cases "file_eof ?f") auto
  moreover have "file_eof f'" using r reply_loop_eq [of ?f ?d "[]"] reply_loop_eof [of ?f ?d "[]"]
    by (cases "file_eof ?f") auto
  ultimately show ?thesis
    using plain_reply_loop_eq [OF c, of ?f "[]"] r
    by (auto simp: plain_packet_def plain_write_locked_def plain_rewind_def split: prod.splits)
qed

section \<open>Properties\<close>

text \<open>
  C29: What a connection sees in the build on an ordinary file, for any sequence of packets. A
  packet that is no seek command is stored at the end of the file and answered with the whole file:
  what it held at the start followed by the packets stored so far, this one included. A seek
  command is not stored, and as nothing rewinds the stream after it, it is answered with nothing,
  or, as first packet of the connection, with the file from the position of the stream on. In the end the
  file holds all packets that are no seek commands, in order. (On the device only the first packet
  of a connection gets a reply, because there the stream is never rewound.)
\<close>

theorem plain_file_replies:
  "\<exists>rs f'. plain_session ps data f = (rs, data @ concat (filter (\<lambda>p. fst (packet_params p) \<noteq> 2) ps), f') \<and>
    length rs = length ps \<and>
    (\<forall>k < length ps. rs ! k =
      (if fst (packet_params (ps ! k)) \<noteq> 2
       then data @ concat (filter (\<lambda>p. fst (packet_params p) \<noteq> 2) (take (Suc k) ps))
       else if k = 0 \<and> \<not> file_eof f then drop (file_pos f) data else []))"
proof (induction ps arbitrary: data f)
  case (Cons p ps)
  let ?seek = "fst (packet_params p) = 2"
  let ?data = "if ?seek then data else data @ p" and ?no = "\<lambda>p. fst (packet_params p) \<noteq> 2"
  let ?r = "if ?seek then if file_eof f then [] else drop (file_pos f) data else data @ p"
  define f1 where "f1 = snd (snd (plain_packet p data f))"
  have p: "plain_packet p data f = (?r, ?data, f1)" "file_eof f1"
    using plain_packet_cases [of p data f] unfolding f1_def by (simp_all split: if_splits)
  from Cons.IH [of ?data f1] obtain rs f2 where
    r: "plain_session ps ?data f1 = (rs, ?data @ concat (filter ?no ps), f2)" "length rs = length ps"
    "\<forall>k < length ps. rs ! k = (if ?no (ps ! k) then ?data @ concat (filter ?no (take (Suc k) ps)) else [])"
    using p(2) by auto
  have "(?r # rs) ! k = (if ?no ((p # ps) ! k) then data @ concat (filter ?no (take (Suc k) (p # ps)))
       else if k = 0 \<and> \<not> file_eof f then drop (file_pos f) data else [])" if "k < length (p # ps)" for k
    using that r(3) by (cases k) auto
  with p(1) r(1,2) show ?case by auto
qed simp

theorem plain_file_replies_witness:
  "\<exists>rs f'. plain_session [[97, 10], [98, 10]] [] \<lparr>file_pos = 0, file_eof = False\<rparr> =
     (rs, [97, 10, 98, 10], f') \<and> rs ! 0 = [97, 10] \<and> rs ! 1 = [97, 10, 98, 10]"
proof -
  have "\<forall>p \<in> set [[97, 10], [98, 10]]. fst (packet_params p) \<noteq> 2"
    by (simp add: packet_params_def sscanf_seekto_def seekto_prefix_def Let_def)
  with plain_file_replies [of "[[97, 10], [98, 10]]" "[]" "\<lparr>file_pos = 0, file_eof = False\<rparr>"]
  show ?thesis by force
qed

end
