(* ===== verification/Queue_Memory.thy ===== *)
theory Queue_Memory
  imports Prelude
begin

text \<open>
  What the four families of macros of \<open>server/queue.h\<close> share: a memory of heads and elements,
  the addresses of pointers in it, the loops of the iteration macros, and the interfaces of a
  queue and of a loop body as locales. The families differ in the heads and the entries of
  their elements, which are type parameters here; a theory per family supplies them.
\<close>

section \<open>Memory\<close>

text \<open>
  The address of a pointer: \<open>NULL\<close>, the address \<open>-1\<close> no object has (which debugging builds store
  in removed elements), the first-pointer of a head, the next-pointer of an element.
\<close>

datatype link = Null_Link | Trash_Link | First_of nat | Next_of addr

record ('h, 'e) queue_mem =
  heads :: "nat \<rightharpoonup> 'h"
  elms :: "addr \<rightharpoonup> 'e"            \<comment> \<open>the \<open>field\<close> member of every live element\<close>

definition head_at :: "('h, 'e) queue_mem \<Rightarrow> nat \<Rightarrow> 'h res" where
  "head_at m h = (case heads m h of None \<Rightarrow> Inl Use_After_Free | Some x \<Rightarrow> Inr x)"

definition elm_at :: "('h, 'e) queue_mem \<Rightarrow> addr \<Rightarrow> 'e res" where
  "elm_at m a = (case elms m a of None \<Rightarrow> Inl Use_After_Free | Some x \<Rightarrow> Inr x)"

definition set_head :: "nat \<Rightarrow> ('h \<Rightarrow> 'h) \<Rightarrow> ('h, 'e) queue_mem \<Rightarrow> ('h, 'e) queue_mem res" where
  "set_head h f m = res_bind (head_at m h) (\<lambda>x. Inr (m\<lparr>heads := (heads m)(h \<mapsto> f x)\<rparr>))"

definition set_elm :: "addr \<Rightarrow> ('e \<Rightarrow> 'e) \<Rightarrow> ('h, 'e) queue_mem \<Rightarrow> ('h, 'e) queue_mem res" where
  "set_elm a f m = res_bind (elm_at m a) (\<lambda>x. Inr (m\<lparr>elms := (elms m)(a \<mapsto> f x)\<rparr>))"

lemma link_simps [simp]:
  "heads m h = Some x \<Longrightarrow> head_at m h = Inr x"
  "elms m a = Some e \<Longrightarrow> elm_at m a = Inr e"
  "heads m h = Some x \<Longrightarrow> set_head h f m = Inr (m\<lparr>heads := (heads m)(h \<mapsto> f x)\<rparr>)"
  "elms m a = Some e \<Longrightarrow> set_elm a g m = Inr (m\<lparr>elms := (elms m)(a \<mapsto> g e)\<rparr>)"
  by (simp_all add: head_at_def elm_at_def set_head_def set_elm_def)

section \<open>Chains\<close>

text \<open>The first element of a chain that ends in \<open>n\<close>, and the address of its last pointer.\<close>

definition hd_or :: "addr list \<Rightarrow> ptr \<Rightarrow> ptr" where
  "hd_or xs n = (case xs of [] \<Rightarrow> n | x # _ \<Rightarrow> Some x)"

definition last_link :: "link \<Rightarrow> addr list \<Rightarrow> link" where
  "last_link l xs = (if xs = [] then l else Next_of (last xs))"

lemma hd_or_simps [simp]: "hd_or [] n = n" "hd_or (x # xs) n = Some x"
  "hd_or (xs @ ys) n = hd_or xs (hd_or ys n)"
  by (simp_all add: hd_or_def split: list.split)

lemma last_link_simps [simp]: "last_link l [] = l" "last_link l (xs @ [x]) = Next_of x"
  "last_link l (x # xs) = last_link (Next_of x) xs"
  by (simp_all add: last_link_def)

lemma hd_or_rev: "hd_or (rev xs) NULL = (if xs = [] then NULL else Some (last xs))"
  by (cases xs rule: rev_cases) simp_all

lemma hd_or_NULL [simp]: "hd_or xs NULL = NULL \<longleftrightarrow> xs = []"
  by (cases xs) simp_all

text \<open>An operation on queue \<open>h\<close> that touches the elements in \<open>S\<close> only.\<close>

definition q_frame :: "nat \<Rightarrow> addr set \<Rightarrow> ('h, 'e) queue_mem \<Rightarrow> ('h, 'e) queue_mem \<Rightarrow> bool" where
  "q_frame h S m m' \<longleftrightarrow>
     (\<forall>k. k \<noteq> h \<longrightarrow> heads m' k = heads m k) \<and> (\<forall>a. a \<notin> S \<longrightarrow> elms m' a = elms m a) \<and>
     dom (elms m') = dom (elms m)"

lemma q_frame_intro:
  assumes "\<And>k. k \<noteq> h \<Longrightarrow> heads m' k = heads m k" "\<And>a. a \<notin> S \<Longrightarrow> elms m' a = elms m a"
    "S \<subseteq> dom (elms m)" "S \<subseteq> dom (elms m')"
  shows "q_frame h S m m'"
proof -
  have "a \<in> dom (elms m') \<longleftrightarrow> a \<in> dom (elms m)" for a
    using assms(2-4) by (cases "a \<in> S") auto
  then have "dom (elms m') = dom (elms m)" by (rule set_eqI)
  with assms(1,2) show ?thesis by (simp add: q_frame_def)
qed

text \<open>\<open>*l\<close> and \<open>*l = p\<close>, given how to read and write the pointers of a head and of an entry.\<close>

definition load_ptr :: "('h \<Rightarrow> ptr) \<Rightarrow> ('e \<Rightarrow> ptr) \<Rightarrow> link \<Rightarrow> ('h, 'e) queue_mem \<Rightarrow> ptr res" where
  "load_ptr first nx l m =
     (case l of Null_Link \<Rightarrow> Inl Null_Deref | Trash_Link \<Rightarrow> Inl Use_After_Free
      | First_of h \<Rightarrow> res_bind (head_at m h) (\<lambda>x. Inr (first x))
      | Next_of a \<Rightarrow> res_bind (elm_at m a) (\<lambda>x. Inr (nx x)))"

definition store_ptr ::
  "(ptr \<Rightarrow> 'h \<Rightarrow> 'h) \<Rightarrow> (ptr \<Rightarrow> 'e \<Rightarrow> 'e) \<Rightarrow> link \<Rightarrow> ptr \<Rightarrow> ('h, 'e) queue_mem \<Rightarrow> ('h, 'e) queue_mem res" where
  "store_ptr set_first set_nx l p m =
     (case l of Null_Link \<Rightarrow> Inl Null_Deref | Trash_Link \<Rightarrow> Inl Use_After_Free
      | First_of h \<Rightarrow> set_head h (set_first p) m
      | Next_of a \<Rightarrow> set_elm a (set_nx p) m)"

text \<open>\<open>__containerof(l, type, field.next)\<close>: the element whose next-pointer is at \<open>l\<close>.\<close>

definition container_of :: "link \<Rightarrow> addr res" where
  "container_of l = (case l of Next_of a \<Rightarrow> Inr a | _ \<Rightarrow> Inl Out_Of_Bounds)"

lemma container_of_simps [simp]: "container_of (Next_of a) = Inr a"
  by (simp add: container_of_def)

text \<open>A singly linked chain: every element points to the next one, the last to \<open>n\<close>.\<close>

fun chain :: "('e \<Rightarrow> ptr) \<Rightarrow> (addr \<rightharpoonup> 'e) \<Rightarrow> addr list \<Rightarrow> ptr \<Rightarrow> bool" where
  "chain nx E [] n = True"
| "chain nx E (x # xs) n = (map_option nx (E x) = Some (hd_or xs n) \<and> chain nx E xs n)"

lemma chain_append [simp]: "chain nx E (xs @ ys) n \<longleftrightarrow> chain nx E xs (hd_or ys n) \<and> chain nx E ys n"
  by (induction xs) auto

lemma chain_cong: "(\<And>x. x \<in> set xs \<Longrightarrow> E' x = E x) \<Longrightarrow> chain nx E' xs n = chain nx E xs n"
  by (induction xs) auto

lemma chain_upd [simp]: "a \<notin> set xs \<Longrightarrow> chain nx (E(a := e)) xs n = chain nx E xs n"
  by (rule chain_cong) auto

lemma chain_live: "chain nx E xs n \<Longrightarrow> set xs \<subseteq> dom E"
  by (induction xs) auto

lemma chain_elem: "chain nx E (ys @ x # zs) n \<Longrightarrow> \<exists>e. E x = Some e \<and> nx e = hd_or zs n"
  by auto

section \<open>Iteration\<close>

text \<open>
  The loops of the iteration macros, for at most \<open>n\<close> rounds: \<open>FOREACH\<close> reads the successor
  after the body, \<open>FOREACH_SAFE\<close> before it. The \<open>FROM\<close> variants start at \<open>var\<close> when it is not
  null.
\<close>

fun foreach_from ::
  "(addr \<Rightarrow> 'm \<Rightarrow> ptr res) \<Rightarrow> (addr \<Rightarrow> 'm \<Rightarrow> 'm res) \<Rightarrow> nat \<Rightarrow> ptr \<Rightarrow> 'm \<Rightarrow> 'm res" where
  "foreach_from nxt body n None m = Inr m"
| "foreach_from nxt body 0 (Some x) m = Inl No_Return"
| "foreach_from nxt body (Suc n) (Some x) m =
     res_bind (body x m) (\<lambda>m'. res_bind (nxt x m') (\<lambda>p. foreach_from nxt body n p m'))"

fun foreach_safe_from ::
  "(addr \<Rightarrow> 'm \<Rightarrow> ptr res) \<Rightarrow> (addr \<Rightarrow> 'm \<Rightarrow> 'm res) \<Rightarrow> nat \<Rightarrow> ptr \<Rightarrow> 'm \<Rightarrow> 'm res" where
  "foreach_safe_from nxt body n None m = Inr m"
| "foreach_safe_from nxt body 0 (Some x) m = Inl No_Return"
| "foreach_safe_from nxt body (Suc n) (Some x) m =
     res_bind (nxt x m) (\<lambda>tvar. res_bind (body x m) (\<lambda>m'. foreach_safe_from nxt body n tvar m'))"

definition start_at :: "('m \<Rightarrow> ptr res) \<Rightarrow> ptr \<Rightarrow> 'm \<Rightarrow> ptr res" where
  "start_at first var m = (case var of Some x \<Rightarrow> Inr (Some x) | None \<Rightarrow> first m)"

text \<open>A body run on the elements of a list in order, until it fails.\<close>

fun fold_res :: "(addr \<Rightarrow> 'm \<Rightarrow> 'm res) \<Rightarrow> addr list \<Rightarrow> 'm \<Rightarrow> 'm res" where
  "fold_res body [] m = Inr m"
| "fold_res body (x # xs) m = res_bind (body x m) (fold_res body xs)"

text \<open>A body that works on the user's part of the state only.\<close>

definition user_body :: "(addr \<Rightarrow> 's \<Rightarrow> 's res) \<Rightarrow> addr \<Rightarrow> 'm \<times> 's \<Rightarrow> ('m \<times> 's) res" where
  "user_body f x = (\<lambda>(m, s). res_bind (f x s) (\<lambda>s'. Inr (m, s')))"

lemma fold_user_body: "fold_res (user_body f) xs (m, s) = res_bind (fold_res f xs s) (\<lambda>s'. Inr (m, s'))"
proof (induction xs arbitrary: s)
  case (Cons x xs)
  then show ?case by (cases "f x s") (simp_all add: user_body_def)
qed simp

text \<open>
  The search for the element before \<open>elm\<close> and for the last element, with \<open>curelm\<close> as the
  running pointer.
\<close>

fun find_prev :: "(addr \<Rightarrow> 'm \<Rightarrow> ptr res) \<Rightarrow> nat \<Rightarrow> addr \<Rightarrow> ptr \<Rightarrow> 'm \<Rightarrow> addr res" where
  "find_prev nxt 0 elm curelm m = Inl No_Return"
| "find_prev nxt (Suc n) elm curelm m =
     res_bind (deref curelm) (\<lambda>c. res_bind (nxt c m) (\<lambda>p.
       if p = Some elm then Inr c else find_prev nxt n elm p m))"

fun find_last :: "(addr \<Rightarrow> 'm \<Rightarrow> ptr res) \<Rightarrow> nat \<Rightarrow> ptr \<Rightarrow> 'm \<Rightarrow> addr res" where
  "find_last nxt 0 curelm m = Inl No_Return"
| "find_last nxt (Suc n) curelm m =
     res_bind (deref curelm) (\<lambda>c. res_bind (nxt c m) (\<lambda>p.
       if p = NULL then Inr c else find_last nxt n p m))"

section \<open>The interfaces\<close>

text \<open>A structure whose elements can be visited in order.\<close>

locale walk =
  fixes rep :: "'m \<Rightarrow> addr list \<Rightarrow> bool"
    and first :: "'m \<Rightarrow> ptr res"
    and nxt :: "addr \<Rightarrow> 'm \<Rightarrow> ptr res"
  assumes rep_distinct: "rep m xs \<Longrightarrow> distinct xs"
    and walk_first: "rep m xs \<Longrightarrow> first m = Inr (hd_or xs NULL)"
    and walk_next: "rep m (ys @ x # zs) \<Longrightarrow> nxt x m = Inr (hd_or zs NULL)"
begin

text \<open>Both searches end, after at most as many rounds as there are elements.\<close>

lemma find_prev_ok:
  assumes "rep m (ys @ y # x # zs)" "length ys < n"
  shows "find_prev nxt n x (hd_or ys (Some y)) m = Inr y"
proof -
  have "find_prev nxt n x (hd_or vs (Some y)) m = Inr y"
    if "ys = us @ vs" "length vs < n" for us vs
    using that
  proof (induction vs arbitrary: us n)
    case Nil
    with assms(1) walk_next [of m ys y "x # zs"] show ?case by (cases n) auto
  next
    case (Cons v vs)
    from Cons.prems obtain k where k: "n = Suc k" "length vs < k" by (cases n) auto
    have "nxt v m = Inr (hd_or vs (Some y))"
      using walk_next [of m us v "vs @ y # x # zs"] assms(1) Cons.prems(1) by simp
    moreover have "hd_or vs (Some y) \<noteq> Some x"
      using rep_distinct [OF assms(1)] Cons.prems(1) by (cases vs) auto
    ultimately show ?case using Cons.IH [of "us @ [v]" k] Cons.prems(1) k by simp
  qed
  from this [of "[]" ys] assms(2) show ?thesis by simp
qed

text \<open>Searching for an element that is not there runs off the end of the chain.\<close>

lemma find_prev_absent:
  assumes "rep m xs" "x \<notin> set xs" "length xs < n"
  shows "find_prev nxt n x (hd_or xs NULL) m = Inl Null_Deref"
proof -
  have "find_prev nxt n x (hd_or vs NULL) m = Inl Null_Deref" if "xs = us @ vs" "length vs < n" for us vs
    using that
  proof (induction vs arbitrary: us n)
    case Nil
    then show ?case by (cases n) simp_all
  next
    case (Cons v vs)
    from Cons.prems obtain k where k: "n = Suc k" "length vs < k" by (cases n) auto
    have "nxt v m = Inr (hd_or vs NULL)" using walk_next [of m us v vs] assms(1) Cons.prems(1) by simp
    moreover have "hd_or vs NULL \<noteq> Some x" using assms(2) Cons.prems(1) by (cases vs) auto
    ultimately show ?case using Cons.IH [of "us @ [v]" k] Cons.prems(1) k by simp
  qed
  from this [of "[]" xs] assms(3) show ?thesis by simp
qed

lemma find_last_ok:
  assumes "rep m (ys @ [y])" "length ys < n"
  shows "find_last nxt n (hd_or ys (Some y)) m = Inr y"
proof -
  have "find_last nxt n (hd_or vs (Some y)) m = Inr y"
    if "ys = us @ vs" "length vs < n" for us vs
    using that
  proof (induction vs arbitrary: us n)
    case Nil
    with assms(1) walk_next [of m ys y "[]"] show ?case by (cases n) auto
  next
    case (Cons v vs)
    from Cons.prems obtain k where k: "n = Suc k" "length vs < k" by (cases n) auto
    have "nxt v m = Inr (hd_or vs (Some y))"
      using walk_next [of m us v "vs @ [y]"] assms(1) Cons.prems(1) by simp
    moreover have "hd_or vs (Some y) \<noteq> NULL" by (cases vs) simp_all
    ultimately show ?case using Cons.IH [of "us @ [v]" k] Cons.prems(1) k by auto
  qed
  from this [of "[]" ys] assms(2) show ?thesis by simp
qed

end

text \<open>
  A body that leaves the structure as it is: the loop runs it once on every element, in
  order, and from any element on.
\<close>

locale plain_loop = walk +
  fixes body :: "addr \<Rightarrow> 'a \<Rightarrow> 'a res"
  assumes body_keeps: "rep m xs \<Longrightarrow> x \<in> set xs \<Longrightarrow> body x m = Inr m' \<Longrightarrow> rep m' xs"
begin

lemma plain_from:
  "rep m (ys @ zs) \<Longrightarrow> length zs \<le> n \<Longrightarrow> foreach_from nxt body n (hd_or zs NULL) m = fold_res body zs m"
proof (induction zs arbitrary: ys n m)
  case (Cons z zs)
  then obtain k where k: "n = Suc k" "length zs \<le> k" by (cases n) auto
  show ?case
  proof (cases "body z m")
    case (Inr m')
    have r: "rep m' (ys @ z # zs)" by (rule body_keeps [OF Cons.prems(1) _ Inr]) simp
    from Cons.IH [of m' "ys @ [z]" k] r k Inr walk_next [OF r] show ?thesis by simp
  qed (use k in simp)
qed simp

lemma plain_safe_from:
  "rep m (ys @ zs) \<Longrightarrow> length zs \<le> n \<Longrightarrow> foreach_safe_from nxt body n (hd_or zs NULL) m = fold_res body zs m"
proof (induction zs arbitrary: ys n m)
  case (Cons z zs)
  then obtain k where k: "n = Suc k" "length zs \<le> k" by (cases n) auto
  note nx = walk_next [OF Cons.prems(1)]
  show ?case
  proof (cases "body z m")
    case (Inr m')
    have r: "rep m' (ys @ z # zs)" by (rule body_keeps [OF Cons.prems(1) _ Inr]) simp
    from Cons.IH [of m' "ys @ [z]" k] r k Inr nx show ?thesis by simp
  qed (use k nx in simp)
qed simp

text \<open>Where a loop starts: at the first element, or at the element given.\<close>

lemma start_all: "rep m xs \<Longrightarrow> start_at first NULL m = Inr (hd_or xs NULL)"
  by (simp add: start_at_def walk_first)

lemma start_elem: "start_at first (Some x) m = Inr (hd_or (x # xs) NULL)"
  by (simp add: start_at_def)

end

text \<open>
  The contract of a body that may remove the element it is run on: it succeeds and either
  leaves the structure as it is or takes this element out, according to \<open>keep\<close>, which it
  does not change for the elements still to come.
\<close>

locale safe_loop = walk +
  fixes body :: "addr \<Rightarrow> 'a \<Rightarrow> 'a res"
    and keep :: "'a \<Rightarrow> addr \<Rightarrow> bool"
  assumes loop_body: "rep m (ys @ x # zs) \<Longrightarrow>
      \<exists>m'. body x m = Inr m' \<and> rep m' (ys @ (if keep m x then [x] else []) @ zs) \<and>
           (\<forall>z \<in> set zs. keep m' z = keep m z)"
begin

lemma loop_from:
  assumes "rep m (ys @ zs)" "length zs \<le> n"
  shows "\<exists>m'. foreach_safe_from nxt body n (hd_or zs NULL) m = Inr m' \<and> rep m' (ys @ filter (keep m) zs)"
  using assms
proof (induction zs arbitrary: n m ys)
  case (Cons z zs)
  from loop_body [OF Cons.prems(1)] obtain m1 where
    m1: "body z m = Inr m1" "rep m1 (ys @ (if keep m z then [z] else []) @ zs)"
    "\<forall>x \<in> set zs. keep m1 x = keep m x" by blast
  from Cons.prems(2) obtain k where k: "n = Suc k" "length zs \<le> k" by (cases n) auto
  have f: "filter (keep m1) zs = filter (keep m) zs" using m1(3) by (intro filter_cong) auto
  from Cons.IH [of m1 "ys @ (if keep m z then [z] else [])" k] m1(2) k(2) obtain m' where
    "foreach_safe_from nxt body k (hd_or zs NULL) m1 = Inr m'"
    "rep m' ((ys @ (if keep m z then [z] else [])) @ filter (keep m1) zs)" by auto
  then show ?case
    using k m1(1) walk_next [OF Cons.prems(1)] by (auto simp: f)
qed simp

lemma loop_filters:
  assumes "rep m xs" "length xs \<le> n"
  shows "\<exists>m'. res_bind (first m) (\<lambda>p. foreach_safe_from nxt body n p m) = Inr m' \<and>
    rep m' (filter (keep m) xs)"
  using loop_from [of m "[]" xs n] assms walk_first [OF assms(1)] by simp

end

text \<open>A structure that can be visited from both ends: backwards it is a structure again.\<close>

locale two_way = walk +
  fixes last :: "'a \<Rightarrow> ptr res"
    and prev :: "addr \<Rightarrow> 'a \<Rightarrow> ptr res"
  assumes last_law: "rep m xs \<Longrightarrow> last m = Inr (hd_or (rev xs) NULL)"
    and prev_law: "rep m (ys @ x # zs) \<Longrightarrow> prev x m = Inr (hd_or (rev ys) NULL)"

sublocale two_way \<subseteq> rv: walk "\<lambda>m xs. rep m (rev xs)" last prev
proof
  fix m ys x zs
  assume "rep m (rev (ys @ x # zs))"
  then show "prev x m = Inr (hd_or zs NULL)" using prev_law [of m "rev zs" x "rev ys"] by simp
qed (use rep_distinct last_law in fastforce)+

text \<open>
  What a user of a queue of elements relies on: the elements in order, access to the first
  and the next one, insertion at the end, removal anywhere.
\<close>

locale elem_queue = walk +
  fixes live :: "'a \<Rightarrow> addr set"
    and insert_tail :: "addr \<Rightarrow> 'a \<Rightarrow> 'a res"
    and remove :: "addr \<Rightarrow> 'a \<Rightarrow> 'a res"
  assumes insert_law: "rep m xs \<Longrightarrow> x \<in> live m \<Longrightarrow> x \<notin> set xs \<Longrightarrow>
      \<exists>m'. insert_tail x m = Inr m' \<and> rep m' (xs @ [x]) \<and> live m' = live m"
    and remove_law: "rep m (ys @ x # zs) \<Longrightarrow>
      \<exists>m'. remove x m = Inr m' \<and> rep m' (ys @ zs) \<and> live m' = live m"
begin

text \<open>Removing what was inserted last restores the queue.\<close>

lemma insert_remove:
  assumes "rep m xs" "x \<in> live m" "x \<notin> set xs"
  shows "\<exists>m1 m2. insert_tail x m = Inr m1 \<and> remove x m1 = Inr m2 \<and> rep m2 xs \<and> live m2 = live m"
proof -
  from insert_law [OF assms] obtain m1 where
    m1: "insert_tail x m = Inr m1" "rep m1 (xs @ [x])" "live m1 = live m" by blast
  from remove_law [of m1 xs x "[]"] m1(2) obtain m2 where
    "remove x m1 = Inr m2" "rep m2 xs" "live m2 = live m1" by auto
  with m1 show ?thesis by auto
qed

text \<open>Removing the first element until none is left: as many rounds as there are elements.\<close>

fun drain :: "nat \<Rightarrow> 'a \<Rightarrow> 'a res" where
  "drain n m =
     res_bind (first m) (\<lambda>p. case p of
         None \<Rightarrow> Inr m
       | Some x \<Rightarrow> (case n of 0 \<Rightarrow> Inl No_Return | Suc k \<Rightarrow> res_bind (remove x m) (drain k)))"

lemma drain_empties: "rep m xs \<Longrightarrow> length xs \<le> n \<Longrightarrow> \<exists>m'. drain n m = Inr m' \<and> rep m' [] \<and> live m' = live m"
proof (induction xs arbitrary: n m)
  case Nil
  then show ?case by (subst drain.simps) (simp add: walk_first)
next
  case (Cons x xs)
  from remove_law [of m "[]" x xs] Cons.prems obtain m1 where
    m1: "remove x m = Inr m1" "rep m1 xs" "live m1 = live m" by auto
  from Cons.prems obtain k where "n = Suc k" "length xs \<le> k" by (cases n) auto
  with Cons.IH [OF m1(2)] m1 walk_first [OF Cons.prems(1)] show ?case
    by (subst drain.simps) auto
qed

end

section \<open>Sequences of operations\<close>

text \<open>
  A history of a queue: insertions at both ends and removals, what they do to the list of the
  elements, and when they are admissible (an inserted element is live and not in the queue, a
  removed one is in it).
\<close>

datatype queue_op = Ins_Head addr | Ins_Tail addr | Rem addr

fun list_op :: "queue_op \<Rightarrow> addr list \<Rightarrow> addr list" where
  "list_op (Ins_Head x) xs = x # xs"
| "list_op (Ins_Tail x) xs = xs @ [x]"
| "list_op (Rem x) xs = remove1 x xs"

fun op_ok :: "addr set \<Rightarrow> queue_op \<Rightarrow> addr list \<Rightarrow> bool" where
  "op_ok L (Ins_Head x) xs = (x \<in> L \<and> x \<notin> set xs)"
| "op_ok L (Ins_Tail x) xs = (x \<in> L \<and> x \<notin> set xs)"
| "op_ok L (Rem x) xs = (x \<in> set xs)"

fun ops_ok :: "addr set \<Rightarrow> queue_op list \<Rightarrow> addr list \<Rightarrow> bool" where
  "ops_ok L [] xs = True"
| "ops_ok L (q # qs) xs = (op_ok L q xs \<and> ops_ok L qs (list_op q xs))"

fun run_ops ::
  "(addr \<Rightarrow> 'm \<Rightarrow> 'm res) \<Rightarrow> (addr \<Rightarrow> 'm \<Rightarrow> 'm res) \<Rightarrow> (addr \<Rightarrow> 'm \<Rightarrow> 'm res) \<Rightarrow> queue_op list \<Rightarrow> 'm \<Rightarrow> 'm res" where
  "run_ops ih it rm [] m = Inr m"
| "run_ops ih it rm (Ins_Head x # qs) m = res_bind (ih x m) (run_ops ih it rm qs)"
| "run_ops ih it rm (Ins_Tail x # qs) m = res_bind (it x m) (run_ops ih it rm qs)"
| "run_ops ih it rm (Rem x # qs) m = res_bind (rm x m) (run_ops ih it rm qs)"

lemma remove1_split: "x \<notin> set ys \<Longrightarrow> remove1 x (ys @ x # zs) = ys @ zs"
  by (simp add: remove1_append)

locale op_queue = elem_queue +
  fixes insert_head :: "addr \<Rightarrow> 'a \<Rightarrow> 'a res"
  assumes insert_head_law: "rep m xs \<Longrightarrow> x \<in> live m \<Longrightarrow> x \<notin> set xs \<Longrightarrow>
      \<exists>m'. insert_head x m = Inr m' \<and> rep m' (x # xs) \<and> live m' = live m"
begin

lemma run_ops_ok:
  "rep m xs \<Longrightarrow> ops_ok (live m) qs xs \<Longrightarrow>
   \<exists>m'. run_ops insert_head insert_tail remove qs m = Inr m' \<and> rep m' (fold list_op qs xs) \<and> live m' = live m"
proof (induction qs arbitrary: m xs)
  case (Cons q qs)
  have "\<exists>m1. run_ops insert_head insert_tail remove (q # qs) m =
      run_ops insert_head insert_tail remove qs m1 \<and> rep m1 (list_op q xs) \<and> live m1 = live m"
  proof (cases q)
    case (Rem x)
    with Cons.prems obtain ys zs where xs: "xs = ys @ x # zs" by (auto dest: split_list)
    moreover have "x \<notin> set ys" using rep_distinct [OF Cons.prems(1)] xs by simp
    ultimately show ?thesis using remove_law [of m ys x zs] Cons.prems(1) Rem by (auto simp: remove1_split)
  qed (use Cons.prems insert_head_law [of m xs] insert_law [of m xs] in fastforce)+
  with Cons.IH Cons.prems(2) show ?case by fastforce
qed simp

end

end
