(* ===== verification/Tail_Queue.thy ===== *)
theory Tail_Queue
  imports Queue_Memory
begin

text \<open>
  The tail queue macros (\<open>TAILQ\<close>) of \<open>server/queue.h\<close>, which the server keeps its clients in. A
  queue is a doubly linked list in which every element records the address of the pointer that
  points to it, and whose head records the address of the last pointer. The representation
  predicate \<open>tailq\<close> relates a head to the list of the queue's elements, and each macro is shown
  to do the corresponding operation on that list. The contracts of theory \<open>Queue_Memory\<close> are
  interpreted on the macros. The consistency checks of debugging kernels are definitions of
  their own; in this build they, and the macros for tracing, expand to nothing.
\<close>

section \<open>Data\<close>

record tq_head =
  tqh_first :: ptr
  tqh_last :: link

record tq_entry =
  tqe_next :: ptr
  tqe_prev :: link

type_synonym tq_mem = "(tq_head, tq_entry) queue_mem"

text \<open>\<open>*l\<close> and \<open>*l = p\<close> for the address \<open>l\<close> of a pointer.\<close>

definition load_link :: "tq_mem \<Rightarrow> link \<Rightarrow> ptr res" where
  "load_link m l =
     (case l of Null_Link \<Rightarrow> Inl Null_Deref | Trash_Link \<Rightarrow> Inl Use_After_Free
      | First_of h \<Rightarrow> res_bind (head_at m h) (\<lambda>x. Inr (tqh_first x))
      | Next_of a \<Rightarrow> res_bind (elm_at m a) (\<lambda>x. Inr (tqe_next x)))"

definition store_link :: "link \<Rightarrow> ptr \<Rightarrow> tq_mem \<Rightarrow> tq_mem res" where
  "store_link l p m =
     (case l of Null_Link \<Rightarrow> Inl Null_Deref | Trash_Link \<Rightarrow> Inl Use_After_Free
      | First_of h \<Rightarrow> set_head h (\<lambda>x. x\<lparr>tqh_first := p\<rparr>) m
      | Next_of a \<Rightarrow> set_elm a (\<lambda>x. x\<lparr>tqe_next := p\<rparr>) m)"

section \<open>The macros\<close>

definition TAILQ_HEAD_INITIALIZER :: "nat \<Rightarrow> tq_head" where
  "TAILQ_HEAD_INITIALIZER h = \<lparr>tqh_first = NULL, tqh_last = First_of h\<rparr>"

definition TAILQ_INIT :: "nat \<Rightarrow> tq_mem \<Rightarrow> tq_mem res" where
  "TAILQ_INIT h m = set_head h (\<lambda>x. x\<lparr>tqh_first := NULL, tqh_last := First_of h\<rparr>) m"

definition TAILQ_FIRST :: "nat \<Rightarrow> tq_mem \<Rightarrow> ptr res" where
  "TAILQ_FIRST h m = res_bind (head_at m h) (\<lambda>x. Inr (tqh_first x))"

definition TAILQ_EMPTY :: "nat \<Rightarrow> tq_mem \<Rightarrow> bool res" where
  "TAILQ_EMPTY h m = res_bind (head_at m h) (\<lambda>x. Inr (tqh_first x = NULL))"

definition TAILQ_NEXT :: "addr \<Rightarrow> tq_mem \<Rightarrow> ptr res" where
  "TAILQ_NEXT elm m = res_bind (elm_at m elm) (\<lambda>x. Inr (tqe_next x))"

definition TAILQ_INSERT_TAIL :: "nat \<Rightarrow> addr \<Rightarrow> tq_mem \<Rightarrow> tq_mem res" where
  "TAILQ_INSERT_TAIL h elm m =
     res_bind (set_elm elm (\<lambda>x. x\<lparr>tqe_next := NULL\<rparr>) m) (\<lambda>m1.
     res_bind (head_at m1 h) (\<lambda>hd1.
     res_bind (set_elm elm (\<lambda>x. x\<lparr>tqe_prev := tqh_last hd1\<rparr>) m1) (\<lambda>m2.
     res_bind (head_at m2 h) (\<lambda>hd2.
     res_bind (store_link (tqh_last hd2) (Some elm) m2) (\<lambda>m3.
       set_head h (\<lambda>x. x\<lparr>tqh_last := Next_of elm\<rparr>) m3)))))"

definition TAILQ_INSERT_HEAD :: "nat \<Rightarrow> addr \<Rightarrow> tq_mem \<Rightarrow> tq_mem res" where
  "TAILQ_INSERT_HEAD h elm m =
     res_bind (head_at m h) (\<lambda>hd1.
     res_bind (set_elm elm (\<lambda>x. x\<lparr>tqe_next := tqh_first hd1\<rparr>) m) (\<lambda>m1.
     res_bind (case tqh_first hd1 of
         Some f \<Rightarrow> set_elm f (\<lambda>x. x\<lparr>tqe_prev := Next_of elm\<rparr>) m1
       | None \<Rightarrow> set_head h (\<lambda>x. x\<lparr>tqh_last := Next_of elm\<rparr>) m1) (\<lambda>m2.
     res_bind (set_head h (\<lambda>x. x\<lparr>tqh_first := Some elm\<rparr>) m2) (\<lambda>m3.
       set_elm elm (\<lambda>x. x\<lparr>tqe_prev := First_of h\<rparr>) m3))))"

definition TAILQ_INSERT_AFTER :: "nat \<Rightarrow> addr \<Rightarrow> addr \<Rightarrow> tq_mem \<Rightarrow> tq_mem res" where
  "TAILQ_INSERT_AFTER h listelm elm m =
     res_bind (elm_at m listelm) (\<lambda>e.
     res_bind (set_elm elm (\<lambda>x. x\<lparr>tqe_next := tqe_next e\<rparr>) m) (\<lambda>m1.
     res_bind (case tqe_next e of
         Some f \<Rightarrow> set_elm f (\<lambda>x. x\<lparr>tqe_prev := Next_of elm\<rparr>) m1
       | None \<Rightarrow> set_head h (\<lambda>x. x\<lparr>tqh_last := Next_of elm\<rparr>) m1) (\<lambda>m2.
     res_bind (set_elm listelm (\<lambda>x. x\<lparr>tqe_next := Some elm\<rparr>) m2) (\<lambda>m3.
       set_elm elm (\<lambda>x. x\<lparr>tqe_prev := Next_of listelm\<rparr>) m3))))"

definition TAILQ_INSERT_BEFORE :: "addr \<Rightarrow> addr \<Rightarrow> tq_mem \<Rightarrow> tq_mem res" where
  "TAILQ_INSERT_BEFORE listelm elm m =
     res_bind (elm_at m listelm) (\<lambda>e.
     res_bind (set_elm elm (\<lambda>x. x\<lparr>tqe_prev := tqe_prev e\<rparr>) m) (\<lambda>m1.
     res_bind (set_elm elm (\<lambda>x. x\<lparr>tqe_next := Some listelm\<rparr>) m1) (\<lambda>m2.
     res_bind (elm_at m2 listelm) (\<lambda>e2.
     res_bind (store_link (tqe_prev e2) (Some elm) m2) (\<lambda>m3.
       set_elm listelm (\<lambda>x. x\<lparr>tqe_prev := Next_of elm\<rparr>) m3)))))"

definition TAILQ_REMOVE :: "nat \<Rightarrow> addr \<Rightarrow> tq_mem \<Rightarrow> tq_mem res" where
  "TAILQ_REMOVE h elm m =
     res_bind (elm_at m elm) (\<lambda>e.
     res_bind (case tqe_next e of
         Some f \<Rightarrow> set_elm f (\<lambda>x. x\<lparr>tqe_prev := tqe_prev e\<rparr>) m
       | None \<Rightarrow> set_head h (\<lambda>x. x\<lparr>tqh_last := tqe_prev e\<rparr>) m) (\<lambda>m1.
     res_bind (elm_at m1 elm) (\<lambda>e1.
       store_link (tqe_prev e1) (tqe_next e1) m1)))"

definition TAILQ_CONCAT :: "nat \<Rightarrow> nat \<Rightarrow> tq_mem \<Rightarrow> tq_mem res" where
  "TAILQ_CONCAT h1 h2 m =
     res_bind (TAILQ_EMPTY h2 m) (\<lambda>empty.
       if empty then Inr m
       else
        res_bind (head_at m h1) (\<lambda>a. res_bind (head_at m h2) (\<lambda>b.
        res_bind (store_link (tqh_last a) (tqh_first b) m) (\<lambda>m1.
        res_bind (head_at m1 h2) (\<lambda>b1. res_bind (head_at m1 h1) (\<lambda>a1.
        res_bind (deref (tqh_first b1)) (\<lambda>f.
        res_bind (set_elm f (\<lambda>x. x\<lparr>tqe_prev := tqh_last a1\<rparr>) m1) (\<lambda>m2.
        res_bind (set_head h1 (\<lambda>x. x\<lparr>tqh_last := tqh_last b1\<rparr>) m2) (\<lambda>m3.
          TAILQ_INIT h2 m3)))))))))"

definition TAILQ_REPLACE :: "nat \<Rightarrow> addr \<Rightarrow> addr \<Rightarrow> tq_mem \<Rightarrow> tq_mem res" where
  "TAILQ_REPLACE h elm elm2 m =
     res_bind (elm_at m elm) (\<lambda>e.
     res_bind (set_elm elm2 (\<lambda>x. x\<lparr>tqe_next := tqe_next e\<rparr>) m) (\<lambda>m1.
     res_bind (case tqe_next e of
         Some f \<Rightarrow> set_elm f (\<lambda>x. x\<lparr>tqe_prev := Next_of elm2\<rparr>) m1
       | None \<Rightarrow> set_head h (\<lambda>x. x\<lparr>tqh_last := Next_of elm2\<rparr>) m1) (\<lambda>m2.
     res_bind (elm_at m2 elm) (\<lambda>e2.
     res_bind (set_elm elm2 (\<lambda>x. x\<lparr>tqe_prev := tqe_prev e2\<rparr>) m2) (\<lambda>m3.
     res_bind (elm_at m3 elm2) (\<lambda>e3.
       store_link (tqe_prev e3) (Some elm2) m3))))))"

text \<open>The back link of the first element, or the end of an empty queue, names its new head.\<close>

definition fix_first :: "nat \<Rightarrow> tq_mem \<Rightarrow> tq_mem res" where
  "fix_first h m =
     res_bind (head_at m h) (\<lambda>x. case tqh_first x of
         Some f \<Rightarrow> set_elm f (\<lambda>e. e\<lparr>tqe_prev := First_of h\<rparr>) m
       | None \<Rightarrow> set_head h (\<lambda>e. e\<lparr>tqh_last := First_of h\<rparr>) m)"

definition TAILQ_SWAP :: "nat \<Rightarrow> nat \<Rightarrow> tq_mem \<Rightarrow> tq_mem res" where
  "TAILQ_SWAP h1 h2 m =
     res_bind (head_at m h1) (\<lambda>a. res_bind (head_at m h2) (\<lambda>b.
     res_bind (set_head h1 (\<lambda>_. b) m) (\<lambda>m1.
     res_bind (set_head h2 (\<lambda>_. a) m1) (\<lambda>m2.
     res_bind (fix_first h1 m2) (fix_first h2)))))"

text \<open>
  \<open>TAILQ_LAST\<close> and \<open>TAILQ_PREV\<close> read the structure around a link as if it were a head: the
  second word after the pointer at \<open>l\<close> is the back link stored next to it, which is the
  \<open>tqh_last\<close> of a head and the \<open>tqe_prev\<close> of an element.
\<close>

definition second_word :: "tq_mem \<Rightarrow> link \<Rightarrow> link res" where
  "second_word m l =
     (case l of Null_Link \<Rightarrow> Inl Null_Deref | Trash_Link \<Rightarrow> Inl Use_After_Free
      | First_of h \<Rightarrow> res_bind (head_at m h) (\<lambda>x. Inr (tqh_last x))
      | Next_of a \<Rightarrow> res_bind (elm_at m a) (\<lambda>x. Inr (tqe_prev x)))"

definition TAILQ_LAST :: "nat \<Rightarrow> tq_mem \<Rightarrow> ptr res" where
  "TAILQ_LAST h m =
     res_bind (head_at m h) (\<lambda>x. res_bind (second_word m (tqh_last x)) (load_link m))"

definition TAILQ_PREV :: "addr \<Rightarrow> tq_mem \<Rightarrow> ptr res" where
  "TAILQ_PREV elm m =
     res_bind (elm_at m elm) (\<lambda>x. res_bind (second_word m (tqe_prev x)) (load_link m))"

definition TAILQ_LAST_FAST :: "nat \<Rightarrow> tq_mem \<Rightarrow> ptr res" where
  "TAILQ_LAST_FAST h m =
     res_bind (TAILQ_EMPTY h m) (\<lambda>empty.
       if empty then Inr NULL
       else res_bind (head_at m h) (\<lambda>x. res_bind (container_of (tqh_last x)) (\<lambda>a. Inr (Some a))))"

definition TAILQ_PREV_FAST :: "addr \<Rightarrow> nat \<Rightarrow> tq_mem \<Rightarrow> ptr res" where
  "TAILQ_PREV_FAST elm h m =
     res_bind (elm_at m elm) (\<lambda>x.
       if tqe_prev x = First_of h then Inr NULL
       else res_bind (container_of (tqe_prev x)) (\<lambda>a. Inr (Some a)))"

definition TAILQ_REMOVE_HEAD :: "nat \<Rightarrow> tq_mem \<Rightarrow> tq_mem res" where
  "TAILQ_REMOVE_HEAD h m =
     res_bind (TAILQ_FIRST h m) (\<lambda>p. res_bind (deref p) (\<lambda>f. TAILQ_REMOVE h f m))"

text \<open>
  The consistency checks that kernels built with \<open>INVARIANTS\<close> run before an operation; a
  \<open>panic\<close> is a failed assertion.
\<close>

definition QMD_TAILQ_CHECK_HEAD :: "nat \<Rightarrow> tq_mem \<Rightarrow> unit res" where
  "QMD_TAILQ_CHECK_HEAD h m =
     res_bind (TAILQ_FIRST h m) (\<lambda>p. case p of
         None \<Rightarrow> Inr ()
       | Some f \<Rightarrow> res_bind (elm_at m f) (\<lambda>e. c_assert (tqe_prev e = First_of h) (Inr ())))"

definition QMD_TAILQ_CHECK_TAIL :: "nat \<Rightarrow> tq_mem \<Rightarrow> unit res" where
  "QMD_TAILQ_CHECK_TAIL h m =
     res_bind (head_at m h) (\<lambda>x. res_bind (load_link m (tqh_last x)) (\<lambda>p. c_assert (p = NULL) (Inr ())))"

definition QMD_TAILQ_CHECK_NEXT :: "addr \<Rightarrow> tq_mem \<Rightarrow> unit res" where
  "QMD_TAILQ_CHECK_NEXT elm m =
     res_bind (TAILQ_NEXT elm m) (\<lambda>p. case p of
         None \<Rightarrow> Inr ()
       | Some f \<Rightarrow> res_bind (elm_at m f) (\<lambda>e. c_assert (tqe_prev e = Next_of elm) (Inr ())))"

definition QMD_TAILQ_CHECK_PREV :: "addr \<Rightarrow> tq_mem \<Rightarrow> unit res" where
  "QMD_TAILQ_CHECK_PREV elm m =
     res_bind (elm_at m elm) (\<lambda>x. res_bind (load_link m (tqe_prev x)) (\<lambda>p. c_assert (p = Some elm) (Inr ())))"

section \<open>Representation\<close>

text \<open>
  The links of a chain: the element behind link \<open>l\<close> and its successors, the last of which
  points to \<open>n\<close>.
\<close>

fun tq_seg :: "(addr \<rightharpoonup> tq_entry) \<Rightarrow> link \<Rightarrow> addr list \<Rightarrow> ptr \<Rightarrow> bool" where
  "tq_seg E l [] n = True"
| "tq_seg E l (x # xs) n =
     (E x = Some \<lparr>tqe_next = hd_or xs n, tqe_prev = l\<rparr> \<and> tq_seg E (Next_of x) xs n)"

definition tailq :: "tq_mem \<Rightarrow> nat \<Rightarrow> addr list \<Rightarrow> bool" where
  "tailq m h xs \<longleftrightarrow>
     heads m h = Some \<lparr>tqh_first = hd_or xs NULL, tqh_last = last_link (First_of h) xs\<rparr> \<and>
     distinct xs \<and> tq_seg (elms m) (First_of h) xs NULL"

lemma tq_seg_append [simp]:
  "tq_seg E l (xs @ ys) n \<longleftrightarrow> tq_seg E l xs (hd_or ys n) \<and> tq_seg E (last_link l xs) ys n"
  by (induction xs arbitrary: l) auto

lemma tq_seg_cong:
  "(\<And>x. x \<in> set xs \<Longrightarrow> E' x = E x) \<Longrightarrow> tq_seg E' l xs n = tq_seg E l xs n"
  by (induction xs arbitrary: l) auto

lemma tq_seg_agree:
  "tq_seg E l xs n \<Longrightarrow> (\<And>x. x \<in> set xs \<Longrightarrow> E' x = E x) \<Longrightarrow> tq_seg E' l xs n"
  using tq_seg_cong [of xs E' E l n] by blast

lemma tq_seg_upd [simp]: "a \<notin> set xs \<Longrightarrow> tq_seg (E(a := e)) l xs n = tq_seg E l xs n"
  by (rule tq_seg_cong) auto

text \<open>Redirecting the last pointer of a chain: the head's when the chain is empty.\<close>

lemma store_link_last:
  assumes "heads m h = Some x" "tq_seg (elms m) (First_of h) xs n" "distinct xs" "tqh_first x = hd_or xs n"
  obtains m' where "store_link (last_link (First_of h) xs) p m = Inr m'"
    "heads m' = (heads m)(h \<mapsto> x\<lparr>tqh_first := hd_or xs p\<rparr>)" "tq_seg (elms m') (First_of h) xs p"
    "\<And>a. a \<notin> set xs \<Longrightarrow> elms m' a = elms m a"
proof (cases xs rule: rev_cases)
  case Nil
  with assms show thesis
    by (intro that [of "m\<lparr>heads := (heads m)(h \<mapsto> x\<lparr>tqh_first := p\<rparr>)\<rparr>"]) (simp_all add: store_link_def)
next
  case (snoc ys y)
  let ?e = "\<lparr>tqe_next = n, tqe_prev = last_link (First_of h) ys\<rparr>"
  let ?m = "m\<lparr>elms := (elms m)(y \<mapsto> ?e\<lparr>tqe_next := p\<rparr>)\<rparr>"
  have y: "elms m y = Some ?e" "y \<notin> set ys" using assms(2,3) snoc by simp_all
  then have run: "store_link (last_link (First_of h) xs) p m = Inr ?m"
    by (simp add: store_link_def snoc)
  have f: "hd_or xs p = hd_or xs n" using snoc by (cases ys) simp_all
  have "x\<lparr>tqh_first := hd_or xs p\<rparr> = x" using assms(4) by (simp add: f)
  with assms(1) have "heads ?m = (heads m)(h \<mapsto> x\<lparr>tqh_first := hd_or xs p\<rparr>)" by auto
  moreover have "tq_seg (elms ?m) (First_of h) xs p"
    using assms(2) y(2) by (simp add: snoc)
  ultimately show thesis using snoc by (intro that [OF run]) auto
qed

text \<open>Redirecting the back link of the first element of a chain.\<close>

lemma tq_seg_set_prev:
  assumes "tq_seg E l (z # zs) n" "z \<notin> set zs"
  shows "tq_seg (E(z \<mapsto> \<lparr>tqe_next = hd_or zs n, tqe_prev = l'\<rparr>)) l' (z # zs) n"
  using assms by simp

lemma tq_seg_live: "tq_seg E l xs n \<Longrightarrow> set xs \<subseteq> dom E"
  by (induction xs arbitrary: l) auto

lemma q_frame_tailq:
  assumes "q_frame h S m m'" "tailq m k ys" "k \<noteq> h" "set ys \<inter> S = {}"
  shows "tailq m' k ys"
proof -
  have "tq_seg (elms m') (First_of k) ys NULL = tq_seg (elms m) (First_of k) ys NULL"
    using assms(1,4) by (intro tq_seg_cong) (auto simp: q_frame_def)
  with assms show ?thesis by (simp add: tailq_def q_frame_def)
qed

lemma TAILQ_INIT_ok:
  assumes "heads m h = Some x"
  shows "\<exists>m'. TAILQ_INIT h m = Inr m' \<and> tailq m' h [] \<and> q_frame h {} m m'"
  using assms by (simp add: TAILQ_INIT_def tailq_def q_frame_def)

lemma TAILQ_HEAD_INITIALIZER_ok: "heads m h = Some (TAILQ_HEAD_INITIALIZER h) \<Longrightarrow> tailq m h []"
  by (simp add: tailq_def TAILQ_HEAD_INITIALIZER_def)

lemma TAILQ_INSERT_TAIL_ok:
  assumes "tailq m h xs" "elms m x \<noteq> None" "x \<notin> set xs"
  shows "\<exists>m'. TAILQ_INSERT_TAIL h x m = Inr m' \<and> tailq m' h (xs @ [x]) \<and>
    q_frame h (set (xs @ [x])) m m'"
proof -
  obtain e where e: "elms m x = Some e" using assms(2) by auto
  let ?l = "last_link (First_of h) xs"
  let ?hd = "\<lparr>tqh_first = hd_or xs NULL, tqh_last = ?l\<rparr>"
  let ?m2 = "m\<lparr>elms := (elms m)(x \<mapsto> \<lparr>tqe_next = NULL, tqe_prev = ?l\<rparr>)\<rparr>"
  have t: "heads m h = Some ?hd" "distinct xs" "tq_seg (elms m) (First_of h) xs NULL"
    using assms(1) by (simp_all add: tailq_def)
  have "heads ?m2 h = Some ?hd" "tq_seg (elms ?m2) (First_of h) xs NULL"
    using t assms(3) by simp_all
  then obtain m3 where m3: "store_link ?l (Some x) ?m2 = Inr m3"
    "heads m3 = (heads ?m2)(h \<mapsto> ?hd\<lparr>tqh_first := hd_or xs (Some x)\<rparr>)"
    "tq_seg (elms m3) (First_of h) xs (Some x)" "\<And>a. a \<notin> set xs \<Longrightarrow> elms m3 a = elms ?m2 a"
    using store_link_last [of ?m2 h ?hd xs NULL "Some x"] t(2) by auto
  let ?m' = "m3\<lparr>heads := (heads m3)(h \<mapsto> \<lparr>tqh_first = hd_or xs (Some x), tqh_last = Next_of x\<rparr>)\<rparr>"
  have run: "TAILQ_INSERT_TAIL h x m = Inr ?m'"
    using e t(1) m3(1,2) by (cases e) (simp add: TAILQ_INSERT_TAIL_def)
  have x: "elms m3 x = Some \<lparr>tqe_next = NULL, tqe_prev = ?l\<rparr>" using m3(4) assms(3) by simp
  have "tailq ?m' h (xs @ [x])" using t(2) m3(3) x assms(3) by (simp add: tailq_def)
  moreover have "q_frame h (set (xs @ [x])) m ?m'"
    using m3 x e tq_seg_live [OF t(3)] tq_seg_live [OF m3(3)] by (intro q_frame_intro) auto
  ultimately show ?thesis using run by blast
qed

lemma tailq_split:
  assumes "tailq m h (ys @ x # zs)"
  shows "heads m h = Some \<lparr>tqh_first = hd_or ys (Some x), tqh_last = last_link (Next_of x) zs\<rparr>"
    "distinct (ys @ x # zs)" "tq_seg (elms m) (First_of h) ys (Some x)"
    "elms m x = Some \<lparr>tqe_next = hd_or zs NULL, tqe_prev = last_link (First_of h) ys\<rparr>"
    "tq_seg (elms m) (Next_of x) zs NULL"
  using assms by (cases ys; auto simp: tailq_def last_link_def)+

lemma TAILQ_REMOVE_ok:
  assumes "tailq m h (ys @ x # zs)"
  shows "\<exists>m'. TAILQ_REMOVE h x m = Inr m' \<and> tailq m' h (ys @ zs) \<and> q_frame h (set (ys @ zs)) m m'"
proof -
  note t = tailq_split [OF assms]
  let ?l = "last_link (First_of h) ys" and ?l2 = "last_link (Next_of x) zs"
  obtain m1 where m1:
    "(case hd_or zs NULL of Some f \<Rightarrow> set_elm f (\<lambda>e. e\<lparr>tqe_prev := ?l\<rparr>) m
      | None \<Rightarrow> set_head h (\<lambda>e. e\<lparr>tqh_last := ?l\<rparr>) m) = Inr m1"
    "heads m1 = (heads m)(h \<mapsto> \<lparr>tqh_first = hd_or ys (Some x), tqh_last = last_link ?l zs\<rparr>)"
    "tq_seg (elms m1) ?l zs NULL" "\<And>a. a \<notin> set zs \<Longrightarrow> elms m1 a = elms m a"
  proof (cases zs)
    case Nil
    with t show thesis
      by (intro that [of "m\<lparr>heads := (heads m)(h \<mapsto> \<lparr>tqh_first = hd_or ys (Some x), tqh_last = ?l\<rparr>)\<rparr>"])
        simp_all
  next
    case (Cons z zs')
    with t show thesis
      by (intro that [of "m\<lparr>elms := (elms m)(z \<mapsto> \<lparr>tqe_next = hd_or zs' NULL, tqe_prev = ?l\<rparr>)\<rparr>"])
        (auto simp: last_link_def)
  qed
  have x1: "elms m1 x = Some \<lparr>tqe_next = hd_or zs NULL, tqe_prev = ?l\<rparr>"
    using m1(4) t(2,4) by simp
  have y1: "tq_seg (elms m1) (First_of h) ys (Some x)"
    by (rule tq_seg_agree [OF t(3)]) (use t(2) m1(4) in auto)
  from store_link_last [of m1 h "\<lparr>tqh_first = hd_or ys (Some x), tqh_last = last_link ?l zs\<rparr>"
      ys "Some x" "hd_or zs NULL"] y1 m1(2) t(2) obtain m2 where
    m2: "store_link ?l (hd_or zs NULL) m1 = Inr m2"
    "heads m2 = (heads m1)(h \<mapsto> \<lparr>tqh_first = hd_or ys (hd_or zs NULL), tqh_last = last_link ?l zs\<rparr>)"
    "tq_seg (elms m2) (First_of h) ys (hd_or zs NULL)" "\<And>a. a \<notin> set ys \<Longrightarrow> elms m2 a = elms m1 a"
    by auto
  have run: "TAILQ_REMOVE h x m = Inr m2"
    using t(4) m1(1) x1 m2(1) by (simp add: TAILQ_REMOVE_def cong: option.case_cong)
  have z2: "tq_seg (elms m2) ?l zs NULL"
    by (rule tq_seg_agree [OF m1(3)]) (use t(2) m2(4) in auto)
  have "last_link (First_of h) (ys @ zs) = last_link ?l zs"
    by (simp add: last_link_def)
  then have "tailq m2 h (ys @ zs)"
    using t(2) m2(2,3) z2 by (simp add: tailq_def)
  moreover have "q_frame h (set (ys @ zs)) m m2"
    using m1(2,4) m2(2,4) tq_seg_live [OF t(3)] tq_seg_live [OF t(5)]
      tq_seg_live [OF m2(3)] tq_seg_live [OF z2] by (intro q_frame_intro) auto
  ultimately show ?thesis using run by blast
qed

lemma tailq_set_next:
  assumes "tq_seg E l (ys @ [y]) n" "distinct (ys @ [y])"
  shows "tq_seg (E(y \<mapsto> \<lparr>tqe_next = n', tqe_prev = last_link l ys\<rparr>)) l (ys @ [y]) n'"
  using assms by simp

text \<open>
  Insertion in the middle, shared by the three other insertion macros: given the links of
  the two halves and of the new element, the whole is a queue.
\<close>

lemma tailq_join:
  assumes "heads m h = Some \<lparr>tqh_first = hd_or ys (Some x), tqh_last = last_link (Next_of x) zs\<rparr>"
    "distinct (ys @ x # zs)" "tq_seg (elms m) (First_of h) ys (Some x)"
    "elms m x = Some \<lparr>tqe_next = hd_or zs NULL, tqe_prev = last_link (First_of h) ys\<rparr>"
    "tq_seg (elms m) (Next_of x) zs NULL"
  shows "tailq m h (ys @ x # zs)"
  using assms by (cases ys) (auto simp: tailq_def last_link_def)

lemma TAILQ_INSERT_HEAD_ok:
  assumes "tailq m h xs" "elms m x \<noteq> None" "x \<notin> set xs"
  shows "\<exists>m'. TAILQ_INSERT_HEAD h x m = Inr m' \<and> tailq m' h (x # xs) \<and>
    q_frame h (set (x # xs)) m m'"
proof -
  obtain e where e: "elms m x = Some e" using assms(2) by auto
  have t: "heads m h = Some \<lparr>tqh_first = hd_or xs NULL, tqh_last = last_link (First_of h) xs\<rparr>"
    "distinct xs" "tq_seg (elms m) (First_of h) xs NULL"
    using assms(1) by (simp_all add: tailq_def)
  let ?E = "(elms m)(x \<mapsto> \<lparr>tqe_next = hd_or xs NULL, tqe_prev = First_of h\<rparr>)"
  let ?E' = "(case xs of [] \<Rightarrow> ?E
    | y # ys \<Rightarrow> ?E(y \<mapsto> \<lparr>tqe_next = hd_or ys NULL, tqe_prev = Next_of x\<rparr>))"
  let ?m' = "m\<lparr>elms := ?E', heads := (heads m)(h \<mapsto> \<lparr>tqh_first = Some x, tqh_last = last_link (Next_of x) xs\<rparr>)\<rparr>"
  have run: "TAILQ_INSERT_HEAD h x m = Inr ?m'"
  proof (cases xs)
    case Nil
    then show ?thesis using t(1) e by (cases e) (simp add: TAILQ_INSERT_HEAD_def)
  next
    case (Cons y ys)
    then have "y \<noteq> x" "elms m y = Some \<lparr>tqe_next = hd_or ys NULL, tqe_prev = First_of h\<rparr>"
      using t(3) assms(3) by auto
    then show ?thesis
      using t(1) e Cons
      by (cases e) (simp add: TAILQ_INSERT_HEAD_def fun_upd_twist [of x y] last_link_def)
  qed
  have "tq_seg ?E' (Next_of x) xs NULL" using t(2,3) assms(3) by (cases xs) auto
  moreover have "?E' x = Some \<lparr>tqe_next = hd_or xs NULL, tqe_prev = First_of h\<rparr>"
    using assms(3) by (cases xs) auto
  ultimately have q: "tailq ?m' h ([] @ x # xs)"
    using t(2) assms(3) by (intro tailq_join) simp_all
  have "q_frame h (set (x # xs)) m ?m'"
    using e tq_seg_live [OF t(3)] by (intro q_frame_intro) (auto split: list.splits)
  with run q show ?thesis by auto
qed

lemma TAILQ_INSERT_AFTER_ok:
  assumes "tailq m h (ys @ y # zs)" "elms m x \<noteq> None" "x \<notin> set (ys @ y # zs)"
  shows "\<exists>m'. TAILQ_INSERT_AFTER h y x m = Inr m' \<and> tailq m' h (ys @ y # x # zs) \<and>
    q_frame h (set (ys @ y # x # zs)) m m'"
proof -
  obtain e where e: "elms m x = Some e" using assms(2) by auto
  note t = tailq_split [OF assms(1)]
  let ?E = "(elms m)(x \<mapsto> \<lparr>tqe_next = hd_or zs NULL, tqe_prev = Next_of y\<rparr>,
                     y \<mapsto> \<lparr>tqe_next = Some x, tqe_prev = last_link (First_of h) ys\<rparr>)"
  let ?E' = "(case zs of [] \<Rightarrow> ?E
    | z # zs' \<Rightarrow> ?E(z \<mapsto> \<lparr>tqe_next = hd_or zs' NULL, tqe_prev = Next_of x\<rparr>))"
  let ?m' = "m\<lparr>elms := ?E', heads := (heads m)(h \<mapsto>
     \<lparr>tqh_first = hd_or ys (Some y), tqh_last = last_link (Next_of x) zs\<rparr>)\<rparr>"
  have xy: "x \<noteq> y" "y \<notin> set ys" "y \<notin> set zs" using assms(3) t(2) by auto
  have run: "TAILQ_INSERT_AFTER h y x m = Inr ?m'"
  proof (cases zs)
    case Nil
    then show ?thesis using t e xy by (cases e) (simp add: TAILQ_INSERT_AFTER_def fun_upd_twist)
  next
    case (Cons z zs')
    then have "z \<noteq> x" "z \<noteq> y" "elms m z = Some \<lparr>tqe_next = hd_or zs' NULL, tqe_prev = Next_of y\<rparr>"
      using t(2,5) assms(3) by auto
    moreover have "(heads m)(h \<mapsto> \<lparr>tqh_first = hd_or ys (Some y), tqh_last = last_link (Next_of x) zs\<rparr>) = heads m"
      using t(1) Cons by (auto simp: last_link_def)
    ultimately show ?thesis
      using t(4) e Cons xy
      by (cases e) (simp add: TAILQ_INSERT_AFTER_def fun_upd_twist [of z x] fun_upd_twist [of z y]
          fun_upd_twist [of x y])
  qed
  have "tq_seg ?E' (First_of h) ys (Some y)"
    by (rule tq_seg_agree [OF t(3)]) (use assms(3) t(2) in \<open>auto split: list.split\<close>)
  moreover have "?E' y = Some \<lparr>tqe_next = Some x, tqe_prev = last_link (First_of h) ys\<rparr>"
    "?E' x = Some \<lparr>tqe_next = hd_or zs NULL, tqe_prev = Next_of y\<rparr>"
    using xy assms(3) by (cases zs; auto)+
  moreover have "tq_seg ?E' (Next_of x) zs NULL"
    using t(2,5) assms(3) xy by (cases zs) auto
  ultimately have q: "tailq ?m' h ((ys @ [y]) @ x # zs)"
    using t(2) assms(3) by (intro tailq_join) simp_all
  have "q_frame h (set (ys @ y # x # zs)) m ?m'"
    using e t(4) tq_seg_live [OF t(3)] tq_seg_live [OF t(5)]
    by (intro q_frame_intro) (auto split: list.splits)
  with run q show ?thesis by auto
qed

lemma TAILQ_INSERT_BEFORE_ok:
  assumes "tailq m h (ys @ y # zs)" "elms m x \<noteq> None" "x \<notin> set (ys @ y # zs)"
  shows "\<exists>m'. TAILQ_INSERT_BEFORE y x m = Inr m' \<and> tailq m' h (ys @ x # y # zs) \<and>
    q_frame h (set (ys @ x # y # zs)) m m'"
proof -
  obtain e where e: "elms m x = Some e" using assms(2) by auto
  note t = tailq_split [OF assms(1)]
  let ?l = "last_link (First_of h) ys"
  let ?hd = "\<lparr>tqh_first = hd_or ys (Some y), tqh_last = last_link (Next_of y) zs\<rparr>"
  let ?m2 = "m\<lparr>elms := (elms m)(x \<mapsto> \<lparr>tqe_next = Some y, tqe_prev = ?l\<rparr>)\<rparr>"
  have xy: "x \<noteq> y" "y \<notin> set ys" "y \<notin> set zs" "x \<notin> set ys" "x \<notin> set zs"
    using assms(3) t(2) by auto
  have "heads ?m2 h = Some ?hd" "tq_seg (elms ?m2) (First_of h) ys (Some y)" using t(1,3) xy by simp_all
  then obtain m3 where m3: "store_link ?l (Some x) ?m2 = Inr m3"
    "heads m3 = (heads ?m2)(h \<mapsto> ?hd\<lparr>tqh_first := hd_or ys (Some x)\<rparr>)"
    "tq_seg (elms m3) (First_of h) ys (Some x)" "\<And>a. a \<notin> set ys \<Longrightarrow> elms m3 a = elms ?m2 a"
    using store_link_last [of ?m2 h ?hd ys "Some y" "Some x"] t(2) by auto
  let ?ey = "\<lparr>tqe_next = hd_or zs NULL, tqe_prev = Next_of x\<rparr>"
  let ?m' = "m3\<lparr>elms := (elms m3)(y \<mapsto> ?ey)\<rparr>"
  have x3: "elms m3 x = Some \<lparr>tqe_next = Some y, tqe_prev = ?l\<rparr>"
    "elms m3 y = Some \<lparr>tqe_next = hd_or zs NULL, tqe_prev = ?l\<rparr>"
    using m3(4) xy t(4) by simp_all
  have run: "TAILQ_INSERT_BEFORE y x m = Inr ?m'"
    using e t(4) xy m3(1) x3 by (cases e) (simp add: TAILQ_INSERT_BEFORE_def)
  have seg: "tq_seg (elms ?m') (First_of h) ys (Some x)" using m3(3) xy by simp
  have "tq_seg (elms m3) (Next_of y) zs NULL"
  proof (rule tq_seg_agree [OF t(5)])
    fix a assume "a \<in> set zs"
    then have "a \<notin> set ys" "a \<noteq> x" using t(2) xy by auto
    then show "elms m3 a = elms m a" using m3(4) by simp
  qed
  then have "tq_seg (elms ?m') (Next_of x) (y # zs) NULL" using xy by simp
  with m3(2) seg x3 xy t(2) have q: "tailq ?m' h (ys @ x # y # zs)"
    by (intro tailq_join) simp_all
  have "q_frame h (set (ys @ x # y # zs)) m ?m'"
    using m3(2,4) x3 e t(4) tq_seg_live [OF t(3)] tq_seg_live [OF t(5)] tq_seg_live [OF m3(3)]
      tq_seg_live [OF \<open>tq_seg (elms m3) (Next_of y) zs NULL\<close>]
    by (intro q_frame_intro) auto
  with run q show ?thesis by blast
qed

lemma load_link_last:
  assumes "heads m h = Some x" "tqh_first x = hd_or xs n" "tq_seg (elms m) (First_of h) xs n"
  shows "load_link m (last_link (First_of h) xs) = Inr n"
  using assms by (cases xs rule: rev_cases) (simp_all add: load_link_def)

text \<open>Walking backwards: the word next to the link in front of a suffix.\<close>

lemma TAILQ_LAST_ok:
  assumes "tailq m h xs"
  shows "TAILQ_LAST h m = Inr (if xs = [] then NULL else Some (last xs))"
proof (cases xs rule: rev_cases)
  case Nil
  with assms show ?thesis by (simp add: TAILQ_LAST_def tailq_def second_word_def load_link_def)
next
  case (snoc ys y)
  note t = tailq_split [OF assms [unfolded snoc]]
  with load_link_last [OF t(1) _ t(3)] show ?thesis
    by (simp add: snoc TAILQ_LAST_def second_word_def)
qed

lemma TAILQ_PREV_ok:
  assumes "tailq m h (ys @ x # zs)"
  shows "TAILQ_PREV x m = Inr (if ys = [] then NULL else Some (last ys))"
proof (cases ys rule: rev_cases)
  case Nil
  have l: "load_link m (last_link (First_of h) (x # zs)) = Inr NULL"
    using load_link_last [OF tailq_split(1) [OF assms], of "x # zs" NULL] assms Nil
    by (simp add: tailq_def)
  with tailq_split [OF assms] Nil show ?thesis
    by (simp add: TAILQ_PREV_def second_word_def)
next
  case (snoc us u)
  note t = tailq_split [OF assms]
  have "tailq m h (us @ u # x # zs)" using assms snoc by simp
  note u = tailq_split [OF this]
  with load_link_last [OF u(1) _ u(3)] t(4) snoc show ?thesis
    by (simp add: TAILQ_PREV_def second_word_def)
qed

lemma TAILQ_CONCAT_ok:
  assumes "tailq m h1 xs" "tailq m h2 ys" "h1 \<noteq> h2" "set xs \<inter> set ys = {}"
  shows "\<exists>m'. TAILQ_CONCAT h1 h2 m = Inr m' \<and> tailq m' h1 (xs @ ys) \<and> tailq m' h2 [] \<and>
    dom (elms m') = dom (elms m)"
proof (cases ys)
  case Nil
  with assms show ?thesis by (auto simp: TAILQ_CONCAT_def TAILQ_EMPTY_def tailq_def)
next
  case (Cons y zs)
  let ?l = "last_link (First_of h1) xs" and ?l2 = "last_link (Next_of y) zs"
  let ?hd1 = "\<lparr>tqh_first = hd_or xs NULL, tqh_last = ?l\<rparr>"
  have t1: "heads m h1 = Some ?hd1" "distinct xs" "tq_seg (elms m) (First_of h1) xs NULL"
    using assms(1) by (simp_all add: tailq_def)
  have t2: "heads m h2 = Some \<lparr>tqh_first = Some y, tqh_last = ?l2\<rparr>" "distinct (y # zs)"
    "elms m y = Some \<lparr>tqe_next = hd_or zs NULL, tqe_prev = First_of h2\<rparr>"
    "tq_seg (elms m) (Next_of y) zs NULL"
    using assms(2) by (simp_all add: tailq_def Cons)
  obtain m1 where m1: "store_link ?l (Some y) m = Inr m1"
    "heads m1 = (heads m)(h1 \<mapsto> ?hd1\<lparr>tqh_first := hd_or xs (Some y)\<rparr>)"
    "tq_seg (elms m1) (First_of h1) xs (Some y)" "\<And>a. a \<notin> set xs \<Longrightarrow> elms m1 a = elms m a"
    using store_link_last [OF t1(1,3,2), of "Some y"] by auto
  have y1: "elms m1 y = Some \<lparr>tqe_next = hd_or zs NULL, tqe_prev = First_of h2\<rparr>" "y \<notin> set xs"
    using m1(4) t2(3) assms(4) Cons by auto
  have z1: "tq_seg (elms m1) (Next_of y) zs NULL"
    by (rule tq_seg_agree [OF t2(4)]) (use m1(4) assms(4) Cons in auto)
  let ?m' = "m1\<lparr>elms := (elms m1)(y \<mapsto> \<lparr>tqe_next = hd_or zs NULL, tqe_prev = ?l\<rparr>),
     heads := (heads m1)(h1 \<mapsto> \<lparr>tqh_first = hd_or xs (Some y), tqh_last = ?l2\<rparr>,
                         h2 \<mapsto> \<lparr>tqh_first = NULL, tqh_last = First_of h2\<rparr>)\<rparr>"
  have run: "TAILQ_CONCAT h1 h2 m = Inr ?m'"
    using t1(1) t2(1) m1(1,2) y1(1) assms(3)
    by (simp add: TAILQ_CONCAT_def TAILQ_EMPTY_def TAILQ_INIT_def)
  have "tailq ?m' h1 (xs @ y # zs)"
    using t1(2) t2(2) m1(3) z1 y1(2) assms(3,4) Cons by (intro tailq_join) auto
  moreover have "tailq ?m' h2 []" by (simp add: tailq_def)
  moreover have "dom (elms ?m') = dom (elms m)"
  proof -
    have "q_frame h1 (set xs) m m1"
      using m1(2,4) tq_seg_live [OF t1(3)] tq_seg_live [OF m1(3)] by (intro q_frame_intro) auto
    then show ?thesis using y1(1) by (auto simp: q_frame_def)
  qed
  ultimately show ?thesis using run Cons by blast
qed

lemma TAILQ_REPLACE_ok:
  assumes "tailq m h (ys @ x # zs)" "elms m x2 \<noteq> None" "x2 \<notin> set (ys @ x # zs)"
  shows "\<exists>m'. TAILQ_REPLACE h x x2 m = Inr m' \<and> tailq m' h (ys @ x2 # zs) \<and>
    q_frame h (set (ys @ x2 # zs)) m m'"
proof -
  obtain e where e: "elms m x2 = Some e" using assms(2) by auto
  note t = tailq_split [OF assms(1)]
  let ?l = "last_link (First_of h) ys"
  let ?hd = "\<lparr>tqh_first = hd_or ys (Some x), tqh_last = last_link (Next_of x2) zs\<rparr>"
  let ?E = "(elms m)(x2 \<mapsto> \<lparr>tqe_next = hd_or zs NULL, tqe_prev = ?l\<rparr>)"
  let ?E' = "(case zs of [] \<Rightarrow> ?E
    | z # zs' \<Rightarrow> ?E(z \<mapsto> \<lparr>tqe_next = hd_or zs' NULL, tqe_prev = Next_of x2\<rparr>))"
  let ?m3 = "m\<lparr>elms := ?E', heads := (heads m)(h \<mapsto> ?hd)\<rparr>"
  have ne: "x2 \<noteq> x" "x2 \<notin> set ys" "x2 \<notin> set zs" using assms(3) by auto
  have seg: "tq_seg ?E' (First_of h) ys (Some x)"
    by (rule tq_seg_agree [OF t(3)]) (use ne t(2) in \<open>auto split: list.split\<close>)
  have "heads ?m3 h = Some ?hd" "tq_seg (elms ?m3) (First_of h) ys (Some x)" using seg by simp_all
  then obtain m4 where m4: "store_link ?l (Some x2) ?m3 = Inr m4"
    "heads m4 = (heads ?m3)(h \<mapsto> ?hd\<lparr>tqh_first := hd_or ys (Some x2)\<rparr>)"
    "tq_seg (elms m4) (First_of h) ys (Some x2)" "\<And>a. a \<notin> set ys \<Longrightarrow> elms m4 a = ?E' a"
    using store_link_last [of ?m3 h ?hd ys "Some x" "Some x2"] t(2) by auto
  have run: "TAILQ_REPLACE h x x2 m = Inr m4"
  proof (cases zs)
    case Nil
    have swap: "k\<lparr>heads := a, elms := b\<rparr> = k\<lparr>elms := b, heads := a\<rparr>" for k :: tq_mem and a b
      by (cases k) simp
    show ?thesis using Nil t e ne m4(1) by (cases e) (simp add: TAILQ_REPLACE_def swap)
  next
    case (Cons z zs')
    then have z: "z \<noteq> x2" "z \<noteq> x" "elms m z = Some \<lparr>tqe_next = hd_or zs' NULL, tqe_prev = Next_of x\<rparr>"
      using t(2,5) ne by auto
    moreover have "(heads m)(h \<mapsto> ?hd) = heads m" using t(1) Cons by (auto simp: last_link_def)
    ultimately show ?thesis
      using t(4) e ne Cons m4(1)
      by (cases e) (simp add: TAILQ_REPLACE_def fun_upd_twist [of z x2])
  qed
  have "?E' x2 = Some \<lparr>tqe_next = hd_or zs NULL, tqe_prev = ?l\<rparr>" using ne by (cases zs) auto
  then have x4: "elms m4 x2 = Some \<lparr>tqe_next = hd_or zs NULL, tqe_prev = ?l\<rparr>" using m4(4) ne by simp
  have "tq_seg ?E' (Next_of x2) zs NULL" using t(2,5) ne by (cases zs) auto
  then have z4: "tq_seg (elms m4) (Next_of x2) zs NULL"
    by (rule tq_seg_agree) (use m4(4) t(2) in auto)
  have q: "tailq m4 h (ys @ x2 # zs)"
    using m4(2,3) x4 z4 t(2) ne by (intro tailq_join) simp_all
  have "q_frame h (set (ys @ x2 # zs)) m m4"
    using m4(2,4) x4 e tq_seg_live [OF t(3)] tq_seg_live [OF t(5)] tq_seg_live [OF m4(3)] tq_seg_live [OF z4]
    by (intro q_frame_intro) (auto split: list.splits)
  with run q show ?thesis by blast
qed

lemma fix_first_ok:
  assumes "heads m h = Some \<lparr>tqh_first = hd_or xs NULL, tqh_last = last_link (First_of k) xs\<rparr>"
    "distinct xs" "tq_seg (elms m) (First_of k) xs NULL"
  shows "\<exists>m'. fix_first h m = Inr m' \<and> tailq m' h xs \<and> (\<forall>j. j \<noteq> h \<longrightarrow> heads m' j = heads m j) \<and>
    (\<forall>a. a \<notin> set xs \<longrightarrow> elms m' a = elms m a)"
proof (cases xs)
  case Nil
  with assms show ?thesis by (simp add: fix_first_def tailq_def)
next
  case (Cons y ys)
  with assms show ?thesis by (auto simp: fix_first_def tailq_def)
qed

lemma TAILQ_SWAP_ok:
  assumes "tailq m h1 xs" "tailq m h2 ys" "h1 \<noteq> h2" "set xs \<inter> set ys = {}"
  shows "\<exists>m'. TAILQ_SWAP h1 h2 m = Inr m' \<and> tailq m' h1 ys \<and> tailq m' h2 xs"
proof -
  let ?a = "\<lparr>tqh_first = hd_or xs NULL, tqh_last = last_link (First_of h1) xs\<rparr>"
  let ?b = "\<lparr>tqh_first = hd_or ys NULL, tqh_last = last_link (First_of h2) ys\<rparr>"
  have t: "heads m h1 = Some ?a" "heads m h2 = Some ?b" "distinct xs" "distinct ys"
    "tq_seg (elms m) (First_of h1) xs NULL" "tq_seg (elms m) (First_of h2) ys NULL"
    using assms(1,2) by (simp_all add: tailq_def)
  let ?m2 = "m\<lparr>heads := (heads m)(h1 \<mapsto> ?b, h2 \<mapsto> ?a)\<rparr>"
  from fix_first_ok [of ?m2 h1 ys h2] t(4,6) assms(3) obtain m3 where
    m3: "fix_first h1 ?m2 = Inr m3" "tailq m3 h1 ys" "\<And>j. j \<noteq> h1 \<Longrightarrow> heads m3 j = heads ?m2 j"
    "\<And>a. a \<notin> set ys \<Longrightarrow> elms m3 a = elms m a" by auto
  have "tq_seg (elms m3) (First_of h1) xs NULL"
    by (rule tq_seg_agree [OF t(5)]) (use m3(4) assms(4) in auto)
  moreover have "heads m3 h2 = Some ?a" using m3(3) assms(3) by simp
  ultimately obtain m4 where m4: "fix_first h2 m3 = Inr m4" "tailq m4 h2 xs"
    "\<And>j. j \<noteq> h2 \<Longrightarrow> heads m4 j = heads m3 j" "\<And>a. a \<notin> set xs \<Longrightarrow> elms m4 a = elms m3 a"
    using fix_first_ok [of m3 h2 xs h1] t(3) by auto
  have "tq_seg (elms m3) (First_of h1) ys NULL" using m3(2) by (simp add: tailq_def)
  then have "tq_seg (elms m4) (First_of h1) ys NULL"
    by (rule tq_seg_agree) (use m4(4) assms(4) in auto)
  with m3(2) m4(3) assms(3) have "tailq m4 h1 ys" by (simp add: tailq_def)
  moreover have "TAILQ_SWAP h1 h2 m = Inr m4"
    using t(1,2) m3(1) m4(1) assms(3) by (simp add: TAILQ_SWAP_def)
  ultimately show ?thesis using m4(2) by blast
qed

interpretation tq: op_queue "\<lambda>m. tailq m h" "TAILQ_FIRST h" TAILQ_NEXT "\<lambda>m. dom (elms m)"
  "TAILQ_INSERT_TAIL h" "TAILQ_REMOVE h" "TAILQ_INSERT_HEAD h" for h
proof
  fix m xs x
  assume "tailq m h xs" "x \<in> dom (elms m)" "x \<notin> set xs"
  then show "\<exists>m'. TAILQ_INSERT_HEAD h x m = Inr m' \<and> tailq m' h (x # xs) \<and> dom (elms m') = dom (elms m)"
    using TAILQ_INSERT_HEAD_ok [of m h xs x] by (auto simp: q_frame_def)
next
  fix m xs x
  assume "tailq m h xs" "x \<in> dom (elms m)" "x \<notin> set xs"
  then show "\<exists>m'. TAILQ_INSERT_TAIL h x m = Inr m' \<and> tailq m' h (xs @ [x]) \<and> dom (elms m') = dom (elms m)"
    using TAILQ_INSERT_TAIL_ok [of m h xs x] by (auto simp: q_frame_def)
next
  fix m ys x zs
  assume "tailq m h (ys @ x # zs)"
  then show "\<exists>m'. TAILQ_REMOVE h x m = Inr m' \<and> tailq m' h (ys @ zs) \<and> dom (elms m') = dom (elms m)"
    using TAILQ_REMOVE_ok [of m h ys x zs] by (auto simp: q_frame_def)
qed (auto simp: TAILQ_FIRST_def TAILQ_NEXT_def tailq_def dest!: tailq_split(4) intro: tailq_split(4))

text \<open>Forward and backward links agree.\<close>

lemma tailq_next_prev:
  assumes "tailq m h (ys @ x # y # zs)"
  shows "TAILQ_NEXT x m = Inr (Some y)" "TAILQ_PREV y m = Inr (Some x)"
  using tq.walk_next [OF assms] TAILQ_PREV_ok [of m h "ys @ [x]" y zs] assms by simp_all

section \<open>Iteration\<close>

text \<open>
  The loops: \<open>mem\<close> picks the queue's memory out of the state the body works on, \<open>n\<close> bounds
  the number of rounds.
\<close>

definition TAILQ_FOREACH :: "('m \<Rightarrow> tq_mem) \<Rightarrow> nat \<Rightarrow> (addr \<Rightarrow> 'm \<Rightarrow> 'm res) \<Rightarrow> nat \<Rightarrow> 'm \<Rightarrow> 'm res" where
  "TAILQ_FOREACH mem h body n m =
     res_bind (TAILQ_FIRST h (mem m)) (\<lambda>var. foreach_from (\<lambda>x m. TAILQ_NEXT x (mem m)) body n var m)"

definition TAILQ_FOREACH_FROM ::
  "('m \<Rightarrow> tq_mem) \<Rightarrow> ptr \<Rightarrow> nat \<Rightarrow> (addr \<Rightarrow> 'm \<Rightarrow> 'm res) \<Rightarrow> nat \<Rightarrow> 'm \<Rightarrow> 'm res" where
  "TAILQ_FOREACH_FROM mem var h body n m =
     res_bind (start_at (\<lambda>m. TAILQ_FIRST h (mem m)) var m)
       (\<lambda>var. foreach_from (\<lambda>x m. TAILQ_NEXT x (mem m)) body n var m)"

definition TAILQ_FOREACH_SAFE ::
  "('m \<Rightarrow> tq_mem) \<Rightarrow> nat \<Rightarrow> (addr \<Rightarrow> 'm \<Rightarrow> 'm res) \<Rightarrow> nat \<Rightarrow> 'm \<Rightarrow> 'm res" where
  "TAILQ_FOREACH_SAFE mem h body n m =
     res_bind (TAILQ_FIRST h (mem m)) (\<lambda>var. foreach_safe_from (\<lambda>x m. TAILQ_NEXT x (mem m)) body n var m)"

definition TAILQ_FOREACH_FROM_SAFE ::
  "('m \<Rightarrow> tq_mem) \<Rightarrow> ptr \<Rightarrow> nat \<Rightarrow> (addr \<Rightarrow> 'm \<Rightarrow> 'm res) \<Rightarrow> nat \<Rightarrow> 'm \<Rightarrow> 'm res" where
  "TAILQ_FOREACH_FROM_SAFE mem var h body n m =
     res_bind (start_at (\<lambda>m. TAILQ_FIRST h (mem m)) var m)
       (\<lambda>var. foreach_safe_from (\<lambda>x m. TAILQ_NEXT x (mem m)) body n var m)"

definition TAILQ_FOREACH_REVERSE ::
  "('m \<Rightarrow> tq_mem) \<Rightarrow> nat \<Rightarrow> (addr \<Rightarrow> 'm \<Rightarrow> 'm res) \<Rightarrow> nat \<Rightarrow> 'm \<Rightarrow> 'm res" where
  "TAILQ_FOREACH_REVERSE mem h body n m =
     res_bind (TAILQ_LAST h (mem m)) (\<lambda>var. foreach_from (\<lambda>x m. TAILQ_PREV x (mem m)) body n var m)"

definition TAILQ_FOREACH_REVERSE_FROM ::
  "('m \<Rightarrow> tq_mem) \<Rightarrow> ptr \<Rightarrow> nat \<Rightarrow> (addr \<Rightarrow> 'm \<Rightarrow> 'm res) \<Rightarrow> nat \<Rightarrow> 'm \<Rightarrow> 'm res" where
  "TAILQ_FOREACH_REVERSE_FROM mem var h body n m =
     res_bind (start_at (\<lambda>m. TAILQ_LAST h (mem m)) var m)
       (\<lambda>var. foreach_from (\<lambda>x m. TAILQ_PREV x (mem m)) body n var m)"

definition TAILQ_FOREACH_REVERSE_SAFE ::
  "('m \<Rightarrow> tq_mem) \<Rightarrow> nat \<Rightarrow> (addr \<Rightarrow> 'm \<Rightarrow> 'm res) \<Rightarrow> nat \<Rightarrow> 'm \<Rightarrow> 'm res" where
  "TAILQ_FOREACH_REVERSE_SAFE mem h body n m =
     res_bind (TAILQ_LAST h (mem m)) (\<lambda>var. foreach_safe_from (\<lambda>x m. TAILQ_PREV x (mem m)) body n var m)"

definition TAILQ_FOREACH_REVERSE_FROM_SAFE ::
  "('m \<Rightarrow> tq_mem) \<Rightarrow> ptr \<Rightarrow> nat \<Rightarrow> (addr \<Rightarrow> 'm \<Rightarrow> 'm res) \<Rightarrow> nat \<Rightarrow> 'm \<Rightarrow> 'm res" where
  "TAILQ_FOREACH_REVERSE_FROM_SAFE mem var h body n m =
     res_bind (start_at (\<lambda>m. TAILQ_LAST h (mem m)) var m)
       (\<lambda>var. foreach_safe_from (\<lambda>x m. TAILQ_PREV x (mem m)) body n var m)"

section \<open>Visiting, forwards and backwards\<close>

interpretation tw: two_way "\<lambda>m. tailq m h" "TAILQ_FIRST h" TAILQ_NEXT "TAILQ_LAST h" TAILQ_PREV for h
  by unfold_locales (auto simp: hd_or_rev TAILQ_LAST_ok TAILQ_PREV_ok)

text \<open>The fast variants agree with the standard ones.\<close>

lemma TAILQ_LAST_FAST_eq: "tailq m h xs \<Longrightarrow> TAILQ_LAST_FAST h m = TAILQ_LAST h m"
  using TAILQ_LAST_ok [of m h xs]
  by (auto simp: TAILQ_LAST_FAST_def TAILQ_EMPTY_def tailq_def last_link_def)

lemma TAILQ_PREV_FAST_eq:
  assumes "tailq m h (ys @ x # zs)"
  shows "TAILQ_PREV_FAST x h m = TAILQ_PREV x m"
  using TAILQ_PREV_ok [OF assms] tailq_split(4) [OF assms] by (auto simp: TAILQ_PREV_FAST_def last_link_def)

lemma TAILQ_REMOVE_HEAD_ok:
  assumes "tailq m h (x # xs)"
  shows "\<exists>m'. TAILQ_REMOVE_HEAD h m = Inr m' \<and> tailq m' h xs \<and> q_frame h (set xs) m m'"
  using TAILQ_REMOVE_ok [of m h "[]" x xs] assms tq.walk_first [OF assms]
  by (auto simp: TAILQ_REMOVE_HEAD_def)

text \<open>A body that does not touch the queue, run in either direction.\<close>

interpretation tf: plain_loop "\<lambda>p. tailq (fst p) h" "\<lambda>p. TAILQ_FIRST h (fst p)" "\<lambda>x p. TAILQ_NEXT x (fst p)"
  "user_body f" for h f
  by unfold_locales (auto simp: user_body_def res_iff tq.walk_first tq.walk_next tq.rep_distinct)

interpretation tr: plain_loop "\<lambda>p xs. tailq (fst p) h (rev xs)" "\<lambda>p. TAILQ_LAST h (fst p)"
  "\<lambda>x p. TAILQ_PREV x (fst p)"
  "user_body f" for h f
  by unfold_locales (auto simp: user_body_def res_iff tw.rv.walk_first tw.rv.walk_next dest: tw.rv.rep_distinct)

lemma tailq_foreach_all:
  assumes "tailq m h xs" "length xs \<le> n"
  shows "TAILQ_FOREACH fst h (user_body f) n (m, s) = res_bind (fold_res f xs s) (\<lambda>s'. Inr (m, s'))"
    "TAILQ_FOREACH_SAFE fst h (user_body f) n (m, s) = res_bind (fold_res f xs s) (\<lambda>s'. Inr (m, s'))"
    "TAILQ_FOREACH_REVERSE fst h (user_body f) n (m, s) = res_bind (fold_res f (rev xs) s) (\<lambda>s'. Inr (m, s'))"
    "TAILQ_FOREACH_REVERSE_SAFE fst h (user_body f) n (m, s) = res_bind (fold_res f (rev xs) s) (\<lambda>s'. Inr (m, s'))"
  using tf.plain_from [where m = "(m, s)" and h = h and ys = "[]" and zs = xs and n = n and f = f] tf.plain_safe_from [where m = "(m, s)" and h = h and ys = "[]" and zs = xs and n = n and f = f]
    tr.plain_from [where m = "(m, s)" and h = h and ys = "[]" and zs = "rev xs" and n = n and f = f] tr.plain_safe_from [where m = "(m, s)" and h = h and ys = "[]" and zs = "rev xs" and n = n and f = f]
    tq.walk_first [OF assms(1)] tw.last_law [OF assms(1)] assms
  by (simp_all add: TAILQ_FOREACH_def TAILQ_FOREACH_SAFE_def TAILQ_FOREACH_REVERSE_def
      TAILQ_FOREACH_REVERSE_SAFE_def fold_user_body)

lemma tailq_foreach_from:
  assumes "tailq m h (ys @ x # zs)" "length ys + length zs < n"
  shows "TAILQ_FOREACH_FROM fst (Some x) h (user_body f) n (m, s) =
      res_bind (fold_res f (x # zs) s) (\<lambda>s'. Inr (m, s'))"
    "TAILQ_FOREACH_FROM_SAFE fst (Some x) h (user_body f) n (m, s) =
      res_bind (fold_res f (x # zs) s) (\<lambda>s'. Inr (m, s'))"
    "TAILQ_FOREACH_REVERSE_FROM fst (Some x) h (user_body f) n (m, s) =
      res_bind (fold_res f (x # rev ys) s) (\<lambda>s'. Inr (m, s'))"
    "TAILQ_FOREACH_REVERSE_FROM_SAFE fst (Some x) h (user_body f) n (m, s) =
      res_bind (fold_res f (x # rev ys) s) (\<lambda>s'. Inr (m, s'))"
  using tf.plain_from [where m = "(m, s)" and h = h and ys = ys and zs = "x # zs" and n = n and f = f] tf.plain_safe_from [where m = "(m, s)" and h = h and ys = ys and zs = "x # zs" and n = n and f = f]
    tr.plain_from [where m = "(m, s)" and h = h and ys = "rev zs" and zs = "x # rev ys" and n = n and f = f]
    tr.plain_safe_from [where m = "(m, s)" and h = h and ys = "rev zs" and zs = "x # rev ys" and n = n and f = f] assms
  by (simp_all add: TAILQ_FOREACH_FROM_def TAILQ_FOREACH_FROM_SAFE_def TAILQ_FOREACH_REVERSE_FROM_def
      TAILQ_FOREACH_REVERSE_FROM_SAFE_def start_at_def fold_user_body flip: fold_res.simps(2))

text \<open>The checks never fire on a well-formed queue.\<close>

lemma tailq_check_ends:
  assumes "tailq m h xs"
  shows "QMD_TAILQ_CHECK_HEAD h m = Inr ()" "QMD_TAILQ_CHECK_TAIL h m = Inr ()"
proof -
  show "QMD_TAILQ_CHECK_HEAD h m = Inr ()"
    using assms tq.walk_first [OF assms] by (cases xs) (auto simp: QMD_TAILQ_CHECK_HEAD_def tailq_def)
  show "QMD_TAILQ_CHECK_TAIL h m = Inr ()"
    using assms by (cases xs rule: rev_cases) (auto simp: QMD_TAILQ_CHECK_TAIL_def tailq_def load_link_def)
qed

lemma tailq_check_elem:
  assumes "tailq m h (ys @ x # zs)"
  shows "QMD_TAILQ_CHECK_NEXT x m = Inr ()" "QMD_TAILQ_CHECK_PREV x m = Inr ()"
proof -
  note t = tailq_split [OF assms]
  show "QMD_TAILQ_CHECK_NEXT x m = Inr ()"
    using t(4,5) by (cases zs) (auto simp: QMD_TAILQ_CHECK_NEXT_def TAILQ_NEXT_def)
  show "QMD_TAILQ_CHECK_PREV x m = Inr ()"
    using t(1,3,4) by (cases ys rule: rev_cases) (auto simp: QMD_TAILQ_CHECK_PREV_def load_link_def)
qed

section \<open>Properties\<close>

text \<open>Queue 0 holds the elements 1 and 2, queue 1 the element 3; element 4 is in none.\<close>

definition tq_example :: tq_mem where
  "tq_example =
     \<lparr>heads = [0 \<mapsto> \<lparr>tqh_first = Some 1, tqh_last = Next_of 2\<rparr>, 1 \<mapsto> \<lparr>tqh_first = Some 3, tqh_last = Next_of 3\<rparr>],
      elms = [1 \<mapsto> \<lparr>tqe_next = Some 2, tqe_prev = First_of 0\<rparr>, 2 \<mapsto> \<lparr>tqe_next = NULL, tqe_prev = Next_of 1\<rparr>,
              3 \<mapsto> \<lparr>tqe_next = NULL, tqe_prev = First_of 1\<rparr>, 4 \<mapsto> \<lparr>tqe_next = NULL, tqe_prev = Null_Link\<rparr>]\<rparr>"

lemma tq_example_rep: "tailq tq_example 0 [1, 2]" "tailq tq_example 1 [3]"
  by (simp_all add: tailq_def tq_example_def)

text \<open>
  C34: The iteration macros visit every element exactly once, in order: running a
  body over a queue is running it over the list of the elements, forwards from the first or from a
  given element, and backwards from the last, until the body fails. The loops end after as many
  rounds as there are elements.
\<close>

theorem tailq_foreach_order:
  assumes "tailq m h (ys @ x # zs)" "length (ys @ x # zs) \<le> n"
  shows "TAILQ_FOREACH fst h (user_body f) n (m, s) =
      res_bind (fold_res f (ys @ x # zs) s) (\<lambda>s'. Inr (m, s')) \<and>
    TAILQ_FOREACH_FROM fst (Some x) h (user_body f) n (m, s) =
      res_bind (fold_res f (x # zs) s) (\<lambda>s'. Inr (m, s')) \<and>
    TAILQ_FOREACH_REVERSE fst h (user_body f) n (m, s) =
      res_bind (fold_res f (rev (ys @ x # zs)) s) (\<lambda>s'. Inr (m, s')) \<and>
    TAILQ_FOREACH_REVERSE_FROM fst (Some x) h (user_body f) n (m, s) =
      res_bind (fold_res f (x # rev ys) s) (\<lambda>s'. Inr (m, s'))"
  using tailq_foreach_all(1,3) [OF assms, of f s] tailq_foreach_from(1,3) [OF assms(1), of n f s] assms(2)
  by simp

theorem tailq_foreach_order_witness:
  "TAILQ_FOREACH fst 0 (user_body (\<lambda>x out. Inr (out @ [x]))) 2 (tq_example, []) = Inr (tq_example, [1, 2]) \<and>
   TAILQ_FOREACH_REVERSE fst 0 (user_body (\<lambda>x out. Inr (out @ [x]))) 2 (tq_example, []) = Inr (tq_example, [2, 1])"
  using tailq_foreach_order [of tq_example 0 "[]" 1 "[2]" 2 "\<lambda>x out. Inr (out @ [x])" "[]"] tq_example_rep(1)
  by simp

end
