(* ===== verification/Socket_Server.thy ===== *)
theory Socket_Server
  imports Client_Flow Tail_Queue
begin

text \<open>
  The main thread of the server: \<open>server/aesdsocket.c\<close>. The clients live in a map from
  addresses to \<open>client_info\<close>, with their \<open>nodes\<close> members in the memory of theory
  \<open>Tail_Queue\<close>; descriptors, streams and threads are tracked so that leaks and double
  releases show. System calls are the parameter \<open>E\<close>; \<open>accept\<close> and \<open>pthread_join\<close> may wait for ever,
  and then so does the main thread (\<open>No_Return\<close>). What the client threads do while the main thread
  waits is an argument of the main loop. \<open>do_work\<close> is what the threads of the program do, seen from
  here: each serves its peer to the end, or has handled what came so far and waits in \<open>recv\<close>.
\<close>

section \<open>Data\<close>

record server =
  cmem :: "addr \<rightharpoonup> client_info"   \<comment> \<open>the live \<open>struct client_info\<close>\<close>
  tq :: tq_mem                    \<comment> \<open>\<open>clients\<close> is queue 0\<close>
  sfrags :: frag_heap
  fds :: "int set"                \<comment> \<open>open descriptors\<close>
  streams :: "addr set"           \<comment> \<open>open \<open>FILE\<close>s, named by the client that owns them\<close>
  threads :: "nat set"            \<comment> \<open>threads created and not joined\<close>
  calls :: nat                    \<comment> \<open>system calls made so far\<close>
  sdev :: dev_spec                \<comment> \<open>the device behind the data file\<close>
  slock :: rw_semaphore           \<comment> \<open>\<open>shared.rw_file_lock\<close>\<close>
  schars :: heap                  \<comment> \<open>character blocks\<close>
  sallocs :: nat                  \<comment> \<open>allocations made by the client threads\<close>
  outbox :: "(nat \<times> byte list) list"
    \<comment> \<open>what each thread has sent to its peer, latest last\<close>

record os =
  malloc_client :: "nat \<Rightarrow> (addr \<rightharpoonup> client_info) \<Rightarrow> ptr"
  fopen_ok :: "nat \<Rightarrow> bool"
  pthread_create :: "nat \<Rightarrow> nat set \<Rightarrow> nat option"
    \<comment> \<open>the new thread, or \<open>None\<close> for a non-zero result\<close>
  accept :: "nat \<Rightarrow> int set \<Rightarrow> int option"
    \<comment> \<open>its result, or \<open>None\<close> when it waits for ever\<close>
  join_returns :: "nat \<Rightarrow> bool"
    \<comment> \<open>whether \<open>pthread_join\<close> of the thread returns, that is, the thread ends\<close>

definition os_laws :: "os \<Rightarrow> bool" where
  "os_laws E \<longleftrightarrow>
     (\<forall>t m a. malloc_client E t m = Some a \<longrightarrow> m a = None) \<and>
     (\<forall>t ts i. pthread_create E t ts = Some i \<longrightarrow> i \<notin> ts) \<and>
     (\<forall>t F fd. accept E t F = Some fd \<longrightarrow> fd = - 1 \<or> 0 \<le> fd \<and> fd \<notin> F)"

text \<open>No call waits for ever.\<close>

definition waits_end :: "os \<Rightarrow> bool" where
  "waits_end E \<longleftrightarrow> (\<forall>t F. accept E t F \<noteq> None) \<and> (\<forall>i. join_returns E i)"

definition client_at :: "server \<Rightarrow> addr \<Rightarrow> client_info res" where
  "client_at s a = (case cmem s a of None \<Rightarrow> Inl Use_After_Free | Some c \<Rightarrow> Inr c)"

text \<open>\<open>free(client)\<close>; \<open>close(fd)\<close>.\<close>

definition free_client :: "addr \<Rightarrow> server \<Rightarrow> server res" where
  "free_client a s =
     (case cmem s a of
        None \<Rightarrow> Inl Bad_Free
      | Some _ \<Rightarrow> Inr (s\<lparr>cmem := (cmem s)(a := None), tq := (tq s)\<lparr>elms := (elms (tq s))(a := None)\<rparr>\<rparr>))"

definition close_fd :: "int \<Rightarrow> server \<Rightarrow> server" where
  "close_fd fd s = s\<lparr>fds := fds s - {fd}\<rparr>"

section \<open>Signals\<close>

definition SIGINT :: int where "SIGINT = 2"
definition SIGTERM :: int where "SIGTERM = 15"

definition signal_handler :: "int \<Rightarrow> int \<Rightarrow> int" where
  "signal_handler sig g_running =
     (if sig = SIGINT \<or> sig = SIGTERM then 0 else g_running)"

section \<open>Opening the socket\<close>

text \<open>
  An address of the list \<open>getaddrinfo\<close> returns, with the results of the three calls made
  for it.
\<close>

record addrinfo =
  r_socket :: int
  r_setsockopt :: int
  r_bind :: int

text \<open>
  The loop; it returns \<open>sock_fd\<close>, whether it was left by \<open>break\<close> (then \<open>rp != NULL\<close>), and the
  open descriptors.
\<close>

fun socket_loop :: "addrinfo list \<Rightarrow> int \<Rightarrow> int set \<Rightarrow> int \<times> bool \<times> int set" where
  "socket_loop [] sock_fd F = (sock_fd, False, F)"
| "socket_loop (rp # rps) sock_fd F =
     (let fd = r_socket rp in
      if fd = - 1 then socket_loop rps fd F
      else if r_setsockopt rp = - 1 then socket_loop rps fd (insert fd F - {fd})
      else if r_bind rp = 0 then (fd, True, insert fd F)
      else socket_loop rps (- 1) (insert fd F - {fd}))"

datatype exit_code = EXIT_SUCCESS | EXIT_FAILURE

text \<open>\<open>gai\<close> is the result of \<open>getaddrinfo\<close>: an error, or the addresses.\<close>

definition open_aesd_socket ::
  "int + addrinfo list \<Rightarrow> int set \<Rightarrow> (exit_code + int \<times> int set) res" where
  "open_aesd_socket gai F =
     (case gai of
        Inl e \<Rightarrow> Inr (Inl EXIT_FAILURE)
      | Inr ais \<Rightarrow>
          c_assert (ais \<noteq> [])
           (case socket_loop ais (- 1) F of (sock_fd, brk, F') \<Rightarrow>
              c_assert (sock_fd \<noteq> - 1 \<or> \<not> brk)
               (Inr (if sock_fd = - 1 then Inl EXIT_FAILURE else Inr (sock_fd, F')))))"

section \<open>Clients\<close>

text \<open>The contents of a \<open>struct client_info\<close> cleared by \<open>memset\<close>.\<close>

definition zero_client :: client_info where
  "zero_client = \<lparr>peer_fd = 0, thread = 0, shared = False, fragments = NULL, cfile = NULL\<rparr>"

definition zero_nodes :: tq_entry where
  "zero_nodes = \<lparr>tqe_next = NULL, tqe_prev = Null_Link\<rparr>"

definition start_client_processing :: "os \<Rightarrow> int \<Rightarrow> server \<Rightarrow> server res" where
  "start_client_processing E fd s =
     c_assert (0 \<le> fd)
      (let s1 = s\<lparr>calls := calls s + 1\<rparr> in
       case malloc_client E (calls s) (cmem s) of
         None \<Rightarrow> Inr (close_fd fd s1)
       | Some a \<Rightarrow>
           let c = zero_client\<lparr>shared := True, peer_fd := fd, fragments := NULL\<rparr>;
               s2 = s1\<lparr>cmem := (cmem s1)(a \<mapsto> c),
                       tq := (tq s1)\<lparr>elms := (elms (tq s1))(a \<mapsto> zero_nodes)\<rparr>\<rparr>;
               s3 = s2\<lparr>calls := calls s2 + 1\<rparr>
           in if \<not> fopen_ok E (calls s2) then
                res_bind (free_client a s3) (\<lambda>s4. Inr (close_fd fd s4))
              else
                let f = \<lparr>file_pos = 0, file_eof = False\<rparr>;
                    s4 = s3\<lparr>cmem := (cmem s3)(a \<mapsto> c\<lparr>cfile := Some f\<rparr>), streams := insert a (streams s3)\<rparr>;
                    s5 = s4\<lparr>calls := calls s4 + 1\<rparr>
                in res_bind
                     (case pthread_create E (calls s4) (threads s4) of
                        None \<Rightarrow> res_bind (free_client a s5) (\<lambda>s6. Inr (close_fd fd s6))
                      | Some i \<Rightarrow> Inr (s5\<lparr>cmem := (cmem s5)(a \<mapsto> c\<lparr>cfile := Some f, thread := i\<rparr>),
                                           threads := insert i (threads s5)\<rparr>))
                     (\<lambda>s7. res_bind (TAILQ_INSERT_TAIL 0 a (tq s7)) (\<lambda>q. Inr (s7\<lparr>tq := q\<rparr>))))"

text \<open>
  The body of the loop of \<open>join_completed_clients\<close>. \<open>pthread_cancel\<close> changes no state of the
  main thread; what a cancelled thread leaves behind is what its client holds when
  \<open>pthread_join\<close> returns, if it does. At most \<open>n\<close> fragments of a client are freed.
\<close>

definition join_body :: "os \<Rightarrow> nat \<Rightarrow> bool \<Rightarrow> addr \<Rightarrow> server \<Rightarrow> server res" where
  "join_body E n cancel a s =
     res_bind (client_at s a) (\<lambda>c.
       if cancel \<or> peer_fd c < 0 then
         if \<not> join_returns E (thread c) then Inl No_Return
         else
         let s1 = s\<lparr>threads := threads s - {thread c}\<rparr>;
             s2 = (if 0 \<le> peer_fd c then close_fd (peer_fd c) s1 else s1)
         in res_bind (packet_fragments_free n (fragments c) (sfrags s2)) (\<lambda>h.
              let s3 = s2\<lparr>sfrags := h\<rparr>;
                  s4 = (if cfile c \<noteq> NULL then s3\<lparr>streams := streams s3 - {a}\<rparr> else s3)
              in res_bind (TAILQ_REMOVE 0 a (tq s4)) (\<lambda>q.
                   free_client a (s4\<lparr>tq := q\<rparr>)))
       else Inr s)"

definition join_completed_clients :: "os \<Rightarrow> nat \<Rightarrow> nat \<Rightarrow> bool \<Rightarrow> server \<Rightarrow> server res" where
  "join_completed_clients E k n cancel s =
     TAILQ_FOREACH_SAFE tq 0 (join_body E n cancel) k s"

section \<open>A client thread, seen from the main thread\<close>

text \<open>
  The state \<open>process_client_thread\<close> works on is the part of the server's state it can reach.
\<close>

definition load_client :: "addr \<Rightarrow> server \<Rightarrow> cstate" where
  "load_client a s =
     \<lparr>allocs = sallocs s, frags = sfrags s, chars = schars s, sent = [], open_fds = fds s,
      dev = sdev s, rw_file_lock = slock s, client = the (cmem s a)\<rparr>"

definition store_client :: "addr \<Rightarrow> cstate \<Rightarrow> server \<Rightarrow> server" where
  "store_client a \<sigma> s =
     s\<lparr>sallocs := allocs \<sigma>, sfrags := frags \<sigma>, schars := chars \<sigma>,
       outbox := outbox s @ [(thread (client \<sigma>), concat (sent \<sigma>))], fds := open_fds \<sigma>,
       sdev := dev \<sigma>, slock := rw_file_lock \<sigma>, cmem := (cmem s)(a \<mapsto> client \<sigma>)\<rparr>"

definition run_client :: "libc \<Rightarrow> nat \<Rightarrow> byte list list \<Rightarrow> addr \<Rightarrow> server \<Rightarrow> server res" where
  "run_client L n chunks a s =
     res_bind (client_at s a) (\<lambda>_.
     res_bind (process_client_thread L n chunks (Some a) (load_client a s)) (\<lambda>(_, \<sigma>).
       Inr (store_client a \<sigma> s)))"

text \<open>A thread that has handled \<open>chunks\<close> and waits in \<open>recv\<close> for more.\<close>

definition receive_client :: "libc \<Rightarrow> nat \<Rightarrow> byte list list \<Rightarrow> addr \<Rightarrow> server \<Rightarrow> server res" where
  "receive_client L n chunks a s =
     res_bind (client_at s a) (\<lambda>_.
     res_bind (client_receives L n chunks (load_client a s)) (\<lambda>\<sigma>.
       Inr (store_client a \<sigma> s)))"

text \<open>
  The work of the client threads during a wait of the main thread: clients that have not begun
  serve their peers, one after the other, to the end (the peer sends the chunks and closes) or up
  to a call of \<open>recv\<close> that waits.
\<close>

datatype work = Serve addr "byte list list" | Receive addr "byte list list"

definition not_begun :: "server \<Rightarrow> addr \<Rightarrow> bool" where
  "not_begun s a \<longleftrightarrow> (case cmem s a of None \<Rightarrow> False | Some c \<Rightarrow> 0 \<le> peer_fd c \<and> fragments c = NULL)"

fun do_work :: "libc \<Rightarrow> nat \<Rightarrow> work list \<Rightarrow> server \<Rightarrow> server res" where
  "do_work L n [] s = Inr s"
| "do_work L n (Serve a chunks # ws) s =
     res_bind (if not_begun s a then run_client L n chunks a s else Inr s) (do_work L n ws)"
| "do_work L n (Receive a chunks # ws) s =
     res_bind (if not_begun s a then receive_client L n chunks a s else Inr s) (do_work L n ws)"

section \<open>The main loop\<close>

text \<open>
  A round of the loop: the signals delivered and what the client threads do during the call of
  \<open>accept\<close>. The result is \<open>No_Return\<close> when a call of \<open>accept\<close> does not return, which is also so
  when the rounds given are over and \<open>g_running\<close> is still 1.
\<close>

type_synonym thread_act = "server \<Rightarrow> server res"
type_synonym round = "int list \<times> thread_act"

fun main_loop :: "os \<Rightarrow> nat \<Rightarrow> nat \<Rightarrow> int \<Rightarrow> round list \<Rightarrow> server \<Rightarrow> server res" where
  "main_loop E k n g_running [] s = (if g_running = 1 then Inl No_Return else Inr s)"
| "main_loop E k n g_running ((sigs, act) # rs) s =
     (if g_running \<noteq> 1 then Inr s
      else
       res_bind (act s) (\<lambda>s0.
         let g = fold signal_handler sigs g_running;
             s1 = s0\<lparr>calls := calls s0 + 1\<rparr>
         in case accept E (calls s0) (fds s0) of
              None \<Rightarrow> Inl No_Return
            | Some peer \<Rightarrow>
                if peer = - 1 then main_loop E k n g rs s1
                else
                  res_bind (start_client_processing E peer (s1\<lparr>fds := insert peer (fds s1)\<rparr>)) (\<lambda>s2.
                  res_bind (join_completed_clients E k n False s2) (\<lambda>s3.
                    main_loop E k n g rs s3))))"

text \<open>
  \<open>listen_res\<close> and \<open>init_res\<close> are the results of \<open>listen\<close> and \<open>pthread_rwlock_init\<close>; \<open>act\<close> is what
  the threads do after the last round.
\<close>

definition run_server_logic ::
  "os \<Rightarrow> nat \<Rightarrow> nat \<Rightarrow> int \<Rightarrow> int \<Rightarrow> int \<Rightarrow> round list \<Rightarrow> thread_act \<Rightarrow> server
     \<Rightarrow> (exit_code + server) res" where
  "run_server_logic E k n server_sock_fd listen_res init_res rs act s =
     c_assert (0 \<le> server_sock_fd)
      (if listen_res = - 1 then Inr (Inr s)
       else if init_res \<noteq> 0 then Inr (Inl EXIT_FAILURE)
       else
         res_bind (TAILQ_INIT 0 (tq s)) (\<lambda>q.
         res_bind (main_loop E k n 1 rs (s\<lparr>tq := q\<rparr>)) (\<lambda>s1.
         res_bind (act s1) (\<lambda>s2.
         res_bind (join_completed_clients E k n True s2) (\<lambda>s3.
         res_bind (TAILQ_EMPTY 0 (tq s3)) (\<lambda>empty.
           c_assert empty (Inr (Inr s3))))))))"

section \<open>The program\<close>

definition daemonize_flag :: "string list \<Rightarrow> bool" where
  "daemonize_flag argv \<longleftrightarrow> length argv = 2 \<and> argv ! 1 = ''-d''"

text \<open>
  \<open>main\<close>: the exit code and the state at exit of the process that \<open>fork_res\<close> selects; \<open>run\<close> is
  the server on the socket. An \<open>exit\<close> inside the server leaves its state to the system.
\<close>

definition aesdsocket_main ::
  "string list \<Rightarrow> int + addrinfo list \<Rightarrow> int \<Rightarrow> (int \<Rightarrow> server \<Rightarrow> (exit_code + server) res) \<Rightarrow> server
     \<Rightarrow> (exit_code \<times> server) res" where
  "aesdsocket_main argv gai fork_res run s =
     res_bind (open_aesd_socket gai (fds s)) (\<lambda>opened.
       case opened of
         Inl code \<Rightarrow> Inr (code, s)
       | Inr (sock_fd, F) \<Rightarrow>
           let s1 = s\<lparr>fds := F\<rparr>; daemonize = daemonize_flag argv in
           if daemonize \<and> fork_res < 0 then Inr (EXIT_FAILURE, close_fd sock_fd s1)
           else if daemonize \<and> fork_res > 0 then Inr (EXIT_SUCCESS, close_fd sock_fd s1)
           else res_bind (run sock_fd s1) (\<lambda>r.
                  case r of
                    Inl code \<Rightarrow> Inr (code, s1)
                  | Inr s2 \<Rightarrow> Inr (EXIT_SUCCESS, close_fd sock_fd s2)))"

end
