(* ===== verification/Server_Spec.thy ===== *)
theory Server_Spec
  imports Socket_Server Client_Spec
begin

text \<open>
  Correctness of the main thread of the server: the invariant that ties the queue of clients to
  the memory, descriptors, streams and threads the server holds, the operations that keep it,
  and what that gives for the loop that joins finished clients, for the main loop and for the
  whole program. The contract \<open>safe_loop\<close> of the iteration macro is interpreted on the body of
  \<open>join_completed_clients\<close>.
\<close>

section \<open>Invariant\<close>

abbreviation cl :: "server \<Rightarrow> addr \<Rightarrow> client_info" where
  "cl s x \<equiv> the (cmem s x)"

text \<open>Nothing but what the clients in \<open>X\<close> hold is held; \<open>ch\<close> gives their chains of fragments,
  \<open>B\<close> the descriptors open for other purposes.\<close>

definition held :: "int set \<Rightarrow> nat \<Rightarrow> server \<Rightarrow> addr set \<Rightarrow> (addr \<Rightarrow> addr list) \<Rightarrow> bool" where
  "held B n s X ch \<longleftrightarrow>
     dom (cmem s) = X \<and> finite X \<and>
     (\<forall>x \<in> X. frag_list (sfrags s) (fragments (cl s x)) (ch x) \<and> distinct (ch x) \<and>
       length (ch x) \<le> n \<and> cfile (cl s x) \<noteq> NULL \<and> shared (cl s x)) \<and>
     (\<forall>x \<in> X. \<forall>y \<in> X. x \<noteq> y \<longrightarrow> set (ch x) \<inter> set (ch y) = {}) \<and>
     dom (sfrags s) = (\<Union>x \<in> X. set (ch x)) \<and>
     streams s = X \<and>
     threads s = (\<lambda>x. thread (cl s x)) ` X \<and> inj_on (\<lambda>x. thread (cl s x)) X \<and>
     fds s = B \<union> (\<lambda>x. peer_fd (cl s x)) ` {x \<in> X. 0 \<le> peer_fd (cl s x)} \<and>
     inj_on (\<lambda>x. peer_fd (cl s x)) {x \<in> X. 0 \<le> peer_fd (cl s x)} \<and>
     (\<forall>x \<in> X. 0 \<le> peer_fd (cl s x) \<longrightarrow> peer_fd (cl s x) \<notin> B)"

text \<open>
  The character blocks and the lock belong to the threads that are handling a packet; no writer
  is among them when the main thread runs. That the operations neither leave a block behind nor
  keep the lock is stated with them (\<open>same_shared\<close>).
\<close>

definition srv_inv :: "int set \<Rightarrow> nat \<Rightarrow> server \<Rightarrow> addr list \<Rightarrow> bool" where
  "srv_inv B n s xs \<longleftrightarrow>
     tailq (tq s) 0 xs \<and> dom (elms (tq s)) = set xs \<and> (\<exists>ch. held B n s (set xs) ch) \<and>
     \<not> writer (slock s) \<and> finite (dom (schars s))"

definition same_shared :: "server \<Rightarrow> server \<Rightarrow> bool" where
  "same_shared s0 s \<longleftrightarrow> schars s = schars s0 \<and> slock s = slock s0"

lemma same_shared_refl [simp]: "same_shared s s"
  by (simp add: same_shared_def)


lemma held_cong:
  assumes "held B n s X ch" "cmem s' = cmem s" "sfrags s' = sfrags s" "streams s' = streams s"
    "threads s' = threads s" "fds s' = fds s"
  shows "held B n s' X ch"
  using assms by (simp add: held_def)

lemma heldD:
  assumes "held B n s X ch"
  shows "dom (cmem s) = X" "finite X"
    "\<And>x. x \<in> X \<Longrightarrow> frag_list (sfrags s) (fragments (cl s x)) (ch x)"
    "\<And>x. x \<in> X \<Longrightarrow> distinct (ch x) \<and> length (ch x) \<le> n \<and> cfile (cl s x) \<noteq> NULL \<and> shared (cl s x)"
    "\<And>x y. x \<in> X \<Longrightarrow> y \<in> X \<Longrightarrow> x \<noteq> y \<Longrightarrow> set (ch x) \<inter> set (ch y) = {}"
    "dom (sfrags s) = (\<Union>x \<in> X. set (ch x))" "streams s = X"
    "threads s = (\<lambda>x. thread (cl s x)) ` X" "inj_on (\<lambda>x. thread (cl s x)) X"
    "fds s = B \<union> (\<lambda>x. peer_fd (cl s x)) ` {x \<in> X. 0 \<le> peer_fd (cl s x)}"
    "inj_on (\<lambda>x. peer_fd (cl s x)) {x \<in> X. 0 \<le> peer_fd (cl s x)}"
    "\<And>x. x \<in> X \<Longrightarrow> 0 \<le> peer_fd (cl s x) \<Longrightarrow> peer_fd (cl s x) \<notin> B"
  using assms by (simp_all add: held_def)

text \<open>Taking a client out with everything it holds.\<close>

lemma held_remove:
  assumes "held B n s X ch" "a \<in> X"
    and s': "cmem s' = (cmem s)(a := None)" "sfrags s' = sfrags s |` (- set (ch a))"
      "streams s' = streams s - {a}" "threads s' = threads s - {thread (cl s a)}"
      "fds s' = (if 0 \<le> peer_fd (cl s a) then fds s - {peer_fd (cl s a)} else fds s)"
  shows "held B n s' (X - {a}) ch"
proof -
  let ?t = "\<lambda>x. thread (cl s x)" and ?p = "\<lambda>x. peer_fd (cl s x)"
  let ?P = "{x \<in> X. 0 \<le> ?p x}"
  note h = heldD [OF assms(1)]
  have cl: "cl s' x = cl s x" if "x \<noteq> a" for x using that by (simp add: s'(1))
  have fr: "frag_list (sfrags s') (fragments (cl s' x)) (ch x)" if "x \<in> X - {a}" for x
  proof -
    have "set (ch x) \<inter> set (ch a) = {}" using h(5) [of x a] that assms(2) by simp
    then have "frag_list (sfrags s') p (ch x) = frag_list (sfrags s) p (ch x)" for p
      by (intro frag_list_cong) (auto simp: s'(2) restrict_map_def)
    then show ?thesis using h(3) [of x] that by (simp add: cl)
  qed
  have "?t ` (X - {a}) = ?t ` X - {?t a}"
    using h(9) assms(2) by (simp add: inj_on_image_set_diff [of _ X])
  then have th: "threads s' = (\<lambda>x. thread (cl s' x)) ` (X - {a})"
    by (simp add: s'(4) h(8) cl)
  have P: "{x \<in> X - {a}. 0 \<le> peer_fd (cl s' x)} = ?P - {a}" using cl by auto
  have "(\<lambda>x. peer_fd (cl s' x)) ` (?P - {a}) = ?p ` (?P - {a})"
    using cl by (intro image_cong) auto
  also have "\<dots> = (if a \<in> ?P then ?p ` ?P - {?p a} else ?p ` ?P)"
    using h(11) by (simp add: inj_on_image_set_diff [of _ ?P])
  finally have fd: "fds s' = B \<union> (\<lambda>x. peer_fd (cl s' x)) ` {x \<in> X - {a}. 0 \<le> peer_fd (cl s' x)}"
    unfolding P using h(12) [OF assms(2)] assms(2) by (simp add: s'(5) h(10) Un_Diff)
  have dm: "dom (sfrags s') = (\<Union>x \<in> X - {a}. set (ch x))"
    using h(5) assms(2) by (auto simp: s'(2) h(6))
  have inj: "inj_on (\<lambda>x. thread (cl s' x)) (X - {a})"
    "inj_on (\<lambda>x. peer_fd (cl s' x)) {x \<in> X - {a}. 0 \<le> peer_fd (cl s' x)}"
    using h(9,11) unfolding P by (auto simp: inj_on_def cl)
  show ?thesis
    unfolding held_def using th fd dm inj fr h(1,2,4,5,7,12) by (auto simp: s'(1,3) cl)
qed

text \<open>Adding a client with a new descriptor, stream and thread and no fragments.\<close>

lemma held_add:
  assumes "held B n s X ch" "a \<notin> X" "0 \<le> fd" "fd \<notin> fds s" "i \<notin> threads s"
    and c: "peer_fd c = fd" "thread c = i" "fragments c = NULL" "cfile c \<noteq> NULL" "shared c"
    and s': "cmem s' = (cmem s)(a \<mapsto> c)" "sfrags s' = sfrags s" "streams s' = insert a (streams s)"
      "threads s' = insert i (threads s)" "fds s' = insert fd (fds s)"
  shows "held B n s' (insert a X) (ch(a := []))"
proof -
  let ?t = "\<lambda>x. thread (cl s x)" and ?p = "\<lambda>x. peer_fd (cl s x)"
  let ?P = "{x \<in> X. 0 \<le> ?p x}"
  note h = heldD [OF assms(1)]
  have cl: "cl s' a = c" "\<And>x. x \<in> X \<Longrightarrow> cl s' x = cl s x" using assms(2) by (auto simp: s'(1))
  have ch: "(ch(a := [])) x = ch x" if "x \<in> X" for x using that assms(2) by auto
  have P: "{x \<in> insert a X. 0 \<le> peer_fd (cl s' x)} = insert a ?P"
    using assms(3) by (auto simp: cl c)
  have im: "(\<lambda>x. peer_fd (cl s' x)) ` ?P = ?p ` ?P" by (intro image_cong) (auto simp: cl)
  have it: "(\<lambda>x. thread (cl s' x)) ` X = ?t ` X" by (intro image_cong) (auto simp: cl)
  have fd: "fds s' = B \<union> (\<lambda>x. peer_fd (cl s' x)) ` {x \<in> insert a X. 0 \<le> peer_fd (cl s' x)}"
    unfolding P image_insert im by (simp add: s'(5) cl c h(10))
  have aX: "insert a X - {a} = X" "X - {a} = X" using assms(2) by auto
  have inj: "inj_on (\<lambda>x. thread (cl s' x)) (insert a X)"
    using h(9) assms(5) by (simp add: inj_on_insert aX it cl c h(8)) (simp add: inj_on_def cl)
  have aP: "?P - {a} = ?P" using assms(2) by auto
  have inj2: "inj_on (\<lambda>x. peer_fd (cl s' x)) {x \<in> insert a X. 0 \<le> peer_fd (cl s' x)}"
    unfolding P inj_on_insert aP im using h(11) assms(4) by (simp add: cl c h(10)) (simp add: inj_on_def cl)
  have th: "threads s' = (\<lambda>x. thread (cl s' x)) ` insert a X"
    unfolding image_insert it by (simp add: s'(4) h(8) cl c)
  have un: "(\<Union>x \<in> X. set ((ch(a := [])) x)) = (\<Union>x \<in> X. set (ch x))"
    by (intro SUP_cong) (simp_all only: ch)
  have dm: "dom (sfrags s') = (\<Union>x \<in> insert a X. set ((ch(a := [])) x))"
    unfolding UN_insert un by (simp add: s'(2) h(6))
  have pe: "\<forall>x \<in> insert a X. 0 \<le> peer_fd (cl s' x) \<longrightarrow> peer_fd (cl s' x) \<notin> B"
    using h(12) assms(4) by (auto simp: cl c h(10))
  have ok: "\<forall>x \<in> insert a X. frag_list (sfrags s') (fragments (cl s' x)) ((ch(a := [])) x) \<and>
      distinct ((ch(a := [])) x) \<and> length ((ch(a := [])) x) \<le> n \<and>
      cfile (cl s' x) \<noteq> NULL \<and> shared (cl s' x)"
    using h(3,4) c(3-5) assms(2) by (simp add: cl s'(2) ch)
  have dj: "\<forall>x \<in> insert a X. \<forall>y \<in> insert a X. x \<noteq> y \<longrightarrow> set ((ch(a := [])) x) \<inter> set ((ch(a := [])) y) = {}"
    using h(5) by simp
  show ?thesis
    unfolding held_def using th fd dm inj inj2 pe ok dj h(1,2,7) by (simp add: s'(1,3))
qed

lemma srv_invD:
  assumes "srv_inv B n s xs"
  obtains ch where "held B n s (set xs) ch" "tailq (tq s) 0 xs" "dom (elms (tq s)) = set xs"
    "distinct xs" "\<not> writer (slock s)" "finite (dom (schars s))"
  using assms by (auto simp: srv_inv_def tailq_def)

section \<open>Joining clients\<close>

definition keep_client :: "bool \<Rightarrow> server \<Rightarrow> addr \<Rightarrow> bool" where
  "keep_client cancel s x \<longleftrightarrow> \<not> cancel \<and> 0 \<le> peer_fd (cl s x)"

text \<open>The elements of a queue are in the memory of the queue.\<close>

lemma tailq_free_elm:
  assumes "tailq m h xs" "a \<notin> set xs"
  shows "tailq (m\<lparr>elms := (elms m)(a := None)\<rparr>) h xs"
  using assms by (simp add: tailq_def)

lemma join_body_removes:
  assumes inv: "srv_inv B n s (ys @ a # zs)" and go: "cancel \<or> peer_fd (cl s a) < 0"
    and j: "join_returns E (thread (cl s a))"
  shows "\<exists>s'. join_body E n cancel a s = Inr s' \<and> srv_inv B n s' (ys @ zs) \<and>
    cmem s' = (cmem s)(a := None) \<and> sdev s' = sdev s \<and> outbox s' = outbox s \<and> calls s' = calls s \<and>
    same_shared s s'"
proof -
  obtain ch where h: "held B n s (set (ys @ a # zs)) ch" and t: "tailq (tq s) 0 (ys @ a # zs)"
    "dom (elms (tq s)) = set (ys @ a # zs)" "distinct (ys @ a # zs)"
    and l: "\<not> writer (slock s)" "finite (dom (schars s))"
    using srv_invD [OF inv] .
  note hd = heldD [OF h]
  obtain c where c: "cmem s a = Some c" using hd(1) by (auto simp: dom_def)
  obtain q where q: "TAILQ_REMOVE 0 a (tq s) = Inr q" "tailq q 0 (ys @ zs)"
    "dom (elms q) = dom (elms (tq s))"
    using TAILQ_REMOVE_ok [OF t(1)] by (auto simp: q_frame_def)
  have fr: "packet_fragments_free n (fragments c) (sfrags s) = Inr (sfrags s |` (- set (ch a)))"
    using hd(3,4) [of a] c by (intro packet_fragments_free_ok) simp_all
  have f: "cfile c \<noteq> NULL" using hd(4) [of a] c by simp
  let ?s = "s\<lparr>threads := threads s - {thread c},
    fds := (if 0 \<le> peer_fd c then fds s - {peer_fd c} else fds s),
    sfrags := sfrags s |` (- set (ch a)), streams := streams s - {a},
    tq := q\<lparr>elms := (elms q)(a := None)\<rparr>, cmem := (cmem s)(a := None)\<rparr>"
  have run: "join_body E n cancel a s = Inr ?s"
    using go j c fr f q(1) by (simp add: join_body_def client_at_def close_fd_def free_client_def Let_def)
  have "held B n ?s (set (ys @ a # zs) - {a}) ch"
    by (rule held_remove [OF h]) (simp_all add: c)
  moreover have "set (ys @ a # zs) - {a} = set (ys @ zs)" using t(3) by auto
  ultimately have "srv_inv B n ?s (ys @ zs)"
    using q(2,3) t(2,3) l tailq_free_elm [OF q(2), of a] by (auto simp: srv_inv_def)
  with run show ?thesis by (auto simp: same_shared_def)
qed

lemma join_body_keeps:
  assumes "srv_inv B n s (ys @ a # zs)" "keep_client cancel s a"
  shows "join_body E n cancel a s = Inr s"
proof -
  have "a \<in> dom (cmem s)" using assms(1) by (auto simp: srv_inv_def held_def)
  then show ?thesis using assms(2) by (auto simp: join_body_def client_at_def keep_client_def)
qed

text \<open>What joining does not change: the clients that stay, the device, what was sent.\<close>

definition undisturbed :: "server \<Rightarrow> server \<Rightarrow> addr list \<Rightarrow> bool" where
  "undisturbed s0 s xs \<longleftrightarrow>
     (\<forall>x \<in> set xs. cmem s x = cmem s0 x) \<and> sdev s = sdev s0 \<and> outbox s = outbox s0 \<and> calls s = calls s0 \<and>
     same_shared s0 s"

text \<open>Whether the main thread gets past a client: it skips it, or the client's thread ends.\<close>

definition passes :: "os \<Rightarrow> bool \<Rightarrow> server \<Rightarrow> addr \<Rightarrow> bool" where
  "passes E cancel s x \<longleftrightarrow> keep_client cancel s x \<or> join_returns E (thread (cl s x))"

interpretation jc: safe_loop
  "\<lambda>s xs. srv_inv B n s xs \<and> undisturbed s0 s xs \<and> (\<forall>x \<in> set xs. passes E cancel s0 x)"
  "\<lambda>s. TAILQ_FIRST 0 (tq s)" "\<lambda>a s. TAILQ_NEXT a (tq s)"
  "join_body E n cancel" "keep_client cancel" for B n cancel s0 E
proof
  fix s ys a zs
  assume inv: "srv_inv B n s (ys @ a # zs) \<and> undisturbed s0 s (ys @ a # zs) \<and>
    (\<forall>x \<in> set (ys @ a # zs). passes E cancel s0 x)"
  show "\<exists>s'. join_body E n cancel a s = Inr s' \<and>
      (srv_inv B n s' (ys @ (if keep_client cancel s a then [a] else []) @ zs) \<and>
       undisturbed s0 s' (ys @ (if keep_client cancel s a then [a] else []) @ zs) \<and>
       (\<forall>x \<in> set (ys @ (if keep_client cancel s a then [a] else []) @ zs). passes E cancel s0 x)) \<and>
      (\<forall>z \<in> set zs. keep_client cancel s' z = keep_client cancel s z)"
  proof (cases "keep_client cancel s a")
    case True
    with join_body_keeps [of B n s ys a zs cancel] inv show ?thesis by simp
  next
    case False
    moreover have "cmem s a = cmem s0 a" "passes E cancel s0 a" using inv by (auto simp: undisturbed_def)
    ultimately have j: "join_returns E (thread (cl s a))" by (auto simp: passes_def keep_client_def)
    obtain s' where s': "join_body E n cancel a s = Inr s'" "srv_inv B n s' (ys @ zs)"
      "cmem s' = (cmem s)(a := None)" "sdev s' = sdev s" "outbox s' = outbox s" "calls s' = calls s" "same_shared s s'"
      using join_body_removes [of B n s ys a zs cancel E] inv j False by (auto simp: keep_client_def)
    have "a \<notin> set (ys @ zs)" using inv by (auto simp: srv_inv_def tailq_def)
    with inv s' have "undisturbed s0 s' (ys @ zs)" by (auto simp: undisturbed_def same_shared_def)
    moreover have "\<forall>z \<in> set zs. keep_client cancel s' z = keep_client cancel s z"
      using s'(3) \<open>a \<notin> set (ys @ zs)\<close> by (auto simp: keep_client_def)
    ultimately show ?thesis using s'(1,2) False inv by simp
  qed
qed (auto simp: srv_inv_def intro: tq.rep_distinct tq.walk_first tq.walk_next)

lemma join_ok:
  assumes "srv_inv B n s xs" "length xs \<le> k" "\<forall>x \<in> set xs. passes E cancel s x"
  obtains s' where "join_completed_clients E k n cancel s = Inr s'"
    "srv_inv B n s' (filter (keep_client cancel s) xs)"
    "undisturbed s s' (filter (keep_client cancel s) xs)"
  using jc.loop_filters [of B n s xs s E cancel k] assms
  by (auto simp: join_completed_clients_def TAILQ_FOREACH_SAFE_def undisturbed_def)

text \<open>The walk stops for ever at the first client whose thread it joins and that does not end.\<close>

lemma join_from_hangs:
  assumes "srv_inv B n s (us @ vs @ x # zs)" "\<forall>v \<in> set vs. passes E cancel s v" "\<not> passes E cancel s x"
    "length vs < k"
  shows "foreach_safe_from (\<lambda>a s. TAILQ_NEXT a (tq s)) (join_body E n cancel) k (hd_or (vs @ x # zs) NULL) s = Inl No_Return"
  using assms
proof (induction vs arbitrary: us s k)
  case Nil
  then have "x \<in> dom (cmem s)" by (auto simp: srv_inv_def held_def)
  then obtain c where c: "cmem s x = Some c" by blast
  have "tailq (tq s) 0 (us @ x # zs)" using Nil(1) by (simp add: srv_inv_def)
  note tq.walk_next [OF this]
  moreover have "join_body E n cancel x s = Inl No_Return"
    using Nil(3) c by (auto simp: join_body_def client_at_def passes_def keep_client_def)
  moreover obtain j where "k = Suc j" using Nil(4) by (cases k) auto
  ultimately show ?case by simp
next
  case (Cons v vs)
  let ?u = "if keep_client cancel s v then [v] else []"
  have inv: "srv_inv B n s (us @ v # vs @ x # zs)" using Cons.prems(1) by simp
  from Cons.prems(4) obtain j where j: "k = Suc j" "length vs < j" by (cases k) auto
  have "tailq (tq s) 0 (us @ v # vs @ x # zs)" using inv by (simp add: srv_inv_def)
  note nx = tq.walk_next [OF this]
  have d: "v \<notin> set (vs @ x # zs)" using inv by (auto simp: srv_inv_def tailq_def)
  obtain s' where s': "join_body E n cancel v s = Inr s'" "srv_inv B n s' ((us @ ?u) @ vs @ x # zs)"
    "\<forall>y. y \<noteq> v \<longrightarrow> cmem s' y = cmem s y"
  proof (cases "keep_client cancel s v")
    case True
    then show thesis using that [of s] join_body_keeps [OF inv True] inv by simp
  next
    case False
    then have "join_returns E (thread (cl s v))" "cancel \<or> peer_fd (cl s v) < 0"
      using Cons.prems(2) by (auto simp: passes_def keep_client_def)
    from join_body_removes [OF inv this(2,1)] False show thesis using that by auto
  qed
  have "passes E cancel s' y = passes E cancel s y" if "y \<in> set (vs @ x # zs)" for y
    using s'(3) d that by (metis keep_client_def passes_def)
  then have "foreach_safe_from (\<lambda>a s. TAILQ_NEXT a (tq s)) (join_body E n cancel) j (hd_or (vs @ x # zs) NULL) s' = Inl No_Return"
    by (intro Cons.IH [OF s'(2) _ _ j(2)]) (use Cons.prems(2,3) in auto)
  then show ?case using s'(1) nx j(1) by simp
qed

lemma join_hangs:
  assumes "srv_inv B n s xs" "length xs \<le> k" "\<not> (\<forall>x \<in> set xs. passes E cancel s x)"
  shows "join_completed_clients E k n cancel s = Inl No_Return"
proof -
  obtain vs x zs where xs: "xs = vs @ x # zs" "\<not> passes E cancel s x" "\<forall>v \<in> set vs. passes E cancel s v"
    using split_list_first_prop [of xs "\<lambda>x. \<not> passes E cancel s x"] assms(3) by auto
  have "tailq (tq s) 0 xs" using assms(1) by (simp add: srv_inv_def)
  from tq.walk_first [OF this] join_from_hangs [of B n s "[]" vs x zs E cancel k] assms(1,2) xs show ?thesis
    by (simp add: join_completed_clients_def TAILQ_FOREACH_SAFE_def)
qed

section \<open>Accepting a client\<close>

definition fresh_client :: "int \<Rightarrow> nat \<Rightarrow> client_info" where
  "fresh_client fd i =
     \<lparr>peer_fd = fd, thread = i, shared = True, fragments = NULL,
      cfile = Some \<lparr>file_pos = 0, file_eof = False\<rparr>\<rparr>"

text \<open>The state when \<open>accept\<close> has returned the new descriptor \<open>fd\<close>.\<close>

definition accepted :: "int \<Rightarrow> server \<Rightarrow> server" where
  "accepted fd s = s\<lparr>fds := insert fd (fds s)\<rparr>"

lemma start_refused:
  assumes "srv_inv B n s xs" "0 \<le> fd" "fd \<notin> fds s" "os_laws E"
    "malloc_client E (calls s) (cmem s) = NULL \<or> \<not> fopen_ok E (calls s + 1)"
  shows "\<exists>s'. start_client_processing E fd (accepted fd s) = Inr s' \<and> srv_inv B n s' xs \<and>
    fds s' = fds s \<and> cmem s' = cmem s \<and> same_shared s s'"
proof (cases "malloc_client E (calls s) (cmem s)")
  case None
  let ?s = "s\<lparr>calls := calls s + 1\<rparr>"
  have "start_client_processing E fd (accepted fd s) = Inr ?s"
    using None assms(2,3) by (simp add: start_client_processing_def accepted_def close_fd_def)
  moreover have "srv_inv B n ?s xs" using assms(1) by (simp add: srv_inv_def held_def)
  ultimately show ?thesis by (simp add: same_shared_def)
next
  case (Some a)
  then have a: "cmem s a = None" using assms(4) by (auto simp: os_laws_def)
  then have "elms (tq s) a = None" using assms(1) by (auto simp: srv_inv_def held_def)
  then have e: "(elms (tq s))(a := None) = elms (tq s)" "(cmem s)(a := None) = cmem s" using a by auto
  let ?s = "s\<lparr>calls := calls s + 1 + 1\<rparr>"
  have "start_client_processing E fd (accepted fd s) = Inr ?s"
    using Some assms(2,3,5)
    by (simp add: start_client_processing_def accepted_def close_fd_def free_client_def Let_def e)
  moreover have "srv_inv B n ?s xs" using assms(1) by (simp add: srv_inv_def held_def)
  ultimately show ?thesis by (simp add: same_shared_def)
qed

lemma start_accepted:
  assumes "srv_inv B n s xs" "0 \<le> fd" "fd \<notin> fds s" "os_laws E"
    "malloc_client E (calls s) (cmem s) = Some a" "fopen_ok E (calls s + 1)"
    "pthread_create E (calls s + 2) (threads s) = Some i"
  shows "\<exists>s'. start_client_processing E fd (accepted fd s) = Inr s' \<and> srv_inv B n s' (xs @ [a]) \<and>
    cmem s' = (cmem s)(a \<mapsto> fresh_client fd i) \<and> sdev s' = sdev s \<and> outbox s' = outbox s \<and> same_shared s s'"
proof -
  obtain ch where h: "held B n s (set xs) ch" and t: "tailq (tq s) 0 xs"
    "dom (elms (tq s)) = set xs" "distinct xs"
    and l: "\<not> writer (slock s)" "finite (dom (schars s))"
    using srv_invD [OF assms(1)] .
  have "cmem s a = None" using assms(4,5) by (auto simp: os_laws_def)
  then have a: "a \<notin> set xs" using heldD(1) [OF h] by auto
  have i: "i \<notin> threads s" using assms(4,7) by (auto simp: os_laws_def)
  let ?q = "(tq s)\<lparr>elms := (elms (tq s))(a \<mapsto> zero_nodes)\<rparr>"
  have "tailq ?q 0 xs" using t(1) a by (simp add: tailq_def)
  then obtain q where q: "TAILQ_INSERT_TAIL 0 a ?q = Inr q" "tailq q 0 (xs @ [a])"
    "dom (elms q) = dom (elms ?q)"
    using TAILQ_INSERT_TAIL_ok [of ?q 0 xs a] a by (auto simp: q_frame_def)
  let ?s = "s\<lparr>calls := calls s + 3, cmem := (cmem s)(a \<mapsto> fresh_client fd i), tq := q,
    streams := insert a (streams s), threads := insert i (threads s), fds := insert fd (fds s)\<rparr>"
  have run: "start_client_processing E fd (accepted fd s) = Inr ?s"
    using assms(2,5-7) q(1)
    by (simp add: start_client_processing_def accepted_def zero_client_def fresh_client_def Let_def
        numeral_2_eq_2 numeral_3_eq_3)
  have "held B n ?s (insert a (set xs)) (ch(a := []))"
    by (rule held_add [OF h a assms(2,3) i, where c = "fresh_client fd i"])
      (simp_all add: fresh_client_def)
  then have "srv_inv B n ?s (xs @ [a])"
    using q(2,3) t(2) l by (auto simp: srv_inv_def)
  with run show ?thesis by (auto simp: same_shared_def)
qed

text \<open>The branch that releases the client and then goes on to insert it.\<close>

lemma start_no_thread:
  assumes "0 \<le> fd" "malloc_client E (calls s) (cmem s) = Some a" "fopen_ok E (calls s + 1)"
    "pthread_create E (calls s + 2) (threads s) = NULL"
  shows "start_client_processing E fd (accepted fd s) = Inl Use_After_Free"
  using assms
  by (simp add: start_client_processing_def accepted_def zero_client_def close_fd_def free_client_def
      Let_def numeral_2_eq_2 TAILQ_INSERT_TAIL_def set_elm_def elm_at_def)

section \<open>A client thread runs\<close>

text \<open>A client whose thread is done keeps its place in the books, without a descriptor.\<close>

lemma held_done:
  assumes "held B n s X ch" "a \<in> X" "0 \<le> peer_fd (cl s a)" "fragments (cl s a) = NULL"
    and c: "peer_fd c = - 1" "thread c = thread (cl s a)" "fragments c = NULL" "cfile c \<noteq> NULL" "shared c"
    and s': "cmem s' = (cmem s)(a \<mapsto> c)" "sfrags s' = sfrags s" "streams s' = streams s"
      "threads s' = threads s" "fds s' = fds s - {peer_fd (cl s a)}"
  shows "held B n s' X ch"
proof -
  let ?p = "\<lambda>x. peer_fd (cl s x)"
  let ?P = "{x \<in> X. 0 \<le> ?p x}"
  note h = heldD [OF assms(1)]
  have cl: "cl s' a = c" "\<And>x. x \<noteq> a \<Longrightarrow> cl s' x = cl s x" by (simp_all add: s'(1))
  have cha: "ch a = []" using h(3) [OF assms(2)] assms(4) by (cases "ch a") simp_all
  have t: "thread (cl s' x) = thread (cl s x)" for x by (cases "x = a") (simp_all add: cl c)
  have P: "{x \<in> X. 0 \<le> peer_fd (cl s' x)} = ?P - {a}"
    by (rule set_eqI, rename_tac x, case_tac "x = a") (simp_all add: cl c)
  have "(\<lambda>x. peer_fd (cl s' x)) ` (?P - {a}) = ?p ` (?P - {a})"
    by (intro image_cong) (simp_all add: cl)
  also have "\<dots> = ?p ` ?P - {?p a}"
    using h(11) assms(2,3) by (simp add: inj_on_image_set_diff [of _ ?P])
  finally have fd: "fds s' = B \<union> (\<lambda>x. peer_fd (cl s' x)) ` {x \<in> X. 0 \<le> peer_fd (cl s' x)}"
    unfolding P using h(12) [OF assms(2,3)] by (simp add: s'(5) h(10) Un_Diff)
  have inj: "inj_on (\<lambda>x. peer_fd (cl s' x)) {x \<in> X. 0 \<le> peer_fd (cl s' x)}"
    using h(11) unfolding P by (auto simp: inj_on_def cl)
  have ok: "frag_list (sfrags s') (fragments (cl s' x)) (ch x) \<and> cfile (cl s' x) \<noteq> NULL \<and> shared (cl s' x) \<and>
      (0 \<le> peer_fd (cl s' x) \<longrightarrow> peer_fd (cl s' x) \<notin> B)" if "x \<in> X" for x
    using h(3,4,12) [OF that] c by (cases "x = a") (simp_all add: cl cha s'(2))
  have dm: "dom (cmem s') = X" using h(1) assms(2) by (auto simp: s'(1))
  show ?thesis
    unfolding held_def t using h(2,4-9) dm fd inj ok by (simp add: s'(2-4))
qed

text \<open>The state in which the thread of client \<open>a\<close> has not started yet.\<close>

definition waiting :: "server \<Rightarrow> addr \<Rightarrow> bool" where
  "waiting s a \<longleftrightarrow> 0 \<le> peer_fd (cl s a) \<and> fragments (cl s a) = NULL"

lemma run_client_ok:
  assumes "libc_laws L" "libc_serves L" "chunks_ok cs" "length cs < k"
    and inv: "srv_inv B n s xs" and a: "a \<in> set xs" "waiting s a"
  shows "\<exists>s'. run_client L k cs a s = Inr s' \<and> srv_inv B n s' xs \<and>
    peer_fd (cl s' a) = - 1 \<and> thread (cl s' a) = thread (cl s a) \<and> (\<forall>x. x \<noteq> a \<longrightarrow> cmem s' x = cmem s x) \<and>
    same_shared s s' \<and>
    (\<exists>out f. serve (fst (lines_of (concat cs))) ([], sdev s, the (cfile (cl s a))) = (out, sdev s', f) \<and>
       outbox s' = outbox s @ [(thread (cl s a), out)])"
proof -
  obtain ch where h: "held B n s (set xs) ch" and t: "tailq (tq s) 0 xs"
    "dom (elms (tq s)) = set xs" and l: "\<not> writer (slock s)" "finite (dom (schars s))"
    using srv_invD [OF inv] .
  note hd = heldD [OF h]
  obtain c where c: "cmem s a = Some c" using hd(1) a(1) by (auto simp: dom_def)
  let ?\<sigma> = "load_client a s"
  have "conn_start ?\<sigma>"
    using a(2) hd(4) [OF a(1)] l hd(6) by (simp add: conn_start_def load_client_def waiting_def)
  then obtain s1 where s1: "process_client L k cs ?\<sigma> = Inr s1" "same_thread ?\<sigma> s1" "frags s1 = frags ?\<sigma>"
    "fragments (client s1) = NULL" "conn_of s1 = serve (fst (lines_of (concat cs))) (conn_of ?\<sigma>)"
    using process_client_start [OF assms(1,2) _ assms(3,4)] by blast
  define s2 where "s2 = s1\<lparr>open_fds := open_fds s1 - {peer_fd (client s1)},
    client := (client s1)\<lparr>peer_fd := - 1\<rparr>\<rparr>"
  have run: "run_client L k cs a s = Inr (store_client a s2 s)"
    using c s1(1) by (simp add: run_client_def client_at_def process_client_thread_def s2_def)
  have "held B n (store_client a s2 s) (set xs) ch"
    by (rule held_done [OF h a(1), where c = "client s2"])
      (use a(2) s1(2-4) hd(4) [OF a(1)] in
        \<open>simp_all add: waiting_def s2_def store_client_def load_client_def same_thread_def\<close>)
  moreover have "slock (store_client a s2 s) = slock s"
    "schars (store_client a s2 s) = schars s" "tq (store_client a s2 s) = tq s"
    using s1(2) by (simp_all add: s2_def store_client_def load_client_def same_thread_def)
  ultimately have "srv_inv B n (store_client a s2 s) xs" "same_shared s (store_client a s2 s)"
    using t l by (auto simp: srv_inv_def same_shared_def)
  moreover have "serve (fst (lines_of (concat cs))) ([], sdev s, the (cfile (cl s a))) =
      (concat (sent s2), sdev (store_client a s2 s), the (cfile (client s1)))"
    using s1(5) by (simp add: conn_of_def load_client_def store_client_def s2_def)
  ultimately show ?thesis
    using run s1(2) by (auto simp: s2_def store_client_def load_client_def same_thread_def)
qed



section \<open>The main loop\<close>





definition threads_available :: "os \<Rightarrow> bool" where
  "threads_available E \<longleftrightarrow> (\<forall>t ts. finite ts \<longrightarrow> pthread_create E t ts \<noteq> NULL)"





section \<open>The program\<close>

text \<open>No client is left and the descriptors are those in \<open>B\<close>.\<close>

definition quiet :: "int set \<Rightarrow> server \<Rightarrow> bool" where
  "quiet B s \<longleftrightarrow>
     cmem s = Map.empty \<and> elms (tq s) = Map.empty \<and> sfrags s = Map.empty \<and> streams s = {} \<and>
     threads s = {} \<and> fds s = B \<and> \<not> writer (slock s) \<and> finite (dom (schars s))"

lemma srv_inv_Nil: "srv_inv B n s [] \<longleftrightarrow> tailq (tq s) 0 [] \<and> quiet B s"
  by (auto simp: srv_inv_def held_def quiet_def)


text \<open>The addresses from \<open>getaddrinfo\<close>: sockets are new descriptors.\<close>

definition sockets_fresh :: "int set \<Rightarrow> addrinfo list \<Rightarrow> bool" where
  "sockets_fresh F ais \<longleftrightarrow> (\<forall>rp \<in> set ais. r_socket rp = - 1 \<or> 0 \<le> r_socket rp \<and> r_socket rp \<notin> F)"

definition usable :: "addrinfo \<Rightarrow> bool" where
  "usable rp \<longleftrightarrow> r_socket rp \<noteq> - 1 \<and> r_setsockopt rp \<noteq> - 1 \<and> r_bind rp = 0"

text \<open>A refused socket option: the socket is closed but stays in \<open>sock_fd\<close>.\<close>

definition option_refused :: "addrinfo \<Rightarrow> bool" where
  "option_refused rp \<longleftrightarrow> r_socket rp \<noteq> - 1 \<and> r_setsockopt rp = - 1"

lemma socket_loop_ok:
  assumes "sockets_fresh F ais"
  shows "socket_loop ais fd F =
    (case List.find usable ais of
       Some rp \<Rightarrow> (r_socket rp, True, insert (r_socket rp) F)
     | None \<Rightarrow> (if ais = [] then fd else if option_refused (last ais) then r_socket (last ais) else - 1, False, F))"
  using assms
proof (induction ais arbitrary: fd)
  case (Cons rp ais)
  have f: "insert (r_socket rp) F - {r_socket rp} = F" if "r_socket rp \<noteq> - 1"
    using Cons.prems that by (auto simp: sockets_fresh_def)
  have "sockets_fresh F ais" using Cons.prems by (simp add: sockets_fresh_def)
  with Cons.IH f show ?case by (auto simp: usable_def option_refused_def Let_def split: option.split)
qed simp

lemma find_usable: "List.find usable ais = Some rp \<Longrightarrow> rp \<in> set ais \<and> r_socket rp \<noteq> - 1"
  by (auto simp: find_Some_iff usable_def)

lemma open_socket_ok:
  assumes "sockets_fresh F ais" "ais \<noteq> []"
  shows "open_aesd_socket (Inr ais) F =
    Inr (case List.find usable ais of
           Some rp \<Rightarrow> Inr (r_socket rp, insert (r_socket rp) F)
         | None \<Rightarrow> if option_refused (last ais) then Inr (r_socket (last ais), F) else Inl EXIT_FAILURE)"
  using assms(2) socket_loop_ok [OF assms(1), of "- 1"]
  by (cases "List.find usable ais") (auto simp: open_aesd_socket_def find_usable option_refused_def)

section \<open>A concrete system\<close>

definition demo_os :: os where
  "demo_os =
     \<lparr>malloc_client = (\<lambda>t m. if finite (dom m) then Some (Suc (Max (insert 0 (dom m)))) else None),
      fopen_ok = (\<lambda>t. True),
      pthread_create = (\<lambda>t ts. if finite ts then Some (Suc (Max (insert 0 ts))) else None),
      accept = (\<lambda>t F. Some (if finite F then Max (insert 0 F) + 1 else - 1)), join_returns = (\<lambda>i. True)\<rparr>"

lemma Suc_Max_fresh:
  assumes "finite A"
  shows "Suc (Max (insert 0 A)) \<notin> A"
proof
  assume "Suc (Max (insert 0 A)) \<in> A"
  with assms have "Suc (Max (insert 0 A)) \<le> Max (insert 0 A)" by (intro Max_ge) auto
  then show False by simp
qed

lemma Max_plus_fresh: "finite (A :: int set) \<Longrightarrow> Max (insert 0 A) + 1 \<notin> A \<and> 0 \<le> Max (insert 0 A) + 1"
  using Max_ge [of "insert 0 A" "Max (insert 0 A) + 1"] Max_ge [of "insert 0 A" 0] by auto

lemma demo_os_laws: "os_laws demo_os" and demo_os_threads: "threads_available demo_os"
  by (auto simp: os_laws_def threads_available_def demo_os_def fresh_above_dom Suc_Max_fresh
      Max_plus_fresh split: if_splits)

text \<open>A server before its first client; standard streams are open.\<close>

definition example_server :: server where
  "example_server =
     \<lparr>cmem = Map.empty, tq = \<lparr>heads = [0 \<mapsto> \<lparr>tqh_first = NULL, tqh_last = First_of 0\<rparr>], elms = Map.empty\<rparr>,
      sfrags = Map.empty, fds = {0, 1, 2}, streams = {}, threads = {}, calls = 0,
      sdev = \<lparr>commands = [[104, 10]], pending = []\<rparr>, slock = \<lparr>readers = 0, writer = False\<rparr>,
      schars = Map.empty, sallocs = 0, outbox = []\<rparr>"

lemma example_server_inv: "srv_inv {0, 1, 2} n example_server []"
  by (simp add: srv_inv_Nil quiet_def example_server_def tailq_def)

text \<open>A server with two clients, of which the first is done and the second still connected.\<close>

definition example_pair :: server where
  "example_pair = example_server
     \<lparr>cmem := [1 \<mapsto> (fresh_client 3 1)\<lparr>peer_fd := - 1\<rparr>, 2 \<mapsto> fresh_client 4 2],
      tq := \<lparr>heads = [0 \<mapsto> \<lparr>tqh_first = Some 1, tqh_last = Next_of 2\<rparr>],
             elms = [1 \<mapsto> \<lparr>tqe_next = Some 2, tqe_prev = First_of 0\<rparr>,
                     2 \<mapsto> \<lparr>tqe_next = NULL, tqe_prev = Next_of 1\<rparr>]\<rparr>,
      fds := {0, 1, 2, 4}, streams := {1, 2}, threads := {1, 2}\<rparr>"

lemma example_pair_inv: "srv_inv {0, 1, 2} n example_pair [1, 2]"
proof -
  have "{x \<in> {1, 2}. 0 \<le> peer_fd (cl example_pair x)} = {2}"
    by (auto simp: example_pair_def fresh_client_def)
  then have "held {0, 1, 2} n example_pair {1, 2} (\<lambda>_. [])"
    by (auto simp: held_def example_pair_def example_server_def fresh_client_def split: if_splits)
  moreover have "tailq (tq example_pair) 0 [1, 2]" "dom (elms (tq example_pair)) = set [1, 2]"
    by (auto simp: tailq_def example_pair_def split: if_splits)
  ultimately show ?thesis by (auto simp: srv_inv_def example_pair_def example_server_def)
qed

section \<open>Properties\<close>

text \<open>
  C3: The life of a connection across the components. From a state in which the server
  holds exactly what its clients need, the new client is accepted and queued, its thread handles
  the complete lines the peer sends and sends the replies the specification gives, and the next
  round of joining, if the threads it waits for end, takes it out again together with every other
  finished client. Afterwards the device is as the specification says, the other clients are as
  they were, and the server again holds exactly what its clients need: no client, descriptor,
  stream, thread, fragment or character block of the connection is left, and the lock is held by
  those who held it before and nobody else.
\<close>

theorem server_session:
  assumes "srv_inv B n s xs" "0 \<le> fd" "fd \<notin> fds s" "os_laws E"
    "malloc_client E (calls s) (cmem s) = Some a" "fopen_ok E (calls s + 1)"
    "pthread_create E (calls s + 2) (threads s) = Some i"
    "libc_laws L" "libc_serves L" "chunks_ok cs" "length cs < j" "length xs < k"
    "join_returns E i" "\<forall>x \<in> set xs. peer_fd (cl s x) < 0 \<longrightarrow> join_returns E (thread (cl s x))"
  shows "\<exists>s1 s2 s3 out f. start_client_processing E fd (accepted fd s) = Inr s1 \<and>
    run_client L j cs a s1 = Inr s2 \<and> join_completed_clients E k n False s2 = Inr s3 \<and>
    srv_inv B n s3 (filter (\<lambda>x. 0 \<le> peer_fd (cl s x)) xs) \<and>
    (\<forall>x \<in> set xs. 0 \<le> peer_fd (cl s x) \<longrightarrow> cmem s3 x = cmem s x) \<and>
    schars s3 = schars s \<and> slock s3 = slock s \<and>
    serve (fst (lines_of (concat cs))) ([], sdev s, \<lparr>file_pos = 0, file_eof = False\<rparr>) = (out, sdev s3, f) \<and>
    outbox s3 = outbox s @ [(i, out)]"
proof -
  from start_accepted [OF assms(1-7)] obtain s1 where s1:
    "start_client_processing E fd (accepted fd s) = Inr s1" "srv_inv B n s1 (xs @ [a])"
    "cmem s1 = (cmem s)(a \<mapsto> fresh_client fd i)" "sdev s1 = sdev s" "outbox s1 = outbox s"
    "same_shared s s1" by blast
  have c: "cl s1 a = fresh_client fd i" by (simp add: s1(3))
  then have "waiting s1 a" "a \<in> set (xs @ [a])"
    using assms(2) by (simp_all add: waiting_def fresh_client_def)
  with run_client_ok [OF assms(8-11) s1(2), of a] obtain s2 out f where s2:
    "run_client L j cs a s1 = Inr s2" "srv_inv B n s2 (xs @ [a])" "peer_fd (cl s2 a) = - 1"
    "\<forall>x. x \<noteq> a \<longrightarrow> cmem s2 x = cmem s1 x" "thread (cl s2 a) = thread (cl s1 a)" "same_shared s1 s2"
    "serve (fst (lines_of (concat cs))) ([], sdev s1, the (cfile (cl s1 a))) = (out, sdev s2, f)"
    "outbox s2 = outbox s1 @ [(thread (cl s1 a), out)]" by blast
  have k: "length (xs @ [a]) \<le> k" using assms(12) by simp
  have na: "a \<notin> set xs" using s1(2) by (auto simp: srv_inv_def tailq_def)
  have cx: "cmem s2 x = cmem s x" if "x \<in> set xs" for x
  proof -
    have "x \<noteq> a" using na that by blast
    then show ?thesis using s2(4) by (simp add: s1(3))
  qed
  have flt: "filter (keep_client False s2) (xs @ [a]) = filter (\<lambda>x. 0 \<le> peer_fd (cl s x)) xs"
    using s2(3) by (auto simp: keep_client_def cx intro: filter_cong)
  have "\<forall>x \<in> set (xs @ [a]). passes E False s2 x"
    using assms(13,14) s2(5) by (auto simp: passes_def keep_client_def cx c fresh_client_def)
  then obtain s3 where s3: "join_completed_clients E k n False s2 = Inr s3"
    "srv_inv B n s3 (filter (keep_client False s2) (xs @ [a]))"
    "undisturbed s2 s3 (filter (keep_client False s2) (xs @ [a]))"
    using join_ok [OF s2(2) k] by metis
  have kept: "cmem s3 x = cmem s x" if "x \<in> set xs" "0 \<le> peer_fd (cl s x)" for x
    using s3(3) that cx unfolding flt by (simp add: undisturbed_def)
  have "schars s3 = schars s" "slock s3 = slock s"
    using s1(6) s2(6) s3(3) by (simp_all add: undisturbed_def same_shared_def)
  then show ?thesis
    using s1(1,4,5) s2(1,7,8) s3 kept unfolding flt by (auto simp: undisturbed_def c fresh_client_def)
qed

theorem server_session_witness:
  "\<exists>s1 s2 s3 out f. start_client_processing demo_os 3 (accepted 3 example_server) = Inr s1 \<and>
     run_client demo_libc 3 [[97], [98, 10]] 1 s1 = Inr s2 \<and> join_completed_clients demo_os 1 5 False s2 = Inr s3 \<and>
     srv_inv {0, 1, 2} 5 s3 [] \<and> schars s3 = Map.empty \<and> slock s3 = slock example_server \<and>
     serve (fst (lines_of [97, 98, 10])) ([], sdev example_server, \<lparr>file_pos = 0, file_eof = False\<rparr>) =
       (out, sdev s3, f) \<and> outbox s3 = [(1, out)]"
proof -
  have e: "malloc_client demo_os (calls example_server) (cmem example_server) = Some 1"
    "fopen_ok demo_os (calls example_server + 1)"
    "pthread_create demo_os (calls example_server + 2) (threads example_server) = Some 1" "join_returns demo_os 1"
    "chunks_ok [[97], [98, 10]]" "3 \<notin> fds example_server" "schars example_server = Map.empty" "outbox example_server = []"
    by (simp_all add: demo_os_def example_server_def chunks_ok_def BUFFER_SIZE_def)
  from server_session [OF example_server_inv _ e(6) demo_os_laws e(1,2,3) demo_libc_laws demo_libc_serves e(5) _ _ e(4),
      of 3 1 5] e(7,8) show ?thesis by simp
qed

text \<open>
  C19: Joining ends after at most as many rounds as there are clients, follows no
  freed pointer although it frees elements of the queue it walks, and takes out exactly the clients
  whose thread is done (all clients when \<open>cancel\<close> is set) with all they hold. The others keep
  their order and their state, and the device, the lock and the character blocks are not touched.
  So it is when every thread it joins ends; otherwise the main thread waits for ever.
\<close>

theorem join_removes_finished:
  assumes "srv_inv B n s xs" "length xs \<le> k"
  shows "if \<forall>x \<in> set xs. cancel \<or> peer_fd (cl s x) < 0 \<longrightarrow> join_returns E (thread (cl s x)) then
      \<exists>s'. join_completed_clients E k n cancel s = Inr s' \<and>
        srv_inv B n s' (filter (\<lambda>x. \<not> cancel \<and> 0 \<le> peer_fd (cl s x)) xs) \<and>
        (\<forall>x \<in> set xs. \<not> cancel \<and> 0 \<le> peer_fd (cl s x) \<longrightarrow> cmem s' x = cmem s x) \<and> sdev s' = sdev s \<and>
        schars s' = schars s \<and> slock s' = slock s
    else join_completed_clients E k n cancel s = Inl No_Return"
proof (cases "\<forall>x \<in> set xs. passes E cancel s x")
  case False
  then have "\<not> (\<forall>x \<in> set xs. cancel \<or> peer_fd (cl s x) < 0 \<longrightarrow> join_returns E (thread (cl s x)))"
    by (auto simp: passes_def keep_client_def not_le)
  then show ?thesis using join_hangs [OF assms False] by (simp only: if_False)
next
  case True
  have f: "keep_client cancel s = (\<lambda>x. \<not> cancel \<and> 0 \<le> peer_fd (cl s x))"
    by (simp add: keep_client_def fun_eq_iff)
  obtain s' where "join_completed_clients E k n cancel s = Inr s'"
    "srv_inv B n s' (filter (keep_client cancel s) xs)"
    "undisturbed s s' (filter (keep_client cancel s) xs)"
    using join_ok [OF assms True] .
  moreover have "\<forall>x \<in> set xs. cancel \<or> peer_fd (cl s x) < 0 \<longrightarrow> join_returns E (thread (cl s x))"
    using True by (auto simp: passes_def keep_client_def)
  ultimately show ?thesis unfolding f by (auto simp: undisturbed_def same_shared_def)
qed

theorem join_removes_finished_witness:
  "\<exists>s'. join_completed_clients demo_os 2 5 False example_pair = Inr s' \<and> srv_inv {0, 1, 2} 5 s' [2] \<and>
     cmem s' 2 = cmem example_pair 2"
  using join_removes_finished [OF example_pair_inv, of 2 False demo_os 5]
  by (auto simp: example_pair_def fresh_client_def demo_os_def)

text \<open>
  C26: What becomes of an accepted descriptor. Without memory or without the data file
  it is closed again and the server is as before. With all resources the client is appended to the
  queue, in its initial state. When no thread can be created, the client is released and then
  inserted into the queue all the same: an access to freed memory.
\<close>

theorem start_client_outcomes:
  assumes "srv_inv B n s xs" "0 \<le> fd" "fd \<notin> fds s" "os_laws E"
  shows "case malloc_client E (calls s) (cmem s) of
      None \<Rightarrow> (\<exists>s'. start_client_processing E fd (accepted fd s) = Inr s' \<and> srv_inv B n s' xs \<and>
        fds s' = fds s \<and> cmem s' = cmem s)
    | Some a \<Rightarrow>
        if \<not> fopen_ok E (calls s + 1)
        then \<exists>s'. start_client_processing E fd (accepted fd s) = Inr s' \<and> srv_inv B n s' xs \<and>
          fds s' = fds s \<and> cmem s' = cmem s
        else (case pthread_create E (calls s + 2) (threads s) of
            None \<Rightarrow> start_client_processing E fd (accepted fd s) = Inl Use_After_Free
          | Some i \<Rightarrow> \<exists>s'. start_client_processing E fd (accepted fd s) = Inr s' \<and>
              srv_inv B n s' (xs @ [a]) \<and> cmem s' = (cmem s)(a \<mapsto> fresh_client fd i))"
proof (cases "malloc_client E (calls s) (cmem s) = NULL \<or> \<not> fopen_ok E (calls s + 1)")
  case True
  from start_refused [OF assms True] True show ?thesis by (auto split: option.split)
next
  case False
  then obtain a where a: "malloc_client E (calls s) (cmem s) = Some a" "fopen_ok E (calls s + 1)" by auto
  show ?thesis
  proof (cases "pthread_create E (calls s + 2) (threads s)")
    case None
    with start_no_thread [OF assms(2) a] a show ?thesis by simp
  next
    case (Some i)
    with start_accepted [OF assms a] a show ?thesis by auto
  qed
qed

theorem start_client_outcomes_witness:
  "\<exists>s'. start_client_processing demo_os 3 (accepted 3 example_server) = Inr s' \<and>
     srv_inv {0, 1, 2} 0 s' [1] \<and> cmem s' 1 = Some (fresh_client 3 1)"
  using start_client_outcomes [OF example_server_inv [of 0] _ _ demo_os_laws, of 3]
  by (auto simp: example_server_def demo_os_def)

text \<open>
  C36: Opening the socket, in every case. It succeeds with the first address whose
  socket takes the option and can be bound: this socket is open and every other one is closed
  again. Otherwise nothing is left open, and the program exits with failure, except when the
  option was refused for the last address: then the closed descriptor is returned as if it were
  good.
\<close>

theorem open_socket_correct:
  assumes "sockets_fresh F ais" "ais \<noteq> []"
  shows "open_aesd_socket (Inr ais) F =
    Inr (case List.find usable ais of
           Some rp \<Rightarrow> Inr (r_socket rp, insert (r_socket rp) F)
         | None \<Rightarrow> if option_refused (last ais) then Inr (r_socket (last ais), F) else Inl EXIT_FAILURE)"
  using assms by (rule open_socket_ok)

theorem open_socket_correct_witness:
  "open_aesd_socket (Inr [\<lparr>r_socket = 3, r_setsockopt = 0, r_bind = - 1\<rparr>,
      \<lparr>r_socket = 4, r_setsockopt = 0, r_bind = 0\<rparr>]) {0, 1, 2} = Inr (Inr (4, {4, 0, 1, 2})) \<and>
   open_aesd_socket (Inr [\<lparr>r_socket = 3, r_setsockopt = - 1, r_bind = 0\<rparr>]) {0, 1, 2} =
     Inr (Inr (3, {0, 1, 2}))"
  using open_socket_correct [of "{0, 1, 2}" "[\<lparr>r_socket = 3, r_setsockopt = 0, r_bind = - 1\<rparr>,
      \<lparr>r_socket = 4, r_setsockopt = 0, r_bind = 0\<rparr>]"]
    open_socket_correct [of "{0, 1, 2}" "[\<lparr>r_socket = 3, r_setsockopt = - 1, r_bind = 0\<rparr>]"]
  by (simp add: sockets_fresh_def usable_def option_refused_def)



end
