(* ===== verification/Driver_Linear.thy ===== *)
theory Driver_Linear
  imports Driver_Concurrency
begin

text \<open>
  The system of all calls in progress, and its correctness. A step is one piece of one call; a
  kernel service may behave in any way its laws allow at each step. Each call has at most one
  point where it takes effect, recorded in a log; the log is a history of the abstract device.
\<close>

section \<open>The system\<close>

datatype devent =
    Ev_write "byte list"
  | Ev_read nat nat "byte list"              \<comment> \<open>position, count, and the bytes delivered\<close>
  | Ev_seek aesd_seekto "nat option"         \<comment> \<open>the argument and the position it names\<close>
  | Ev_size nat

record dproc =
  pcall :: dcall
  pfile :: kfile
  ppc :: dpc

text \<open>
  Beside the state of the driver the system keeps, for each call, the file it was made on and the
  bytes its program had in the buffer when the call copied them; no step depends on these notes.
\<close>

record dnote =
  n_file :: kfile
  n_data :: "byte list"

record dsys =
  dks :: kstate
  procs :: "nat \<rightharpoonup> dproc"
  dlog :: "(nat \<times> devent) list"
  dnotes :: "nat \<Rightarrow> dnote"

definition user_bytes :: "umem \<Rightarrow> addr \<Rightarrow> nat \<Rightarrow> byte list" where
  "user_bytes um a n = map (\<lambda>j. the (um (a + j))) [0..<n]"

text \<open>What the piece at \<open>pc\<close> takes from the buffer of its program, if it is one that copies from it.\<close>

fun takes :: "dcall \<Rightarrow> dpc \<Rightarrow> umem \<Rightarrow> byte list option" where
  "takes (Call_write buf count) (W_copy kb) um = Some (user_bytes um buf (unat count))"
| "takes (Call_ioctl cmd arg) Begin um = Some (user_bytes um arg sizeof_seekto)"
| "takes call pc um = None"

definition note_next :: "dcall \<Rightarrow> dpc \<Rightarrow> umem \<Rightarrow> dnote \<Rightarrow> dnote" where
  "note_next call pc um n = (case takes call pc um of None \<Rightarrow> n | Some bs \<Rightarrow> n\<lparr>n_data := bs\<rparr>)"

text \<open>Where a call takes effect: the piece from \<open>pc\<close> to \<open>pc'\<close> is recorded as these events.\<close>

definition drv_event :: "dcall \<Rightarrow> kfile \<Rightarrow> dpc \<Rightarrow> kstate \<Rightarrow> kfile \<Rightarrow> dpc \<Rightarrow> kstate \<Rightarrow> devent list" where
  "drv_event call f pc s f' pc' s' =
     (case call of
        Call_read buf count \<Rightarrow>
          (case pc' of
             R_up r \<Rightarrow> if r < 0 then []
                     else [Ev_read (unat (f_pos f)) (unat count) (user_bytes (usermem s') buf (nat r))]
           | _ \<Rightarrow> [])
      | Call_write buf count \<Rightarrow>
          (case pc of
             W_append kb nt \<Rightarrow> (case pc' of W_commit nt' l \<Rightarrow> [Ev_write (the (kmem s kb))] | _ \<Rightarrow> [])
           | _ \<Rightarrow> [])
      | Call_ioctl cmd arg \<Rightarrow>
          (case pc of
             I_seek t \<Rightarrow> (case pc' of I_up r \<Rightarrow> [Ev_seek t (if r = 0 then Some (unat (f_pos f')) else None)] | _ \<Rightarrow> [])
           | _ \<Rightarrow> [])
      | Call_llseek offset whence \<Rightarrow>
          (case pc of L_size \<Rightarrow> (case pc' of L_up n \<Rightarrow> [Ev_size (unat n)] | _ \<Rightarrow> []) | _ \<Rightarrow> []))"

text \<open>
  Calls begin at any time, on a file that is open on the device; programs change their memory at
  any time.
\<close>

inductive dsys_step :: "dsys \<Rightarrow> dsys \<Rightarrow> bool" where
  invoke: "procs c i = None \<Longrightarrow> private_data f \<noteq> Null_Dev \<Longrightarrow>
    dsys_step c (c\<lparr>procs := (procs c)(i \<mapsto> \<lparr>pcall = call, pfile = f, ppc = Begin\<rparr>),
      dnotes := (dnotes c)(i := \<lparr>n_file = f, n_data = []\<rparr>)\<rparr>)"
| advance: "procs c i = Some p \<Longrightarrow> \<not> returned (ppc p) \<Longrightarrow> kernel_laws K \<Longrightarrow>
    drv_next K (pcall p) (pfile p) (ppc p) (dks c) = Inr (f', pc', s') \<Longrightarrow>
    dsys_step c (c\<lparr>dks := s', procs := (procs c)(i \<mapsto> p\<lparr>pfile := f', ppc := pc'\<rparr>),
      dlog := dlog c @ map (Pair i) (drv_event (pcall p) (pfile p) (ppc p) (dks c) f' pc' s'),
      dnotes := (dnotes c)(i := note_next (pcall p) (ppc p) (usermem (dks c)) (dnotes c i))\<rparr>)"
| user: "dsys_step c (c\<lparr>dks := (dks c)\<lparr>usermem := um\<rparr>\<rparr>)"

definition dsys_start :: "kstate \<Rightarrow> dsys" where
  "dsys_start s = \<lparr>dks = s, procs = Map.empty, dlog = [],
     dnotes = (\<lambda>i. \<lparr>n_file = \<lparr>f_pos = 0, private_data = Null_Dev\<rparr>, n_data = []\<rparr>)\<rparr>"

definition dsys_reach :: "kstate \<Rightarrow> dsys \<Rightarrow> bool" where
  "dsys_reach s c \<longleftrightarrow> dsys_step\<^sup>*\<^sup>* (dsys_start s) c"

section \<open>Histories of the abstract device\<close>

fun ev_next :: "devent \<Rightarrow> dev_spec \<Rightarrow> dev_spec" where
  "ev_next (Ev_write data) d = spec_write data d"
| "ev_next e d = d"

fun ev_ok :: "devent \<Rightarrow> dev_spec \<Rightarrow> bool" where
  "ev_ok (Ev_write data) d \<longleftrightarrow> True"
| "ev_ok (Ev_read p n bs) d \<longleftrightarrow> bs = spec_read p n d"
| "ev_ok (Ev_seek t r) d \<longleftrightarrow>
     r = global_pos (map length (commands d)) (unat (write_cmd t)) (unat (write_cmd_offset t))"
| "ev_ok (Ev_size n) d \<longleftrightarrow> n = length (spec_contents d)"

definition log_after :: "dev_spec \<Rightarrow> (nat \<times> devent) list \<Rightarrow> dev_spec" where
  "log_after d h = fold (\<lambda>(i, e). ev_next e) h d"

fun legal :: "dev_spec \<Rightarrow> (nat \<times> devent) list \<Rightarrow> bool" where
  "legal d [] \<longleftrightarrow> True"
| "legal d ((i, e) # h) \<longleftrightarrow> ev_ok e d \<and> legal (ev_next e d) h"

definition events_of :: "nat \<Rightarrow> (nat \<times> devent) list \<Rightarrow> devent list" where
  "events_of i h = map snd (filter (\<lambda>(j, _). j = i) h)"

lemma log_after_simps [simp]:
  "log_after d [] = d" "log_after d ((i, e) # h) = log_after (ev_next e d) h"
  by (simp_all add: log_after_def)

lemma log_after_append: "log_after d (h @ h') = log_after (log_after d h) h'"
  by (simp add: log_after_def)

lemma legal_append: "legal d (h @ h') \<longleftrightarrow> legal d h \<and> legal (log_after d h) h'"
proof (induction h arbitrary: d)
  case (Cons x h)
  then show ?case by (cases x) simp
qed simp

lemma events_of_append: "events_of i (h @ h') = events_of i h @ events_of i h'"
  by (simp add: events_of_def)

lemma events_of_pairs: "events_of j (map (Pair i) es) = (if j = i then es else [])"
  by (induction es) (auto simp: events_of_def)

section \<open>Who holds the semaphore\<close>

datatype mode = Out | Shared | Excl

fun mode_of :: "dpc \<Rightarrow> mode" where
  "mode_of R_find = Shared" | "mode_of (R_copy i off) = Shared" | "mode_of (R_up r) = Shared"
| "mode_of (W_append kb nt) = Excl" | "mode_of (W_commit nt l) = Excl"
| "mode_of (W_up l) = (if is_locked l then Excl else Out)"
| "mode_of (I_seek t) = Excl" | "mode_of (I_up r) = Excl"
| "mode_of L_size = Excl" | "mode_of (L_up n) = Excl"
| "mode_of pc = Out"

text \<open>The semaphore counts its holders; a writer is alone.\<close>

definition lock_agrees :: "rw_semaphore \<Rightarrow> (nat \<Rightarrow> mode) \<Rightarrow> bool" where
  "lock_agrees l M \<longleftrightarrow>
     finite {i. M i \<noteq> Out} \<and> (writer l \<longleftrightarrow> (\<exists>i. M i = Excl)) \<and>
     readers l = card {i. M i = Shared} \<and> (\<forall>i j. M i = Excl \<longrightarrow> j \<noteq> i \<longrightarrow> M j = Out)"

lemma lock_agrees_alone: "lock_agrees l M \<Longrightarrow> M i = Excl \<Longrightarrow> j \<noteq> i \<Longrightarrow> M j = Out"
  by (simp add: lock_agrees_def)

lemma lock_agrees_shared: "lock_agrees l M \<Longrightarrow> M i = Shared \<Longrightarrow> M j \<noteq> Excl"
  by (metis lock_agrees_alone mode.distinct(1,5))

lemma modes_insert:
  "M i = Out \<Longrightarrow> m \<noteq> Out \<Longrightarrow> {j. (M(i := m)) j \<noteq> Out} = insert i {j. M j \<noteq> Out}"
  by auto

lemma lock_down_read:
  assumes "lock_agrees l M" "\<not> writer l" "M i = Out"
  shows "lock_agrees (l\<lparr>readers := Suc (readers l)\<rparr>) (M(i := Shared))"
proof -
  have "{j. (M(i := Shared)) j = Shared} = insert i {j. M j = Shared}" by auto
  moreover have "finite {j. M j = Shared}"
    using assms(1) by (auto simp: lock_agrees_def elim: rev_finite_subset)
  ultimately have "card {j. (M(i := Shared)) j = Shared} = Suc (card {j. M j = Shared})"
    using assms(3) by simp
  then show ?thesis
    using assms modes_insert [of M i Shared] unfolding lock_agrees_def by auto
qed

lemma lock_up_read:
  assumes "lock_agrees l M" "M i = Shared"
  shows "0 < readers l" "lock_agrees (l\<lparr>readers := readers l - 1\<rparr>) (M(i := Out))"
proof -
  have e: "{j. M j = Shared} = insert i {j. (M(i := Out)) j = Shared}" using assms(2) by auto
  have fin: "finite {j. M j = Shared}"
    using assms(1) by (auto simp: lock_agrees_def elim: rev_finite_subset)
  then have c: "card {j. M j = Shared} = Suc (card {j. (M(i := Out)) j = Shared})"
    unfolding e by (subst card_insert_disjoint) (auto elim: rev_finite_subset)
  then show "0 < readers l" using assms(1) by (simp add: lock_agrees_def)
  have "{j. (M(i := Out)) j \<noteq> Out} \<subseteq> {j. M j \<noteq> Out}" by auto
  then have "finite {j. (M(i := Out)) j \<noteq> Out}"
    using assms(1) finite_subset unfolding lock_agrees_def by blast
  moreover have "(\<exists>j. (M(i := Out)) j = Excl) \<longleftrightarrow> (\<exists>j. M j = Excl)" using assms(2) by force
  ultimately show "lock_agrees (l\<lparr>readers := readers l - 1\<rparr>) (M(i := Out))"
    using assms c unfolding lock_agrees_def by auto
qed

lemma lock_down_write:
  assumes "lock_agrees l M" "\<not> writer l" "readers l = 0"
  shows "M j = Out" "lock_agrees (l\<lparr>writer := True\<rparr>) (M(i := Excl))"
proof -
  have "finite {j. M j = Shared}"
    using assms(1) by (auto simp: lock_agrees_def elim: rev_finite_subset)
  then have "M j = Out" for j
    using assms unfolding lock_agrees_def by (cases "M j") auto
  then show "M j = Out" "lock_agrees (l\<lparr>writer := True\<rparr>) (M(i := Excl))"
    using assms(3) by (simp_all add: lock_agrees_def)
qed

lemma lock_up_write:
  assumes "lock_agrees l M" "M i = Excl"
  shows "writer l" "lock_agrees (l\<lparr>writer := False\<rparr>) (M(i := Out))"
proof -
  have out: "M j = Out" if "j \<noteq> i" for j using assms that by (rule lock_agrees_alone)
  then have "{j. M j = Shared} = {}" using assms(2) by (metis (mono_tags) Collect_empty_eq mode.distinct(1,5))
  then show "writer l" "lock_agrees (l\<lparr>writer := False\<rparr>) (M(i := Out))"
    using assms out by (auto simp: lock_agrees_def)
qed

section \<open>What a call knows at each place\<close>

text \<open>The blocks of the kernel heap that belong to a call.\<close>

fun held :: "dpc \<Rightarrow> addr set" where
  "held (W_copy kb) = {kb}" | "held (W_lock kb nt) = {kb}" | "held (W_append kb nt) = {kb}"
| "held (W_commit nt l) = set_option (kern_buf l)"
| "held (W_up l) = set_option (kern_buf l) \<union> set_option (buffptr (evicted_entry l))"
| "held (W_kfree_evicted l) = set_option (kern_buf l) \<union> set_option (buffptr (evicted_entry l))"
| "held (W_kfree_buf l) = set_option (kern_buf l)"
| "held pc = {}"

text \<open>What a call that returns \<open>r\<close> has done: its events, and the position of its file.\<close>

fun did :: "dcall \<Rightarrow> kfile \<Rightarrow> devent list \<Rightarrow> int \<Rightarrow> bool" where
  "did (Call_read buf count) f es r \<longleftrightarrow>
     (\<exists>p bs. es = [Ev_read p (unat count) bs] \<and> r = int (length bs) \<and> unat (f_pos f) = p + length bs) \<or>
     es = [] \<and> (count = 0 \<and> r = 0 \<or> r \<in> {- EFAULT, - ERESTARTSYS})"
| "did (Call_write buf count) f es r \<longleftrightarrow>
     (\<exists>data. es = [Ev_write data] \<and> length data = unat count \<and> r = int (unat count)) \<or>
     es = [] \<and> (count = 0 \<and> r = 0 \<or> r \<in> {- ENOMEM, - EFAULT, - EINTR})"
| "did (Call_ioctl cmd arg) f es r \<longleftrightarrow>
     (\<exists>t. cmd = AESDCHAR_IOCSEEKTO \<and>
        (es = [Ev_seek t (Some (unat (f_pos f)))] \<and> r = 0 \<or> es = [Ev_seek t None] \<and> r = - EINVAL)) \<or>
     es = [] \<and> r \<in> {- EINVAL, - EFAULT, - EINTR}"
| "did (Call_llseek offset whence) f es r \<longleftrightarrow> (\<exists>n. es = [Ev_size n]) \<or> es = [] \<and> r = - EINTR"

fun reads :: "dcall \<Rightarrow> bool" where
  "reads (Call_read buf count) \<longleftrightarrow> True" | "reads call \<longleftrightarrow> False"

fun fragment :: "dcall \<Rightarrow> byte list \<Rightarrow> bool" where
  "fragment (Call_write buf count) bs \<longleftrightarrow> count \<noteq> 0 \<and> length bs = unat count \<and> length bs \<le> 2 ^ 48"
| "fragment call bs \<longleftrightarrow> False"

fun seeks :: "dcall \<Rightarrow> bool" where
  "seeks (Call_ioctl cmd arg) \<longleftrightarrow> cmd = AESDCHAR_IOCSEEKTO" | "seeks call \<longleftrightarrow> False"

fun llseeks :: "dcall \<Rightarrow> bool" where
  "llseeks (Call_llseek offset whence) \<longleftrightarrow> True" | "llseeks call \<longleftrightarrow> False"

fun loc :: "dcall \<Rightarrow> kfile \<Rightarrow> kstate \<Rightarrow> devent list \<Rightarrow> dpc \<Rightarrow> bool" where
  "loc call f s es Begin \<longleftrightarrow> es = []"
| "loc call f s es R_lock \<longleftrightarrow> es = [] \<and> reads call"
| "loc call f s es R_find \<longleftrightarrow> es = [] \<and> reads call"
| "loc call f s es (R_copy i off) \<longleftrightarrow> es = [] \<and> reads call \<and>
     (\<exists>k j. locate (unat (f_pos f)) (map length (commands (drv_spec s))) = Some (k, j) \<and>
        i = cb_slot (buffer (aesd_device s)) k \<and> off = of_nat j)"
| "loc call f s es (R_up r) \<longleftrightarrow> reads call \<and> did call f es r"
| "loc call f s es W_alloc \<longleftrightarrow> es = [] \<and> (\<exists>buf count. call = Call_write buf count \<and> count \<noteq> 0)"
| "loc call f s es (W_copy kb) \<longleftrightarrow> es = [] \<and> (\<exists>bs. kmem s kb = Some bs \<and> fragment call bs)"
| "loc call f s es (W_lock kb nt) \<longleftrightarrow>
     es = [] \<and> (\<exists>bs. kmem s kb = Some bs \<and> fragment call bs \<and> (nt \<longleftrightarrow> last bs = newline))"
| "loc call f s es (W_append kb nt) \<longleftrightarrow>
     es = [] \<and> (\<exists>bs. kmem s kb = Some bs \<and> fragment call bs \<and> (nt \<longleftrightarrow> last bs = newline))"
| "loc call f s es (W_commit nt l) \<longleftrightarrow>
     (\<exists>bs. es = [Ev_write bs] \<and> fragment call bs) \<and> is_locked l \<and> evicted_entry l = no_entry \<and>
     buffptr (temp_entry (aesd_device s)) \<noteq> NULL \<and> (nt \<longrightarrow> last (pending (drv_spec s)) = newline)"
| "loc call f s es (W_up l) \<longleftrightarrow> (\<exists>buf count. call = Call_write buf count) \<and> did call f es (retval l) \<and>
     set_option (kern_buf l) \<inter> set_option (buffptr (evicted_entry l)) = {}"
| "loc call f s es (W_kfree_evicted l) \<longleftrightarrow> (\<exists>buf count. call = Call_write buf count) \<and>
     did call f es (retval l) \<and> set_option (kern_buf l) \<inter> set_option (buffptr (evicted_entry l)) = {}"
| "loc call f s es (W_kfree_buf l) \<longleftrightarrow> (\<exists>buf count. call = Call_write buf count) \<and> did call f es (retval l)"
| "loc call f s es (I_lock t) \<longleftrightarrow> es = [] \<and> seeks call"
| "loc call f s es (I_seek t) \<longleftrightarrow> es = [] \<and> seeks call"
| "loc call f s es (I_up r) \<longleftrightarrow> seeks call \<and> did call f es r"
| "loc call f s es L_lock \<longleftrightarrow> es = [] \<and> llseeks call"
| "loc call f s es L_size \<longleftrightarrow> es = [] \<and> llseeks call"
| "loc call f s es (L_up n) \<longleftrightarrow> es = [Ev_size (unat n)] \<and> unat n < 2 ^ 63 \<and> llseeks call"
| "loc call f s es (L_seek n) \<longleftrightarrow> es = [Ev_size (unat n)] \<and> unat n < 2 ^ 63 \<and> llseeks call"
| "loc call f s es (Returned r) \<longleftrightarrow> did call f es r"

text \<open>
  It depends on the blocks the call holds, and, inside the critical section, on the device.
\<close>

definition same_device :: "kstate \<Rightarrow> kstate \<Rightarrow> bool" where
  "same_device s s' \<longleftrightarrow>
     buffer (aesd_device s') = buffer (aesd_device s) \<and> temp_entry (aesd_device s') = temp_entry (aesd_device s) \<and>
     drv_spec s' = drv_spec s"

lemma loc_keep:
  assumes "loc call f s es pc" "\<And>a. a \<in> held pc \<Longrightarrow> kmem s' a = kmem s a"
    "mode_of pc = Out \<or> same_device s s'"
  shows "loc call f s' es pc"
  using assms by (cases pc) (auto simp: same_device_def)

section \<open>The invariant of the system\<close>

definition modes :: "(nat \<rightharpoonup> dproc) \<Rightarrow> nat \<Rightarrow> mode" where
  "modes P i = (case P i of None \<Rightarrow> Out | Some p \<Rightarrow> mode_of (ppc p))"

definition holds :: "(nat \<rightharpoonup> dproc) \<Rightarrow> nat \<Rightarrow> addr set" where
  "holds P i = (case P i of None \<Rightarrow> {} | Some p \<Rightarrow> held (ppc p))"

text \<open>
  Between the append and the commit of a write the device is one step behind the log.
\<close>

definition commit_spec :: "bool \<Rightarrow> dev_spec \<Rightarrow> dev_spec" where
  "commit_spec nt d =
     (if nt then \<lparr>commands = log_push 10 (pending d) (commands d), pending = []\<rparr> else d)"

fun pc_view :: "dpc \<Rightarrow> dev_spec \<Rightarrow> dev_spec" where
  "pc_view (W_commit nt l) d = commit_spec nt d" | "pc_view pc d = d"

definition view_ok :: "dev_spec \<Rightarrow> dsys \<Rightarrow> bool" where
  "view_ok d0 c \<longleftrightarrow>
     (\<forall>i p. procs c i = Some p \<longrightarrow> mode_of (ppc p) = Excl \<longrightarrow>
        log_after d0 (dlog c) = pc_view (ppc p) (drv_spec (dks c))) \<and>
     ((\<forall>i. modes (procs c) i \<noteq> Excl) \<longrightarrow> log_after d0 (dlog c) = drv_spec (dks c))"

definition sys_inv :: "dev_spec \<Rightarrow> dsys \<Rightarrow> bool" where
  "sys_inv d0 c \<longleftrightarrow>
     drv_frame (\<Union>i. holds (procs c) i) (dks c) \<and>
     (\<forall>i j. i \<noteq> j \<longrightarrow> holds (procs c) i \<inter> holds (procs c) j = {}) \<and>
     lock_agrees (lock (aesd_device (dks c))) (modes (procs c)) \<and>
     (\<forall>i p. procs c i = Some p \<longrightarrow> private_data (pfile p) \<noteq> Null_Dev \<and>
        loc (pcall p) (pfile p) (dks c) (events_of i (dlog c)) (ppc p)) \<and>
     (\<forall>i. procs c i = None \<longrightarrow> events_of i (dlog c) = []) \<and>
     legal d0 (dlog c) \<and> view_ok d0 c"

lemma sys_inv_dnotes [simp]: "sys_inv d0 (c\<lparr>dnotes := x\<rparr>) = sys_inv d0 c"
  by (simp add: sys_inv_def view_ok_def)

lemma sys_invD:
  assumes "sys_inv d0 c"
  shows "drv_frame (\<Union>i. holds (procs c) i) (dks c)"
    "i \<noteq> j \<Longrightarrow> holds (procs c) i \<inter> holds (procs c) j = {}"
    "lock_agrees (lock (aesd_device (dks c))) (modes (procs c))"
    "procs c i = Some p \<Longrightarrow> private_data (pfile p) \<noteq> Null_Dev"
    "procs c i = Some p \<Longrightarrow> loc (pcall p) (pfile p) (dks c) (events_of i (dlog c)) (ppc p)"
    "procs c i = None \<Longrightarrow> events_of i (dlog c) = []"
    "legal d0 (dlog c)" "view_ok d0 c"
  using assms unfolding sys_inv_def by blast+

text \<open>The blocks of the other calls.\<close>

definition others :: "(nat \<rightharpoonup> dproc) \<Rightarrow> nat \<Rightarrow> addr set" where
  "others P i = (\<Union>j \<in> - {i}. holds P j)"

lemma holds_upd [simp]: "holds (P(i \<mapsto> p)) j = (if j = i then held (ppc p) else holds P j)"
  by (simp add: holds_def)

lemma modes_upd: "modes (P(i \<mapsto> p)) = (modes P)(i := mode_of (ppc p))"
  by (auto simp: modes_def)

lemma modes_Some: "P i = Some p \<Longrightarrow> modes P i = mode_of (ppc p)"
  by (simp add: modes_def)

lemma holds_split: "(\<Union>j. holds P j) = holds P i \<union> others P i"
  by (auto simp: others_def)

lemma others_upd [simp]: "others (P(i \<mapsto> p)) i = others P i"
  by (auto simp: others_def)

lemma pc_view_id: "mode_of pc \<noteq> Excl \<Longrightarrow> pc_view pc d = d"
  by (cases pc) simp_all

lemma view_ok_move:
  assumes inv: "sys_inv d0 c" and p: "procs c i = Some p"
    and c': "procs c' = (procs c)(i \<mapsto> q)" "dlog c' = h" "dks c' = s'"
    and dev: "mode_of (ppc p) = Excl \<or> drv_spec s' = drv_spec (dks c)"
    and vw1: "mode_of (ppc p) = Excl \<or> mode_of (ppc q) = Excl \<Longrightarrow> log_after d0 h = pc_view (ppc q) (drv_spec s')"
    and vw2: "mode_of (ppc p) \<noteq> Excl \<Longrightarrow> log_after d0 h = log_after d0 (dlog c)"
    and alone: "\<And>j. mode_of (ppc q) = Excl \<Longrightarrow> j \<noteq> i \<Longrightarrow> modes (procs c) j = Out"
  shows "view_ok d0 c'"
proof (cases "mode_of (ppc p) = Excl \<or> mode_of (ppc q) = Excl")
  case True
  have out: "modes (procs c) j = Out" if "j \<noteq> i" for j
    using True alone lock_agrees_alone [OF sys_invD(3) [OF inv], of i] that modes_Some [of "procs c", OF p] by auto
  show ?thesis
    unfolding view_ok_def c'(2,3)
  proof (intro conjI allI impI)
    fix j q' assume q': "procs c' j = Some q'" "mode_of (ppc q') = Excl"
    have "j = i"
    proof (rule ccontr)
      assume "j \<noteq> i"
      then have "procs c j = Some q'" using q'(1) by (simp add: c')
      with out [OF \<open>j \<noteq> i\<close>] q'(2) show False by (simp add: modes_def)
    qed
    then show "log_after d0 h = pc_view (ppc q') (drv_spec s')" using q' vw1 [OF True] by (simp add: c')
  next
    assume "\<forall>j. modes (procs c') j \<noteq> Excl"
    then have "modes (procs c') i \<noteq> Excl" by blast
    then have "mode_of (ppc q) \<noteq> Excl" by (simp add: c'(1) modes_upd)
    then show "log_after d0 h = drv_spec s'" using vw1 [OF True] by (simp add: pc_view_id)
  qed
next
  case False
  note v = sys_invD(8) [OF inv, unfolded view_ok_def]
  have d: "drv_spec s' = drv_spec (dks c)" "log_after d0 h = log_after d0 (dlog c)" using False dev vw2 by auto
  have m: "modes (procs c') j = Excl \<longleftrightarrow> modes (procs c) j = Excl" for j
    using False modes_Some [of "procs c", OF p] by (simp add: c' modes_upd)
  have "log_after d0 h = pc_view (ppc q') (drv_spec s')"
    if "procs c' j = Some q'" "mode_of (ppc q') = Excl" for j q'
    using that False v d by (auto simp: c' split: if_splits)
  then show ?thesis using v d m unfolding view_ok_def c'(2,3) by simp
qed

text \<open>The frame of all steps: call \<open>i\<close> moves on, the others stay where they are.\<close>

lemma sys_move:
  assumes inv: "sys_inv d0 c" and p: "procs c i = Some p"
    and frame: "drv_frame (held pc' \<union> others (procs c) i) s'" "held pc' \<inter> others (procs c) i = {}"
    and lk: "lock_agrees (lock (aesd_device s')) ((modes (procs c))(i := mode_of pc'))"
    and fl: "private_data f' \<noteq> Null_Dev"
    and lc: "loc (pcall p) f' s' (events_of i (dlog c) @ es) pc'"
    and keep: "\<And>a. a \<in> others (procs c) i \<Longrightarrow> kmem s' a = kmem (dks c) a"
    and dev: "mode_of (ppc p) = Excl \<or> same_device (dks c) s'"
    and leg: "legal (log_after d0 (dlog c)) (map (Pair i) es)"
    and vw1: "mode_of (ppc p) = Excl \<or> mode_of pc' = Excl \<Longrightarrow>
      log_after d0 (dlog c @ map (Pair i) es) = pc_view pc' (drv_spec s')"
    and vw2: "mode_of (ppc p) \<noteq> Excl \<Longrightarrow> log_after d0 (dlog c @ map (Pair i) es) = log_after d0 (dlog c)"
  shows "sys_inv d0 (c\<lparr>dks := s', procs := (procs c)(i \<mapsto> p\<lparr>pfile := f', ppc := pc'\<rparr>),
    dlog := dlog c @ map (Pair i) es\<rparr>)" (is "sys_inv d0 ?c")
proof -
  note v = sys_invD [OF inv]
  let ?P = "(procs c)(i \<mapsto> p\<lparr>pfile := f', ppc := pc'\<rparr>)"
  have "(\<Union>j. holds ?P j) = held pc' \<union> others (procs c) i" using holds_split [of ?P i] by simp
  then have 1: "drv_frame (\<Union>j. holds (procs ?c) j) (dks ?c)" using frame(1) by simp
  have 2: "holds ?P j \<inter> holds ?P k = {}" if "j \<noteq> k" for j k
    using that frame(2) v(2) [of j k] by (auto simp: others_def)
  have 4: "private_data (pfile q) \<noteq> Null_Dev \<and> loc (pcall q) (pfile q) s' (events_of j (dlog ?c)) (ppc q)"
    if q: "?P j = Some q" for j q
  proof (cases "j = i")
    case True
    then show ?thesis using q fl lc by (auto simp: events_of_append events_of_pairs)
  next
    case False
    then have q': "procs c j = Some q" using q by simp
    have "held (ppc q) \<subseteq> others (procs c) i" using False q' by (auto simp: others_def holds_def)
    moreover have "mode_of (ppc q) = Out \<or> same_device (dks c) s'"
      using dev lock_agrees_alone [OF v(3), of i j] False modes_Some [of "procs c", OF p]
        modes_Some [of "procs c", OF q'] by auto
    ultimately have "loc (pcall q) (pfile q) s' (events_of j (dlog c)) (ppc q)"
      using loc_keep [OF v(5) [OF q']] keep by blast
    then show ?thesis using v(4) [OF q'] False by (simp add: events_of_append events_of_pairs)
  qed
  have 8: "view_ok d0 ?c"
  proof (rule view_ok_move [OF inv p, where h = "dlog c @ map (Pair i) es" and s' = s'])
    show "mode_of (ppc p) = Excl \<or> drv_spec s' = drv_spec (dks c)" using dev by (auto simp: same_device_def)
    fix j assume "mode_of (ppc (p\<lparr>pfile := f', ppc := pc'\<rparr>)) = Excl" "j \<noteq> i"
    then show "modes (procs c) j = Out" using lock_agrees_alone [OF lk, of i j] by simp
  qed (use vw1 vw2 in simp_all)
  have "events_of j (dlog ?c) = []" if "?P j = None" for j
    using that v(6) [of j] by (simp add: events_of_append events_of_pairs split: if_splits)
  then show ?thesis
    unfolding sys_inv_def using 1 2 4 8 lk leg v(7) by (simp add: modes_upd legal_append)
qed

text \<open>Steps outside the critical section, and steps that take or release the semaphore.\<close>

lemma sys_move_quiet:
  assumes inv: "sys_inv d0 c" and p: "procs c i = Some p"
    and m: "mode_of (ppc p) = Out" "mode_of pc' = Out"
    and frame: "drv_frame (held pc' \<union> others (procs c) i) s'" "held pc' \<inter> others (procs c) i = {}"
    and fl: "private_data f' \<noteq> Null_Dev"
    and lc: "loc (pcall p) f' s' (events_of i (dlog c)) pc'"
    and keep: "\<And>a. a \<in> others (procs c) i \<Longrightarrow> kmem s' a = kmem (dks c) a"
    and dev: "aesd_device s' = aesd_device (dks c)" "drv_spec s' = drv_spec (dks c)"
  shows "sys_inv d0 (c\<lparr>dks := s', procs := (procs c)(i \<mapsto> p\<lparr>pfile := f', ppc := pc'\<rparr>)\<rparr>)"
proof -
  have "(modes (procs c))(i := mode_of pc') = modes (procs c)" using m modes_Some [of "procs c", OF p] by auto
  then have "lock_agrees (lock (aesd_device s')) ((modes (procs c))(i := mode_of pc'))"
    using sys_invD(3) [OF inv] dev(1) by simp
  then show ?thesis
    using sys_move [OF inv p frame, of f' "[]"] fl lc keep dev m by (simp add: same_device_def)
qed

lemma sys_move_lock:
  assumes inv: "sys_inv d0 c" and p: "procs c i = Some p"
    and l: "lock_agrees l ((modes (procs c))(i := mode_of pc'))"
    and h: "held pc' = held (ppc p)" and w: "pc_view pc' = (\<lambda>d. d)" "pc_view (ppc p) = (\<lambda>d. d)"
    and ex: "mode_of pc' = Excl \<Longrightarrow> mode_of (ppc p) = Excl \<or> (\<forall>j. modes (procs c) j \<noteq> Excl)"
    and lc: "loc (pcall p) (pfile p) (dks c) (events_of i (dlog c)) pc'"
  shows "sys_inv d0 (c\<lparr>dks := set_lock l (dks c), procs := (procs c)(i \<mapsto> p\<lparr>ppc := pc'\<rparr>)\<rparr>)"
proof -
  note v = sys_invD [OF inv]
  have hp: "holds (procs c) i = held pc'" using p h by (simp add: holds_def)
  have f: "drv_frame (held pc' \<union> others (procs c) i) (set_lock l (dks c))"
    using v(1) holds_split [of "procs c" i] by (simp add: hp)
  have "held pc' \<inter> holds (procs c) j = {}" if "j \<noteq> i" for j using v(2) [of i j] that by (simp add: hp)
  then have "held pc' \<inter> others (procs c) i = {}" by (auto simp: others_def)
  moreover have "loc (pcall p) (pfile p) (set_lock l (dks c)) (events_of i (dlog c) @ []) pc'"
    using lc by (auto intro: loc_keep [where s = "dks c"] simp: same_device_def)
  moreover have "log_after d0 (dlog c) = drv_spec (dks c)" if "mode_of (ppc p) = Excl \<or> mode_of pc' = Excl"
    using that v(8) p w(2) ex unfolding view_ok_def by auto
  ultimately show ?thesis
    using sys_move [OF inv p f, of "pfile p" "[]"] l v(4) [OF p] w(1) by (simp add: same_device_def)
qed

section \<open>Every piece keeps the invariant\<close>

lemma own_frame:
  assumes "sys_inv d0 c" "procs c i = Some p"
  shows "drv_frame (held (ppc p) \<union> others (procs c) i) (dks c)" "held (ppc p) \<inter> others (procs c) i = {}"
proof -
  have hp: "holds (procs c) i = held (ppc p)" using assms(2) by (simp add: holds_def)
  show "drv_frame (held (ppc p) \<union> others (procs c) i) (dks c)"
    using sys_invD(1) [OF assms(1)] holds_split [of "procs c" i] by (simp add: hp)
  have "held (ppc p) \<inter> holds (procs c) j = {}" if "j \<noteq> i" for j
    using sys_invD(2) [OF assms(1), of i j] that by (simp add: hp)
  then show "held (ppc p) \<inter> others (procs c) i = {}" by (auto simp: others_def)
qed

text \<open>The piece at which call \<open>i\<close> stands succeeds and keeps the invariant.\<close>

definition advances :: "dev_spec \<Rightarrow> kernel \<Rightarrow> dsys \<Rightarrow> nat \<Rightarrow> dproc \<Rightarrow> bool" where
  "advances d0 K c i p \<longleftrightarrow>
     (\<exists>f' pc' s'. drv_next K (pcall p) (pfile p) (ppc p) (dks c) = Inr (f', pc', s') \<and>
        sys_inv d0 (c\<lparr>dks := s', procs := (procs c)(i \<mapsto> p\<lparr>pfile := f', ppc := pc'\<rparr>),
          dlog := dlog c @ map (Pair i) (drv_event (pcall p) (pfile p) (ppc p) (dks c) f' pc' s')\<rparr>) \<and>
        (\<forall>a \<in> others (procs c) i. kmem s' a = kmem (dks c) a))"

lemma advancesI:
  assumes "drv_next K (pcall p) (pfile p) (ppc p) (dks c) = Inr (f', pc', s')"
    "drv_event (pcall p) (pfile p) (ppc p) (dks c) f' pc' s' = es"
    "sys_inv d0 (c\<lparr>dks := s', procs := (procs c)(i \<mapsto> p\<lparr>pfile := f', ppc := pc'\<rparr>), dlog := dlog c @ map (Pair i) es\<rparr>)"
    "\<And>a. a \<in> others (procs c) i \<Longrightarrow> kmem s' a = kmem (dks c) a"
  shows "advances d0 K c i p"
  using assms unfolding advances_def by blast

lemma advances_silent:
  assumes "drv_next K (pcall p) (pfile p) (ppc p) (dks c) = Inr (f', pc', s')"
    "drv_event (pcall p) (pfile p) (ppc p) (dks c) f' pc' s' = []"
    "sys_inv d0 (c\<lparr>dks := s', procs := (procs c)(i \<mapsto> p\<lparr>pfile := f', ppc := pc'\<rparr>)\<rparr>)"
    "\<And>a. a \<in> others (procs c) i \<Longrightarrow> kmem s' a = kmem (dks c) a"
  shows "advances d0 K c i p"
  using assms by (intro advancesI [of K p c f' pc' s' "[]"]) simp_all

lemmas step_simps = drv_next_def read_step_def write_step_def seek_step_def llseek_step_def drv_event_def

text \<open>A step of a call that holds nothing and touches nothing.\<close>

lemma advances_idle:
  assumes inv: "sys_inv d0 c" and p: "procs c i = Some p"
    and n: "drv_next K (pcall p) (pfile p) (ppc p) (dks c) = Inr (pfile p, pc', dks c)"
    and e: "drv_event (pcall p) (pfile p) (ppc p) (dks c) (pfile p) pc' (dks c) = []"
    and m: "mode_of (ppc p) = Out" "mode_of pc' = Out" "held pc' = held (ppc p)"
    and lc: "loc (pcall p) (pfile p) (dks c) (events_of i (dlog c)) pc'"
  shows "advances d0 K c i p"
  by (rule advances_silent [OF n e], rule sys_move_quiet [OF inv p m(1,2)])
    (use own_frame [OF inv p] sys_invD(4) [OF inv p] m(3) lc in simp_all)

lemma advances_Begin:
  assumes inv: "sys_inv d0 c" and p: "procs c i = Some p" and pc: "ppc p = Begin"
  shows "advances d0 K c i p"
proof -
  note pd = sys_invD(4) [OF inv p]
  have es: "events_of i (dlog c) = []" using sys_invD(5) [OF inv p] pc by simp
  have "\<exists>pc'. begin_call K (pcall p) (pfile p) (dks c) = Inr pc' \<and> mode_of pc' = Out \<and> held pc' = {} \<and>
      loc (pcall p) (pfile p) (dks c) [] pc' \<and> (\<forall>r. pc' \<noteq> R_up r)"
    using pd by (cases "pcall p") (auto simp: begin_call_def split: prod.split)
  then obtain pc' where b: "begin_call K (pcall p) (pfile p) (dks c) = Inr pc'" "mode_of pc' = Out"
    "held pc' = {}" "loc (pcall p) (pfile p) (dks c) [] pc'" "\<forall>r. pc' \<noteq> R_up r" by blast
  show ?thesis
    by (rule advances_idle [OF inv p, of K pc'])
      (use b pc es in \<open>auto simp: drv_next_def drv_event_def split: dcall.split dpc.split\<close>)
qed

text \<open>Taking and releasing the semaphore.\<close>

lemma advances_lock:
  assumes inv: "sys_inv d0 c" and p: "procs c i = Some p"
    and n: "drv_next K (pcall p) (pfile p) (ppc p) (dks c) = Inr (pfile p, pc', set_lock l (dks c))"
    and e: "drv_event (pcall p) (pfile p) (ppc p) (dks c) (pfile p) pc' (set_lock l (dks c)) = []"
    and l: "lock_agrees l ((modes (procs c))(i := mode_of pc'))"
    and h: "held pc' = held (ppc p)" and w: "pc_view pc' = (\<lambda>d. d)" "pc_view (ppc p) = (\<lambda>d. d)"
    and ex: "mode_of pc' = Excl \<Longrightarrow> \<forall>j. modes (procs c) j = Out"
    and lc: "loc (pcall p) (pfile p) (dks c) (events_of i (dlog c)) pc'"
  shows "advances d0 K c i p"
proof (rule advances_silent [OF n e])
  have "p\<lparr>pfile := pfile p, ppc := pc'\<rparr> = p\<lparr>ppc := pc'\<rparr>" by simp
  then show "sys_inv d0 (c\<lparr>dks := set_lock l (dks c), procs := (procs c)(i \<mapsto> p\<lparr>pfile := pfile p, ppc := pc'\<rparr>)\<rparr>)"
    using sys_move_lock [OF inv p l h w _ lc] ex by simp
qed simp

lemma pc_view_eta: "(\<And>nt l. pc \<noteq> W_commit nt l) \<Longrightarrow> pc_view pc = (\<lambda>d. d)"
  by (cases pc) auto

text \<open>A reader between its lock and unlock: only user memory may change.\<close>

lemma advances_shared:
  assumes inv: "sys_inv d0 c" and p: "procs c i = Some p"
    and n: "drv_next K (pcall p) (pfile p) (ppc p) (dks c) = Inr (f', pc', (dks c)\<lparr>usermem := um\<rparr>)"
    and e: "drv_event (pcall p) (pfile p) (ppc p) (dks c) f' pc' ((dks c)\<lparr>usermem := um\<rparr>) = es"
    and m: "mode_of (ppc p) = Shared" "mode_of pc' = Shared" "held pc' = held (ppc p)"
    and f: "private_data f' = private_data (pfile p)"
    and lc: "loc (pcall p) f' (dks c) (events_of i (dlog c) @ es) pc'"
    and r: "es = [] \<or> (\<exists>a b bs. es = [Ev_read a b bs] \<and> bs = spec_read a b (drv_spec (dks c)))"
  shows "advances d0 K c i p"
proof (rule advancesI [OF n e], rule sys_move [OF inv p])
  note v = sys_invD [OF inv]
  have me: "modes (procs c) i = Shared" using m(1) modes_Some [of "procs c", OF p] by simp
  have view: "log_after d0 (dlog c) = drv_spec (dks c)"
    using v(8) lock_agrees_shared [OF v(3) me] unfolding view_ok_def by blast
  show "legal (log_after d0 (dlog c)) (map (Pair i) es)" using r view by auto
  show "log_after d0 (dlog c @ map (Pair i) es) = log_after d0 (dlog c)"
    using r by (auto simp: log_after_append)
  show "lock_agrees (lock (aesd_device ((dks c)\<lparr>usermem := um\<rparr>))) ((modes (procs c))(i := mode_of pc'))"
    using v(3) me m(2) by (metis fun_upd_triv kstate.select_convs(3) kstate.surjective kstate.update_convs(2))
  show "loc (pcall p) f' ((dks c)\<lparr>usermem := um\<rparr>) (events_of i (dlog c) @ es) pc'"
    using lc by (auto intro: loc_keep [where s = "dks c"] simp: same_device_def)
qed (use own_frame [OF inv p] sys_invD(4) [OF inv p] f m in \<open>simp_all add: same_device_def\<close>)

text \<open>A writer between its lock and unlock.\<close>

lemma advances_excl:
  assumes inv: "sys_inv d0 c" and p: "procs c i = Some p"
    and n: "drv_next K (pcall p) (pfile p) (ppc p) (dks c) = Inr (f', pc', s')"
    and e: "drv_event (pcall p) (pfile p) (ppc p) (dks c) f' pc' s' = es"
    and m: "mode_of (ppc p) = Excl" "mode_of pc' = Excl"
    and f: "private_data f' = private_data (pfile p)"
    and frame: "drv_frame (held pc' \<union> others (procs c) i) s'" "held pc' \<inter> others (procs c) i = {}"
    and keep: "\<And>a. a \<in> others (procs c) i \<Longrightarrow> kmem s' a = kmem (dks c) a"
    and lk: "lock (aesd_device s') = lock (aesd_device (dks c))"
    and lc: "loc (pcall p) f' s' (events_of i (dlog c) @ es) pc'"
    and leg: "legal (log_after d0 (dlog c)) (map (Pair i) es)"
    and vw: "log_after (log_after d0 (dlog c)) (map (Pair i) es) = pc_view pc' (drv_spec s')"
  shows "advances d0 K c i p"
proof (rule advancesI [OF n e], rule sys_move [OF inv p frame])
  have "(modes (procs c))(i := mode_of pc') = modes (procs c)" using m modes_Some [of "procs c", OF p] by auto
  then show "lock_agrees (lock (aesd_device s')) ((modes (procs c))(i := mode_of pc'))"
    using sys_invD(3) [OF inv] lk by simp
  show "log_after d0 (dlog c @ map (Pair i) es) = pc_view pc' (drv_spec s')" using vw by (simp add: log_after_append)
qed (use f lc keep m(1) leg sys_invD(4) [OF inv p] in simp_all)

lemma excl_view:
  assumes "sys_inv d0 c" "procs c i = Some p" "mode_of (ppc p) = Excl"
  shows "log_after d0 (dlog c) = pc_view (ppc p) (drv_spec (dks c))"
  using sys_invD(8) [OF assms(1)] assms(2,3) by (auto simp: view_ok_def)

subsection \<open>read\<close>

lemma readsE:
  assumes "reads call"
  obtains buf count where "call = Call_read buf count"
  using assms by (cases call) auto

lemma user_bytes_write: "user_bytes (write_umem um a bs) a (length bs) = bs"
  by (rule nth_equalityI) (simp_all add: user_bytes_def write_umem_def)

lemma lock_up_cases:
  assumes "lock_laws K"
  shows "0 < readers l \<Longrightarrow> up_read K l = l\<lparr>readers := readers l - 1\<rparr>" "writer l \<Longrightarrow> up_write K l = l\<lparr>writer := False\<rparr>"
  using assms by (simp_all add: lock_laws_def)

lemma advances_R_lock:
  assumes inv: "sys_inv d0 c" and p: "procs c i = Some p" and pc: "ppc p = R_lock" and K: "kernel_laws K"
  shows "advances d0 K c i p"
proof -
  have lc: "events_of i (dlog c) = []" "reads (pcall p)" using sys_invD(5) [OF inv p] pc by simp_all
  then obtain buf count where call: "pcall p = Call_read buf count" by (blast elim: readsE)
  let ?l = "lock (aesd_device (dks c))"
  have lk: "lock_laws K" using K by (simp add: kernel_laws_def)
  show ?thesis
  proof (rule down_read_cases [OF lk, of ?l], goal_cases taken intr)
    case taken
    have "modes (procs c) i = Out" using modes_Some [of "procs c", OF p] pc by simp
    from lock_down_read [OF sys_invD(3) [OF inv] taken(3) this] show ?thesis
      by (intro advances_lock [OF inv p, of K R_find "?l\<lparr>readers := Suc (readers ?l)\<rparr>"])
        (use taken(1) pc lc call in \<open>simp_all add: step_simps pc_view_eta\<close>)
  next
    case (intr res)
    then show ?thesis
      by (intro advances_idle [OF inv p, of K "Returned (- ERESTARTSYS)"])
        (use pc lc call in \<open>simp_all add: step_simps\<close>)
  qed
qed

lemma advances_R_find:
  assumes inv: "sys_inv d0 c" and p: "procs c i = Some p" and pc: "ppc p = R_find"
  shows "advances d0 K c i p"
proof -
  have lc: "events_of i (dlog c) = []" "reads (pcall p)" using sys_invD(5) [OF inv p] pc by simp_all
  then obtain buf count where call: "pcall p = Call_read buf count" by (blast elim: readsE)
  let ?pos = "f_pos (pfile p)" and ?s = "dks c"
  note find = aesd_read_find_ok [OF own_frame(1) [OF inv p], of ?pos]
  show ?thesis
  proof (cases "locate (unat ?pos) (map length (commands (drv_spec ?s)))")
    case None
    let ?e = "Ev_read (unat ?pos) (unat count) []"
    have "spec_read (unat ?pos) (unat count) (drv_spec ?s) = []" using None by (simp add: spec_read_def)
    with None show ?thesis
      by (intro advances_shared [OF inv p, of K "pfile p" "R_up 0" "usermem ?s" "[?e]"])
        (use find pc lc call in \<open>simp_all add: step_simps user_bytes_def\<close>)
  next
    case (Some kj)
    then obtain k j where kj: "locate (unat ?pos) (map length (commands (drv_spec ?s))) = Some (k, j)"
      by (cases kj) simp
    then show ?thesis
      by (intro advances_shared [OF inv p, of K "pfile p" "R_copy (cb_slot (buffer (aesd_device ?s)) k) (of_nat j)"
            "usermem ?s" "[]"])
        (use find pc lc call in \<open>auto simp: step_simps\<close>)
  qed
qed

lemma advances_R_copy:
  assumes inv: "sys_inv d0 c" and p: "procs c i = Some p" and pc: "ppc p = R_copy x off" and K: "kernel_laws K"
  shows "advances d0 K c i p"
proof -
  let ?pos = "f_pos (pfile p)" and ?s = "dks c"
  from sys_invD(5) [OF inv p] pc obtain k j where lc: "events_of i (dlog c) = []" "reads (pcall p)"
    and kj: "locate (unat ?pos) (map length (commands (drv_spec ?s))) = Some (k, j)"
    "x = cb_slot (buffer (aesd_device ?s)) k" "off = of_nat j" by auto
  obtain buf count where call: "pcall p = Call_read buf count" using lc(2) by (blast elim: readsE)
  have ul: "user_laws K" using K by (simp add: kernel_laws_def)
  let ?bs = "spec_read (unat ?pos) (unat count) (drv_spec ?s)"
  from aesd_read_copy_ok [OF ul own_frame(1) [OF inv p] kj(1), of buf count] kj(2,3) obtain r pos um where
    run: "aesd_read_copy K buf count ?pos x off ?s = Inr (r, pos, ?s\<lparr>usermem := um\<rparr>)"
    and res: "read_result (usermem ?s) buf count ?pos (drv_spec ?s) r pos um" "r \<noteq> - ERESTARTSYS" by metis
  consider (ok) "r = int (length ?bs)" "unat pos = unat ?pos + length ?bs" "um = write_umem (usermem ?s) buf ?bs"
    | (fault) "r = - EFAULT" "pos = ?pos" using res by (auto simp: read_result_def Let_def)
  then show ?thesis
  proof cases
    case ok
    let ?e = "Ev_read (unat ?pos) (unat count) ?bs"
    have "user_bytes um buf (nat r) = ?bs" using ok by (simp add: user_bytes_write)
    then show ?thesis
      by (intro advances_shared [OF inv p, of K "(pfile p)\<lparr>f_pos := pos\<rparr>" "R_up r" um "[?e]"])
        (use run ok(1,2) pc lc call in \<open>simp_all add: step_simps\<close>)
  next
    case fault
    then show ?thesis
      by (intro advances_shared [OF inv p, of K "(pfile p)\<lparr>f_pos := pos\<rparr>" "R_up r" um "[]"])
        (use run pc lc call in \<open>simp_all add: step_simps errno_defs\<close>)
  qed
qed

lemma advances_R_up:
  assumes inv: "sys_inv d0 c" and p: "procs c i = Some p" and pc: "ppc p = R_up r" and K: "kernel_laws K"
  shows "advances d0 K c i p"
proof -
  let ?l = "lock (aesd_device (dks c))"
  have lc: "reads (pcall p)" "did (pcall p) (pfile p) (events_of i (dlog c)) r"
    using sys_invD(5) [OF inv p] pc by simp_all
  obtain buf count where call: "pcall p = Call_read buf count" using lc(1) by (blast elim: readsE)
  have me: "modes (procs c) i = Shared" using modes_Some [of "procs c", OF p] pc by simp
  note up = lock_up_read [OF sys_invD(3) [OF inv] me]
  have "up_read K ?l = ?l\<lparr>readers := readers ?l - 1\<rparr>"
    using K up(1) by (simp add: kernel_laws_def lock_up_cases)
  then show ?thesis
    by (intro advances_lock [OF inv p, of K "Returned r" "?l\<lparr>readers := readers ?l - 1\<rparr>"])
      (use up(2) pc lc(2) call in \<open>simp_all add: step_simps pc_view_eta\<close>)
qed

subsection \<open>ioctl and llseek\<close>

lemma advances_down_write:
  assumes inv: "sys_inv d0 c" and p: "procs c i = Some p" and K: "kernel_laws K"
    and n: "\<And>res l. down_write_killable K (lock (aesd_device (dks c))) = (res, l) \<Longrightarrow>
      drv_next K (pcall p) (pfile p) (ppc p) (dks c) =
        Inr (pfile p, if res \<noteq> 0 then quit else enter, set_lock l (dks c))"
    and e: "\<And>pc' s'. pc' \<in> {quit, enter} \<Longrightarrow> drv_event (pcall p) (pfile p) (ppc p) (dks c) (pfile p) pc' s' = []"
    and m: "mode_of (ppc p) = Out" "mode_of quit = Out" "mode_of enter = Excl"
    and h: "held quit = held (ppc p)" "held enter = held (ppc p)"
    and w: "pc_view enter = (\<lambda>d. d)"
    and lc: "loc (pcall p) (pfile p) (dks c) (events_of i (dlog c)) quit"
      "loc (pcall p) (pfile p) (dks c) (events_of i (dlog c)) enter"
  shows "advances d0 K c i p"
proof -
  let ?l = "lock (aesd_device (dks c))"
  have lk: "lock_laws K" using K by (simp add: kernel_laws_def)
  show ?thesis
  proof (rule down_write_cases [OF lk, of ?l], goal_cases taken intr)
    case taken
    note d = lock_down_write [OF sys_invD(3) [OF inv] taken(3,4)]
    show ?thesis
      by (rule advances_lock [OF inv p, of K enter "?l\<lparr>writer := True\<rparr>"])
        (use n [OF taken(1)] e d m h w lc pc_view_id [of "ppc p"] in \<open>auto simp: fun_eq_iff\<close>)
  next
    case (intr res)
    then show ?thesis
      by (intro advances_idle [OF inv p, of K quit]) (use n [OF intr(1)] e m h lc in simp_all)
  qed
qed

lemma advances_up_write:
  assumes inv: "sys_inv d0 c" and p: "procs c i = Some p" and K: "kernel_laws K"
    and n: "drv_next K (pcall p) (pfile p) (ppc p) (dks c) =
      Inr (pfile p, pc', set_lock (up_write K (lock (aesd_device (dks c)))) (dks c))"
    and e: "\<And>s'. drv_event (pcall p) (pfile p) (ppc p) (dks c) (pfile p) pc' s' = []"
    and m: "mode_of (ppc p) = Excl" "mode_of pc' = Out" "held pc' = held (ppc p)"
    and w: "pc_view (ppc p) = (\<lambda>d. d)"
    and lc: "loc (pcall p) (pfile p) (dks c) (events_of i (dlog c)) pc'"
  shows "advances d0 K c i p"
proof -
  let ?l = "lock (aesd_device (dks c))"
  have me: "modes (procs c) i = Excl" using modes_Some [of "procs c", OF p] m(1) by simp
  note up = lock_up_write [OF sys_invD(3) [OF inv] me]
  have "up_write K ?l = ?l\<lparr>writer := False\<rparr>" using K up(1) by (simp add: kernel_laws_def lock_up_cases)
  then show ?thesis
    by (intro advances_lock [OF inv p, of K pc' "?l\<lparr>writer := False\<rparr>"])
      (use n e up(2) m w lc pc_view_id [of pc'] in \<open>auto simp: fun_eq_iff\<close>)
qed

lemma seeksE:
  assumes "seeks call"
  obtains arg where "call = Call_ioctl AESDCHAR_IOCSEEKTO arg"
  using assms by (cases call) auto

lemma llseeksE:
  assumes "llseeks call"
  obtains offset whence where "call = Call_llseek offset whence"
  using assms by (cases call) auto

lemma advances_I:
  assumes inv: "sys_inv d0 c" and p: "procs c i = Some p" and K: "kernel_laws K"
    and pc: "ppc p = I_lock t \<or> ppc p = I_seek t \<or> ppc p = I_up r"
  shows "advances d0 K c i p"
proof -
  let ?s = "dks c" and ?g = "\<lambda>d. global_pos (map length (commands d)) (unat (write_cmd t)) (unat (write_cmd_offset t))"
  note lc = sys_invD(5) [OF inv p]
  have "seeks (pcall p)" using lc pc by auto
  then obtain arg where call: "pcall p = Call_ioctl AESDCHAR_IOCSEEKTO arg" by (rule seeksE)
  from pc show ?thesis
  proof (elim disjE)
    assume pc: "ppc p = I_lock t"
    show ?thesis
      by (rule advances_down_write [OF inv p K, of "Returned (- EINTR)" "I_seek t"])
        (use pc lc call in \<open>auto simp: step_simps pc_view_eta\<close>)
  next
    assume pc: "ppc p = I_up r"
    show ?thesis
      by (rule advances_up_write [OF inv p K, of "Returned r"])
        (use pc lc call in \<open>auto simp: step_simps pc_view_eta\<close>)
  next
    assume pc: "ppc p = I_seek t"
    have fr: "drv_frame (others (procs c) i) ?s" using own_frame [OF inv p] pc by simp
    note sz = drv_frame_commands [OF fr]
    have wf: "cb_wf (buffer (aesd_device ?s))" using fr by (simp add: drv_frame_def)
    have view: "log_after d0 (dlog c) = drv_spec ?s" using excl_view [OF inv p] pc by simp
    show ?thesis
    proof (cases "?g (drv_spec ?s)")
      case None
      then have "aesd_ioctl_locked (pfile p) t ?s = Inr (- EINVAL, pfile p)"
        using offset_at_eq [OF wf sz(2)] by (simp add: aesd_ioctl_locked_def sz(1))
      then show ?thesis
        by (intro advances_excl [OF inv p, of K "pfile p" "I_up (- EINVAL)" ?s "[Ev_seek t None]"])
          (use pc lc call fr view None in \<open>auto simp: step_simps errno_defs\<close>)
    next
      case (Some pos)
      have "pos < 10 * 2 ^ 48"
        using global_pos_less [OF Some] sz(3) by (simp add: spec_contents_def sum_list_map_length)
      then have u: "unat (of_nat pos :: loff_t) = pos" by (simp add: unat_of_nat)
      have "aesd_ioctl_locked (pfile p) t ?s = Inr (0, (pfile p)\<lparr>f_pos := of_nat pos\<rparr>)"
        using Some offset_at_eq [OF wf sz(2)] by (simp add: aesd_ioctl_locked_def sz(1))
      then show ?thesis
        by (intro advances_excl [OF inv p, of K "(pfile p)\<lparr>f_pos := of_nat pos\<rparr>" "I_up 0" ?s "[Ev_seek t (Some pos)]"])
          (use pc lc call fr view Some u in \<open>auto simp: step_simps\<close>)
    qed
  qed
qed

lemma advances_L:
  assumes inv: "sys_inv d0 c" and p: "procs c i = Some p" and K: "kernel_laws K"
    and pc: "ppc p = L_lock \<or> ppc p = L_size \<or> ppc p = L_up n \<or> ppc p = L_seek n"
  shows "advances d0 K c i p"
proof -
  let ?s = "dks c"
  note lc = sys_invD(5) [OF inv p]
  have "llseeks (pcall p)" using lc pc by auto
  then obtain offset whence where call: "pcall p = Call_llseek offset whence" by (rule llseeksE)
  from pc show ?thesis
  proof (elim disjE)
    assume pc: "ppc p = L_lock"
    show ?thesis
      by (rule advances_down_write [OF inv p K, of "Returned (- EINTR)" L_size])
        (use pc lc call in \<open>auto simp: step_simps pc_view_eta\<close>)
  next
    assume pc: "ppc p = L_up n"
    show ?thesis
      by (rule advances_up_write [OF inv p K, of "L_seek n"])
        (use pc lc call in \<open>auto simp: step_simps pc_view_eta\<close>)
  next
    assume pc: "ppc p = L_size"
    have fr: "drv_frame (others (procs c) i) ?s" using own_frame [OF inv p] pc by simp
    note sz = drv_frame_commands [OF fr]
    let ?n = "length (spec_contents (drv_spec ?s))"
    have wf: "cb_wf (buffer (aesd_device ?s))" using fr by (simp add: drv_frame_def)
    have "sum_list (cb_sizes (cb_entries (buffer (aesd_device ?s)))) = ?n"
      by (simp add: sz(1) spec_contents_def sum_list_map_length)
    then have b: "aesd_circular_buffer_bytes_size (buffer (aesd_device ?s)) = Inr (of_nat ?n)"
      using bytes_size_eq [OF wf] by simp
    have u: "unat (of_nat ?n :: size_t) = ?n" using sz(3) by (simp add: unat_of_nat)
    have view: "log_after d0 (dlog c) = drv_spec ?s" using excl_view [OF inv p] pc by simp
    show ?thesis
      by (rule advances_excl [OF inv p, of K "pfile p" "L_up (of_nat ?n)" ?s "[Ev_size ?n]"])
        (use pc lc call fr view b u sz(3) in \<open>auto simp: step_simps\<close>)
  next
    assume pc: "ppc p = L_seek n"
    obtain r pos where fs: "fixed_size_llseek K (f_pos (pfile p)) offset whence n = (r, pos)" by force
    show ?thesis
    proof (rule advances_silent)
      show "drv_next K (pcall p) (pfile p) (ppc p) ?s = Inr ((pfile p)\<lparr>f_pos := pos\<rparr>, Returned (sint r), ?s)"
        by (simp add: pc call fs step_simps)
      show "sys_inv d0 (c\<lparr>dks := ?s, procs := (procs c)(i \<mapsto> p\<lparr>pfile := (pfile p)\<lparr>f_pos := pos\<rparr>, ppc := Returned (sint r)\<rparr>)\<rparr>)"
        by (rule sys_move_quiet [OF inv p])
          (use own_frame [OF inv p] sys_invD(4) [OF inv p] pc lc call in auto)
    qed (simp_all add: pc call step_simps)
  qed
qed

subsection \<open>write\<close>

text \<open>A call may fill and free its own blocks at any time.\<close>

lemma frame_fill:
  assumes "drv_frame (insert kb X) s"
  shows "drv_frame (insert kb X) (s\<lparr>kmem := (kmem s)(kb \<mapsto> bs)\<rparr>)"
    "drv_spec (s\<lparr>kmem := (kmem s)(kb \<mapsto> bs)\<rparr>) = drv_spec s"
proof -
  have d: "set (map eptr (all_entries s)) \<inter> insert kb X = {}"
    "dom (kmem s) = set (map eptr (all_entries s)) \<union> insert kb X"
    using assms by (simp_all add: drv_frame_def)
  have "((kmem s)(kb \<mapsto> bs)) a = kmem s a" if "a \<in> set (map eptr (all_entries s))" for a
    using that d(1) by auto
  moreover have "dom ((kmem s)(kb \<mapsto> bs)) = set (map eptr (all_entries s)) \<union> insert kb X" using d(2) by auto
  ultimately show "drv_frame (insert kb X) (s\<lparr>kmem := (kmem s)(kb \<mapsto> bs)\<rparr>)"
    "drv_spec (s\<lparr>kmem := (kmem s)(kb \<mapsto> bs)\<rparr>) = drv_spec s"
    using drv_frame_heap [OF assms, of "(kmem s)(kb \<mapsto> bs)" "insert kb X"] d(1) by simp_all
qed

lemma frame_free:
  assumes "drv_frame (set_option q \<union> X) s" "set_option q \<inter> X = {}"
  defines "m \<equiv> (case q of None \<Rightarrow> kmem s | Some a \<Rightarrow> (kmem s)(a := None))"
  shows "drv_frame X (s\<lparr>kmem := m\<rparr>)" "drv_spec (s\<lparr>kmem := m\<rparr>) = drv_spec s" "set_option q \<subseteq> dom (kmem s)"
    "a \<in> X \<Longrightarrow> m a = kmem s a"
proof -
  have d: "set (map eptr (all_entries s)) \<inter> (set_option q \<union> X) = {}"
    "dom (kmem s) = set (map eptr (all_entries s)) \<union> (set_option q \<union> X)"
    using assms(1) by (simp_all add: drv_frame_def)
  then show "set_option q \<subseteq> dom (kmem s)" by blast
  have e: "m a = kmem s a" if "a \<notin> set_option q" for a using that by (cases q) (simp_all add: m_def)
  then show "a \<in> X \<Longrightarrow> m a = kmem s a" using assms(2) by blast
  have "dom m = dom (kmem s) - set_option q" by (cases q) (auto simp: m_def)
  then have "dom m = set (map eptr (all_entries s)) \<union> X" using d assms(2) by auto
  moreover have "m a = kmem s a" if "a \<in> set (map eptr (all_entries s))" for a using that d(1) e by blast
  ultimately show "drv_frame X (s\<lparr>kmem := m\<rparr>)" "drv_spec (s\<lparr>kmem := m\<rparr>) = drv_spec s"
    using drv_frame_heap [OF assms(1), of m X] d(1) by auto
qed

lemma fragmentE:
  assumes "fragment call bs"
  obtains buf count where "call = Call_write buf count" "count \<noteq> 0" "length bs = unat count" "length bs \<le> 2 ^ 48" "bs \<noteq> []"
proof (cases call)
  case (Call_write buf count)
  then have "count \<noteq> 0" "length bs = unat count" "length bs \<le> 2 ^ 48" using assms by simp_all
  moreover from this have "bs \<noteq> []" by (metis list.size(3) unat_eq_zero)
  ultimately show thesis using Call_write that by blast
qed (use assms in simp_all)

lemma left_early_sel [simp]:
  "kern_buf (left_early kb r) = kb" "is_locked (left_early kb r) = False" "retval (left_early kb r) = r"
  "evicted_entry (left_early kb r) = no_entry" "buffptr no_entry = NULL"
  by (simp_all add: left_early_def no_entry_def)

lemma advances_W_alloc:
  assumes inv: "sys_inv d0 c" and p: "procs c i = Some p" and pc: "ppc p = W_alloc" and K: "kernel_laws K"
  shows "advances d0 K c i p"
proof -
  from sys_invD(5) [OF inv p] pc obtain buf count where es: "events_of i (dlog c) = []"
    and call: "pcall p = Call_write buf count" "count \<noteq> 0" by auto
  have al: "alloc_laws K" using K by (simp add: kernel_laws_def)
  have pos: "0 < count" using call(2) by (simp add: word_neq_0_conv)
  have fr: "drv_frame (others (procs c) i) (dks c)" using own_frame(1) [OF inv p] pc by simp
  show ?thesis
  proof (rule kmalloc_cases [where h = "kmem (dks c)", OF al pos], goal_cases fail ok)
    case fail
    then show ?thesis
      by (intro advances_idle [OF inv p, of K "W_up (left_early NULL (- ENOMEM))"])
        (use pc es call in \<open>simp_all add: step_simps\<close>)
  next
    case (ok kb bs)
    let ?s = "(dks c)\<lparr>kmem := (kmem (dks c))(kb \<mapsto> bs)\<rparr>"
    have "others (procs c) i \<subseteq> dom (kmem (dks c))" using fr unfolding drv_frame_def by blast
    then have nk: "kb \<notin> others (procs c) i" using ok(2) by blast
    show ?thesis
    proof (rule advances_silent)
      show "drv_next K (pcall p) (pfile p) (ppc p) (dks c) = Inr (pfile p, W_copy kb, ?s)"
        using ok(1) by (simp add: pc call(1) step_simps)
      show "sys_inv d0 (c\<lparr>dks := ?s, procs := (procs c)(i \<mapsto> p\<lparr>pfile := pfile p, ppc := W_copy kb\<rparr>)\<rparr>)"
        by (rule sys_move_quiet [OF inv p])
          (use drv_frame_alloc [OF fr ok(2), of bs] sys_invD(4) [OF inv p] pc es call nk ok(3,4) in auto)
    qed (use nk in \<open>auto simp: pc call(1) step_simps\<close>)
  qed
qed

lemma advances_W_copy:
  assumes inv: "sys_inv d0 c" and p: "procs c i = Some p" and pc: "ppc p = W_copy kb" and K: "kernel_laws K"
  shows "advances d0 K c i p"
proof -
  from sys_invD(5) [OF inv p] pc obtain bs0 where es: "events_of i (dlog c) = []"
    and kb: "kmem (dks c) kb = Some bs0" "fragment (pcall p) bs0" by auto
  from kb(2) obtain buf count where call: "pcall p = Call_write buf count" "count \<noteq> 0" "length bs0 = unat count"
    "length bs0 \<le> 2 ^ 48" "bs0 \<noteq> []" by (rule fragmentE)
  have ul: "user_laws K" using K by (simp add: kernel_laws_def)
  obtain left data where cp: "copy_from_user K (usermem (dks c)) buf count = (left, data)" by force
  note len = copy_from_user_law(1) [OF ul cp]
  have fd: "fragment (pcall p) data" using call len by simp
  have ne: "data \<noteq> []" using len call(3,5) by auto
  let ?m = "(kmem (dks c))(kb \<mapsto> data)"
  let ?s = "(dks c)\<lparr>kmem := ?m\<rparr>"
  have st: "store_block (kmem (dks c)) kb 0 data = Inr ?m" using kb(1) len call(3) by (simp add: store_block_def)
  have "unat (count - 1) + 1 = unat count"
    using unat_minus_one [OF call(2)] call(3,5) by (cases "unat count") auto
  then have lb: "load_block ?m kb (unat (count - 1)) 1 = Inr [last data]"
    by (intro load_block_last) (use ne len in simp_all)
  have fr: "drv_frame (insert kb (others (procs c) i)) (dks c)" "kb \<notin> others (procs c) i"
    using own_frame [OF inv p] pc by simp_all
  let ?pc = "if left \<noteq> 0 then W_up (left_early (Some kb) (- EFAULT)) else W_lock kb (last data = newline)"
  show ?thesis
  proof (rule advances_silent)
    show "drv_next K (pcall p) (pfile p) (ppc p) (dks c) = Inr (pfile p, ?pc, ?s)"
      using st lb by (simp add: pc call(1) step_simps cp)
    show "sys_inv d0 (c\<lparr>dks := ?s, procs := (procs c)(i \<mapsto> p\<lparr>pfile := pfile p, ppc := ?pc\<rparr>)\<rparr>)"
      by (rule sys_move_quiet [OF inv p])
        (use frame_fill [OF fr(1), of data] fr(2) sys_invD(4) [OF inv p] pc es call fd in auto)
  qed (use fr(2) in \<open>auto simp: pc call(1) step_simps\<close>)
qed

lemma advances_W_lock:
  assumes inv: "sys_inv d0 c" and p: "procs c i = Some p" and pc: "ppc p = W_lock kb nt" and K: "kernel_laws K"
  shows "advances d0 K c i p"
proof -
  from sys_invD(5) [OF inv p] pc obtain bs where lc: "events_of i (dlog c) = []"
    "kmem (dks c) kb = Some bs" "fragment (pcall p) bs" "nt \<longleftrightarrow> last bs = newline" by auto
  from lc(3) obtain buf count where call: "pcall p = Call_write buf count" by (rule fragmentE)
  show ?thesis
    by (rule advances_down_write [OF inv p K, of "W_up (left_early (Some kb) (- EINTR))" "W_append kb nt"])
      (use pc lc call in \<open>auto simp: step_simps pc_view_eta\<close>)
qed

lemma advances_W_append:
  assumes inv: "sys_inv d0 c" and p: "procs c i = Some p" and pc: "ppc p = W_append kb nt" and K: "kernel_laws K"
  shows "advances d0 K c i p"
proof -
  let ?s = "dks c" and ?X = "others (procs c) i"
  let ?l = "(left_early (Some kb) (- ENOMEM))\<lparr>is_locked := True\<rparr>"
  from sys_invD(5) [OF inv p] pc obtain data where es: "events_of i (dlog c) = []"
    and kb: "kmem ?s kb = Some data" "fragment (pcall p) data" "nt \<longleftrightarrow> last data = newline" by auto
  from kb(2) obtain buf count where call: "pcall p = Call_write buf count" "length data = unat count"
    "length data \<le> 2 ^ 48" "data \<noteq> []" by (rule fragmentE)
  have al: "alloc_laws K" using K by (simp add: kernel_laws_def)
  have fr: "drv_frame (insert kb ?X) ?s" "kb \<notin> ?X" using own_frame [OF inv p] pc by simp_all
  have view: "log_after d0 (dlog c) = drv_spec ?s" using excl_view [OF inv p] pc by simp
  have l: "kern_buf ?l = Some kb" by simp
  show ?thesis
  proof (rule aesd_write_append_ok [OF al fr(1) kb(1) call(2,4,3) l fr(2)], goal_cases failed appended)
    case failed
    then show ?case
      by (intro advances_excl [OF inv p, of K "pfile p" "W_up (?l\<lparr>retval := - ENOMEM\<rparr>)" ?s "[]"])
        (use pc es call fr view in \<open>simp_all add: step_simps\<close>)
  next
    case (appended l' s')
    have l': "kern_buf l' = Some kb \<or> kern_buf l' = NULL" "is_locked l'" "evicted_entry l' = no_entry"
      using appended(2) by auto
    have "commit_spec nt (drv_spec s') = spec_write data (drv_spec ?s)"
      using appended(4) call(4) kb(3) by (simp add: commit_spec_def spec_write_def)
    moreover have "set_option (kern_buf l') \<inter> ?X = {}" using l'(1) fr(2) by auto
    moreover have "nt \<longrightarrow> last (pending (drv_spec s')) = newline" using appended(4) call(4) kb(3) by simp
    ultimately show ?case
      by (intro advances_excl [OF inv p, of K "pfile p" "W_commit nt l'" s' "[Ev_write data]"])
        (use appended pc es call kb(1,2) view l'(2,3) in \<open>simp_all add: step_simps same_rest_def\<close>)
  qed
qed

lemma advances_W_commit:
  assumes inv: "sys_inv d0 c" and p: "procs c i = Some p" and pc: "ppc p = W_commit nt l"
  shows "advances d0 K c i p"
proof -
  let ?s = "dks c" and ?X = "set_option (kern_buf l) \<union> others (procs c) i"
  from sys_invD(5) [OF inv p] pc obtain data where es: "events_of i (dlog c) = [Ev_write data]"
    and lc: "fragment (pcall p) data" "is_locked l" "evicted_entry l = no_entry"
    "buffptr (temp_entry (aesd_device ?s)) \<noteq> NULL" "nt \<Longrightarrow> last (pending (drv_spec ?s)) = newline" by auto
  from lc(1) obtain buf count where call: "pcall p = Call_write buf count" "length data = unat count"
    "length data \<le> 2 ^ 48" by (rule fragmentE)
  have fr: "drv_frame ?X ?s" "set_option (kern_buf l) \<inter> others (procs c) i = {}"
    using own_frame [OF inv p] pc by simp_all
  have view: "log_after d0 (dlog c) = commit_spec nt (drv_spec ?s)" using excl_view [OF inv p] pc by simp
  obtain l' s' where cm: "aesd_write_commit count nt l ?s = Inr (l', s')"
    "l' = l\<lparr>retval := sint count, evicted_entry := evicted_entry l'\<rparr>"
    "drv_frame (?X \<union> set_option (buffptr (evicted_entry l'))) s'"
    "?X \<inter> set_option (buffptr (evicted_entry l')) = {}" "same_rest ?s s'" "kmem s' = kmem ?s"
    "drv_spec s' = (if nt then \<lparr>commands = log_push 10 (pending (drv_spec ?s)) (commands (drv_spec ?s)),
       pending = []\<rparr> else drv_spec ?s)"
    by (rule aesd_write_commit_ok [OF fr(1) lc(4,5,3)])
  have l': "kern_buf l' = kern_buf l" "is_locked l'" "retval l' = int (unat count)"
    using lc(2) call(2,3) by (subst cm(2), simp add: sint_of_small)+
  show ?thesis
  proof (rule advances_excl [OF inv p, of K "pfile p" "W_up l'" s' "[]"])
    have "held (W_up l') \<union> others (procs c) i = ?X \<union> set_option (buffptr (evicted_entry l'))" using l'(1) by auto
    then show "drv_frame (held (W_up l') \<union> others (procs c) i) s'" using cm(3) by simp
    show "held (W_up l') \<inter> others (procs c) i = {}" using cm(4) fr(2) l'(1) by auto
    show "loc (pcall p) (pfile p) s' (events_of i (dlog c) @ []) (W_up l')"
      using es call l' cm(4) by auto
    show "log_after (log_after d0 (dlog c)) (map (Pair i) []) = pc_view (W_up l') (drv_spec s')"
      using view cm(7) by (simp add: commit_spec_def)
  qed (use pc call cm(1,5,6) l'(2) in \<open>simp_all add: step_simps same_rest_def\<close>)
qed

lemma advances_W_up:
  assumes inv: "sys_inv d0 c" and p: "procs c i = Some p" and pc: "ppc p = W_up l" and K: "kernel_laws K"
  shows "advances d0 K c i p"
proof -
  from sys_invD(5) [OF inv p] pc obtain buf count where call: "pcall p = Call_write buf count"
    and lc: "did (pcall p) (pfile p) (events_of i (dlog c)) (retval l)"
    "set_option (kern_buf l) \<inter> set_option (buffptr (evicted_entry l)) = {}" by auto
  show ?thesis
  proof (cases "is_locked l")
    case True
    then show ?thesis
      by (intro advances_up_write [OF inv p K, of "W_kfree_evicted l"])
        (use pc lc call in \<open>auto simp: step_simps pc_view_eta\<close>)
  next
    case False
    then show ?thesis
      by (intro advances_idle [OF inv p, of K "W_kfree_evicted l"])
        (use pc lc call in \<open>auto simp: step_simps\<close>)
  qed
qed

lemma advances_free:
  assumes inv: "sys_inv d0 c" and p: "procs c i = Some p" and K: "kernel_laws K"
    and h: "held (ppc p) = set_option q \<union> held pc'" "set_option q \<inter> held pc' = {}"
    and m: "mode_of (ppc p) = Out" "mode_of pc' = Out"
    and n: "\<And>m'. kfree_opt K (kmem (dks c)) q = Inr m' \<Longrightarrow>
      drv_next K (pcall p) (pfile p) (ppc p) (dks c) = Inr (pfile p, pc', (dks c)\<lparr>kmem := m'\<rparr>)"
    and e: "\<And>s'. drv_event (pcall p) (pfile p) (ppc p) (dks c) (pfile p) pc' s' = []"
    and lc: "\<And>s'. loc (pcall p) (pfile p) s' (events_of i (dlog c)) pc'"
  shows "advances d0 K c i p"
proof -
  let ?m = "case q of None \<Rightarrow> kmem (dks c) | Some a \<Rightarrow> (kmem (dks c))(a := None)"
  let ?s = "(dks c)\<lparr>kmem := ?m\<rparr>" and ?X = "held pc' \<union> others (procs c) i"
  have "drv_frame (set_option q \<union> ?X) (dks c)" "set_option q \<inter> ?X = {}" "held pc' \<inter> others (procs c) i = {}"
    using own_frame [OF inv p] h by (auto simp: Un_assoc)
  note f = frame_free [OF this(1,2)] this(3)
  have "alloc_laws K" using K by (simp add: kernel_laws_def)
  note kf = kfree_opt_held [OF this f(3)]
  show ?thesis
  proof (rule advances_silent [OF n [OF kf] e], rule sys_move_quiet [OF inv p m])
    show "kmem ?s a = kmem (dks c) a" if "a \<in> others (procs c) i" for a using f(4) [of a] that by simp
  qed (use f sys_invD(4) [OF inv p] lc in simp_all)
qed

lemma advances_W_kfree:
  assumes inv: "sys_inv d0 c" and p: "procs c i = Some p" and K: "kernel_laws K"
    and pc: "ppc p = W_kfree_evicted l \<or> ppc p = W_kfree_buf l"
  shows "advances d0 K c i p"
proof -
  from sys_invD(5) [OF inv p] pc obtain buf count where call: "pcall p = Call_write buf count"
    and lc: "did (pcall p) (pfile p) (events_of i (dlog c)) (retval l)" by auto
  from pc show ?thesis
  proof
    assume pc: "ppc p = W_kfree_evicted l"
    show ?thesis
      by (rule advances_free [OF inv p K, of "buffptr (evicted_entry l)" "W_kfree_buf l"])
        (use sys_invD(5) [OF inv p] pc lc call in \<open>auto simp: step_simps\<close>)
  next
    assume pc: "ppc p = W_kfree_buf l"
    show ?thesis
      by (rule advances_free [OF inv p K, of "kern_buf l" "Returned (retval l)"])
        (use pc lc call in \<open>auto simp: step_simps\<close>)
  qed
qed

section \<open>Every reachable state\<close>

lemma sys_advances:
  assumes inv: "sys_inv d0 c" and p: "procs c i = Some p" and K: "kernel_laws K" and r: "\<not> returned (ppc p)"
  shows "advances d0 K c i p"
proof (cases "ppc p")
  case Begin
  with inv p show ?thesis by (rule advances_Begin)
next
  case (R_copy x off)
  with inv p show ?thesis using K by (rule advances_R_copy)
next
  case R_lock
  with inv p show ?thesis using K by (rule advances_R_lock)
next
  case R_find
  with inv p show ?thesis by (rule advances_R_find)
next
  case (R_up v)
  with inv p show ?thesis using K by (rule advances_R_up)
next
  case W_alloc
  with inv p show ?thesis using K by (rule advances_W_alloc)
next
  case (W_copy kb)
  with inv p show ?thesis using K by (rule advances_W_copy)
next
  case (W_lock kb nt)
  with inv p show ?thesis using K by (rule advances_W_lock)
next
  case (W_append kb nt)
  with inv p show ?thesis using K by (rule advances_W_append)
next
  case (W_commit nt l)
  with inv p show ?thesis by (rule advances_W_commit)
next
  case (W_up l)
  with inv p show ?thesis using K by (rule advances_W_up)
qed (use r advances_W_kfree [OF inv p K] advances_I [OF inv p K] advances_L [OF inv p K] in simp_all)

lemma sys_inv_start:
  assumes "drv_inv s" "lock (aesd_device s) = \<lparr>readers = 0, writer = False\<rparr>"
  shows "sys_inv (drv_spec s) (dsys_start s)"
  using assms
  by (simp add: sys_inv_def dsys_start_def drv_inv_def holds_def modes_def lock_agrees_def view_ok_def events_of_def)

lemma sys_inv_invoke:
  assumes inv: "sys_inv d0 c" and i: "procs c i = None" and f: "private_data f \<noteq> Null_Dev"
  shows "sys_inv d0 (c\<lparr>procs := (procs c)(i \<mapsto> \<lparr>pcall = call, pfile = f, ppc = Begin\<rparr>)\<rparr>)"
proof -
  note v = sys_invD [OF inv]
  let ?p = "\<lparr>pcall = call, pfile = f, ppc = Begin\<rparr>"
  have h: "holds ((procs c)(i \<mapsto> ?p)) = holds (procs c)" using i by (auto simp: holds_def fun_eq_iff)
  have m: "modes ((procs c)(i \<mapsto> ?p)) = modes (procs c)" using i by (auto simp: modes_def fun_eq_iff)
  have "view_ok d0 (c\<lparr>procs := (procs c)(i \<mapsto> ?p)\<rparr>)" using v(8) i m unfolding view_ok_def by auto
  then show ?thesis using v f i unfolding sys_inv_def by (auto simp: h m split: if_splits)
qed

lemma sys_inv_user:
  assumes "sys_inv d0 c"
  shows "sys_inv d0 (c\<lparr>dks := (dks c)\<lparr>usermem := um\<rparr>\<rparr>)"
proof -
  have "loc call f ((dks c)\<lparr>usermem := um\<rparr>) es pc" if "loc call f (dks c) es pc" for call f es pc
    by (rule loc_keep [OF that]) (simp_all add: same_device_def)
  then show ?thesis using assms unfolding sys_inv_def view_ok_def by simp
qed

lemma dsys_step_inv: "dsys_step c c' \<Longrightarrow> sys_inv d0 c \<Longrightarrow> sys_inv d0 c'"
proof (induction rule: dsys_step.induct)
  case (invoke c i f call)
  then show ?case by (simp add: sys_inv_invoke)
next
  case (advance c i p K f' pc' s')
  with sys_advances [OF advance(5,1,3,2)] show ?case by (simp add: advances_def)
next
  case (user c um)
  then show ?case by (rule sys_inv_user)
qed

lemma dsys_reach_inv:
  assumes "dsys_reach s c" "drv_inv s" "lock (aesd_device s) = \<lparr>readers = 0, writer = False\<rparr>"
  shows "sys_inv (drv_spec s) c"
  using assms(1) unfolding dsys_reach_def
proof (induction rule: rtranclp_induct)
  case base
  show ?case using assms(2,3) by (rule sys_inv_start)
qed (rule dsys_step_inv)

text \<open>An event is recorded only while its call is in progress, and stays where it is.\<close>

lemma dsys_step_log:
  "dsys_step c c' \<Longrightarrow> \<exists>h. dlog c' = dlog c @ h \<and> (\<forall>(i, e) \<in> set h. \<exists>p. procs c i = Some p \<and> \<not> returned (ppc p))"
  by (erule dsys_step.cases) auto

text \<open>The pieces a call has left at most.\<close>

fun rank :: "dpc \<Rightarrow> nat" where
  "rank Begin = 9"
| "rank R_lock = 4" | "rank R_find = 3" | "rank (R_copy i off) = 2" | "rank (R_up r) = 1"
| "rank W_alloc = 8" | "rank (W_copy kb) = 7" | "rank (W_lock kb nt) = 6" | "rank (W_append kb nt) = 5"
| "rank (W_commit nt l) = 4" | "rank (W_up l) = 3" | "rank (W_kfree_evicted l) = 2" | "rank (W_kfree_buf l) = 1"
| "rank (I_lock t) = 3" | "rank (I_seek t) = 2" | "rank (I_up r) = 1"
| "rank L_lock = 4" | "rank L_size = 3" | "rank (L_up n) = 2" | "rank (L_seek n) = 1"
| "rank (Returned r) = 0"

lemma rank_decreases:
  assumes "drv_next K call f pc s = Inr (f', pc', s')" "loc call f s es pc" "\<not> returned pc"
  shows "rank pc' < rank pc"
proof (cases pc)
  case Begin
  then show ?thesis
    using assms(1)
    by (cases call) (auto simp: drv_next_def begin_call_def res_iff c_assert_def split: if_splits prod.splits)
qed (use assms in \<open>cases call; auto simp: step_simps res_iff split: if_splits prod.splits option.splits\<close>)+

text \<open>Whether the next piece of a call waits for the semaphore.\<close>

fun may_run :: "rw_semaphore \<Rightarrow> dpc \<Rightarrow> bool" where
  "may_run l R_lock \<longleftrightarrow> \<not> writer l"
| "may_run l (W_lock kb nt) \<longleftrightarrow> \<not> writer l \<and> readers l = 0"
| "may_run l (I_lock t) \<longleftrightarrow> \<not> writer l \<and> readers l = 0"
| "may_run l L_lock \<longleftrightarrow> \<not> writer l \<and> readers l = 0"
| "may_run l pc \<longleftrightarrow> True"

lemma holder_runs: "mode_of pc \<noteq> Out \<Longrightarrow> may_run l pc \<and> \<not> returned pc"
  by (cases pc) simp_all

lemma free_runs: "\<not> writer l \<Longrightarrow> readers l = 0 \<Longrightarrow> may_run l pc"
  by (cases pc) simp_all

lemma some_call_runs:
  assumes inv: "sys_inv d0 c" and p: "procs c i = Some p" "\<not> returned (ppc p)"
  shows "\<exists>j q. procs c j = Some q \<and> \<not> returned (ppc q) \<and> may_run (lock (aesd_device (dks c))) (ppc q)"
proof (cases "\<exists>j. modes (procs c) j \<noteq> Out")
  case True
  then obtain j q where "procs c j = Some q" "mode_of (ppc q) \<noteq> Out" by (auto simp: modes_def split: option.splits)
  then show ?thesis using holder_runs by blast
next
  case False
  then have "\<not> writer (lock (aesd_device (dks c)))" "readers (lock (aesd_device (dks c))) = 0"
    using sys_invD(3) [OF inv] by (simp_all add: lock_agrees_def)
  then show ?thesis using p free_runs by blast
qed

section \<open>What a call has done when it returns\<close>

text \<open>
  What \<open>llseek\<close> gives from position \<open>pos\<close> on contents of \<open>m\<close> bytes: the position asked for if it
  lies in the contents, else an error that leaves the position alone.
\<close>

definition llseek_result :: "loff_t \<Rightarrow> loff_t \<Rightarrow> int \<Rightarrow> nat \<Rightarrow> int \<Rightarrow> loff_t \<Rightarrow> bool" where
  "llseek_result pos offset whence m r pos' \<longleftrightarrow>
     (if whence = 1 \<and> offset = 0 then r = sint pos \<and> pos' = pos
      else (if 0 \<le> r then sint pos' = r \<and> r \<le> int m else pos' = pos) \<and>
        (whence \<in> {0, 1, 2} \<longrightarrow>
          (let target = (if whence = 0 then 0 else if whence = 1 then sint pos else int m) + sint offset in
           if 0 \<le> target \<and> target \<le> int m then r = target else r < 0)))"

text \<open>
  The events of a call that returned \<open>r\<close> and left its file as \<open>f\<close>: they name the position the file
  had and the bytes the program gave, and agree with the result and the new position.
\<close>

fun outcome :: "dnote \<Rightarrow> dcall \<Rightarrow> kfile \<Rightarrow> devent list \<Rightarrow> int \<Rightarrow> bool" where
  "outcome n (Call_read buf count) f es r \<longleftrightarrow>
     (\<exists>bs. es = [Ev_read (unat (f_pos (n_file n))) (unat count) bs] \<and> r = int (length bs) \<and>
        f = (n_file n)\<lparr>f_pos := f_pos f\<rparr> \<and> unat (f_pos f) = unat (f_pos (n_file n)) + length bs) \<or>
     es = [] \<and> f = n_file n \<and> (if count = 0 then r = 0 else r \<in> {- EFAULT, - ERESTARTSYS})"
| "outcome n (Call_write buf count) f es r \<longleftrightarrow>
     f = n_file n \<and>
     (es = [Ev_write (n_data n)] \<and> length (n_data n) = unat count \<and> r = int (unat count) \<or>
      es = [] \<and> (if count = 0 then r = 0 else r \<in> {- ENOMEM, - EFAULT, - EINTR}))"
| "outcome n (Call_ioctl cmd arg) f es r \<longleftrightarrow>
     (if cmd = AESDCHAR_IOCSEEKTO then
        es = [Ev_seek (seekto_of_bytes (n_data n)) (Some (unat (f_pos f)))] \<and> r = 0 \<and>
          f = (n_file n)\<lparr>f_pos := f_pos f\<rparr> \<or>
        es = [Ev_seek (seekto_of_bytes (n_data n)) None] \<and> r = - EINVAL \<and> f = n_file n \<or>
        es = [] \<and> r \<in> {- EFAULT, - EINTR} \<and> f = n_file n
      else es = [] \<and> r = - EINVAL \<and> f = n_file n)"
| "outcome n (Call_llseek offset whence) f es r \<longleftrightarrow>
     (\<exists>m. es = [Ev_size m] \<and> f = (n_file n)\<lparr>f_pos := f_pos f\<rparr> \<and>
        (0 \<le> sint (f_pos (n_file n)) \<longrightarrow> llseek_result (f_pos (n_file n)) offset whence m r (f_pos f))) \<or>
     es = [] \<and> r = - EINTR \<and> f = n_file n"

text \<open>The same while the call is under way.\<close>

fun noted :: "dnote \<Rightarrow> dcall \<Rightarrow> kfile \<Rightarrow> kstate \<Rightarrow> devent list \<Rightarrow> dpc \<Rightarrow> bool" where
  "noted n call f s es R_lock \<longleftrightarrow> f = n_file n \<and> (\<forall>buf. call \<noteq> Call_read buf 0)"
| "noted n call f s es R_find \<longleftrightarrow> f = n_file n \<and> (\<forall>buf. call \<noteq> Call_read buf 0)"
| "noted n call f s es (R_copy i off) \<longleftrightarrow> f = n_file n \<and> (\<forall>buf. call \<noteq> Call_read buf 0)"
| "noted n call f s es (R_up r) \<longleftrightarrow> outcome n call f es r"
| "noted n call f s es (W_lock kb nt) \<longleftrightarrow> f = n_file n \<and> kmem s kb = Some (n_data n)"
| "noted n call f s es (W_append kb nt) \<longleftrightarrow> f = n_file n \<and> kmem s kb = Some (n_data n)"
| "noted n call f s es (W_commit nt l) \<longleftrightarrow> f = n_file n \<and> es = [Ev_write (n_data n)]"
| "noted n call f s es (W_up l) \<longleftrightarrow> outcome n call f es (retval l)"
| "noted n call f s es (W_kfree_evicted l) \<longleftrightarrow> outcome n call f es (retval l)"
| "noted n call f s es (W_kfree_buf l) \<longleftrightarrow> outcome n call f es (retval l)"
| "noted n call f s es (I_lock t) \<longleftrightarrow> f = n_file n \<and> t = seekto_of_bytes (n_data n)"
| "noted n call f s es (I_seek t) \<longleftrightarrow> f = n_file n \<and> t = seekto_of_bytes (n_data n)"
| "noted n call f s es (I_up r) \<longleftrightarrow> outcome n call f es r"
| "noted n call f s es (Returned r) \<longleftrightarrow> outcome n call f es r"
| "noted n call f s es pc \<longleftrightarrow> f = n_file n"

text \<open>It depends only on the blocks the call holds.\<close>

lemma noted_keep:
  "noted n call f s es pc \<Longrightarrow> (\<And>a. a \<in> held pc \<Longrightarrow> kmem s' a = kmem s a) \<Longrightarrow> noted n call f s' es pc"
  by (cases pc) auto

lemma umem_holds_user_bytes: "umem_holds um a bs \<Longrightarrow> user_bytes um a (length bs) = bs"
  by (rule nth_equalityI) (simp_all add: user_bytes_def umem_holds_def)

lemma copied_bytes:
  assumes "kernel_laws K" "copy_from_user K um a n = (0, bs)"
  shows "user_bytes um a (unat n) = bs"
  using copy_from_user_law [of K um a n 0 bs] assms umem_holds_user_bytes [of um a bs] by (simp add: kernel_laws_def)

lemma llseek_result_law:
  assumes "kernel_laws K" "fixed_size_llseek K pos offset whence m = (w, pos')" "0 \<le> sint pos" "unat m < 2 ^ 63"
  shows "llseek_result pos offset whence (unat m) (sint w) pos'"
proof -
  have "int (unat m) < int (2 ^ 63)" using assms(4) by (simp only: of_nat_less_iff)
  then have "sint m = int (unat m)" using sint_word_of_int [of "int (unat m)"] by simp
  then show ?thesis
    using fixed_size_llseek_law [of K pos m offset whence w pos'] assms(1-3)
    by (auto simp: kernel_laws_def llseek_result_def seek_base_def Let_def split: if_splits)
qed

lemma length_user_bytes [simp]: "length (user_bytes um a n) = n"
  by (simp add: user_bytes_def)

text \<open>Every piece keeps the notes true: the ones that copy or take effect first.\<close>

lemma noted_R_copy:
  assumes inv: "sys_inv d0 c" and p: "procs c i = Some p" and K: "kernel_laws K" and pc: "ppc p = R_copy x off"
    and n: "drv_next K (pcall p) (pfile p) (ppc p) (dks c) = Inr (f', pc', s')" and nt: "pfile p = n_file n0" "\<forall>buf. pcall p \<noteq> Call_read buf 0"
  shows "noted n0 (pcall p) f' s'
    (events_of i (dlog c) @ drv_event (pcall p) (pfile p) (ppc p) (dks c) f' pc' s') pc'"
proof -
  let ?pos = "f_pos (pfile p)" and ?s = "dks c"
  from sys_invD(5) [OF inv p] pc obtain k j where lc: "events_of i (dlog c) = []" "reads (pcall p)"
    and kj: "locate (unat ?pos) (map length (commands (drv_spec ?s))) = Some (k, j)"
    "x = cb_slot (buffer (aesd_device ?s)) k" "off = of_nat j" by auto
  obtain buf count where call: "pcall p = Call_read buf count" using lc(2) by (blast elim: readsE)
  have ul: "user_laws K" using K by (simp add: kernel_laws_def)
  let ?bs = "spec_read (unat ?pos) (unat count) (drv_spec ?s)"
  from aesd_read_copy_ok [OF ul own_frame(1) [OF inv p] kj(1), of buf count] kj(2,3) obtain r pos um where
    run: "aesd_read_copy K buf count ?pos x off ?s = Inr (r, pos, ?s\<lparr>usermem := um\<rparr>)"
    and res: "read_result (usermem ?s) buf count ?pos (drv_spec ?s) r pos um" "r \<noteq> - ERESTARTSYS" by metis
  have e: "f' = (pfile p)\<lparr>f_pos := pos\<rparr>" "pc' = R_up r" "s' = ?s\<lparr>usermem := um\<rparr>"
    using n run by (simp_all add: pc call step_simps)
  consider (ok) "r = int (length ?bs)" "unat pos = unat ?pos + length ?bs" "um = write_umem (usermem ?s) buf ?bs"
    | (fault) "r = - EFAULT" "pos = ?pos" "count \<noteq> 0"
    using res nt(2) call by (auto simp: read_result_def Let_def)
  then show ?thesis
  proof cases
    case ok
    then have "user_bytes um buf (nat r) = ?bs" by (simp add: user_bytes_write)
    then show ?thesis using ok nt(1) by (simp add: e lc(1) call pc step_simps)
  next
    case fault
    then show ?thesis using nt(1) by (simp add: e lc(1) call pc step_simps errno_defs)
  qed
qed

lemma noted_R_rest:
  assumes "reads call" "pc = R_lock \<or> pc = R_up r"
    and n: "drv_next K call f pc s = Inr (f', pc', s')" and nt: "noted n0 call f s es pc" and es: "loc call f s es pc"
  shows "noted n0 call f' s' (es @ drv_event call f pc s f' pc' s') pc'"
proof -
  obtain buf count where call: "call = Call_read buf count" using assms(1) by (rule readsE)
  show ?thesis
    using assms(2) n nt es by (auto simp: call step_simps split: prod.splits if_splits)
qed

lemma noted_R_find:
  assumes inv: "sys_inv d0 c" and p: "procs c i = Some p" and pc: "ppc p = R_find"
    and n: "drv_next K (pcall p) (pfile p) (ppc p) (dks c) = Inr (f', pc', s')"
    and nt: "pfile p = n_file n0" "\<forall>buf. pcall p \<noteq> Call_read buf 0"
  shows "noted n0 (pcall p) f' s'
    (events_of i (dlog c) @ drv_event (pcall p) (pfile p) (ppc p) (dks c) f' pc' s') pc'"
proof -
  have lc: "events_of i (dlog c) = []" "reads (pcall p)" using sys_invD(5) [OF inv p] pc by simp_all
  then obtain buf count where call: "pcall p = Call_read buf count" by (blast elim: readsE)
  note find = aesd_read_find_ok [OF own_frame(1) [OF inv p], of "f_pos (pfile p)"]
  show ?thesis
  proof (cases "locate (unat (f_pos (pfile p))) (map length (commands (drv_spec (dks c))))")
    case None
    then have "f' = pfile p" "pc' = R_up 0" "s' = dks c" using n find by (simp_all add: pc call step_simps)
    then show ?thesis using lc(1) nt(1) by (simp add: call step_simps user_bytes_def)
  next
    case (Some kj)
    then obtain x off where "f' = pfile p" "pc' = R_copy x off"
      using n find by (cases kj) (auto simp: pc call step_simps)
    then show ?thesis using nt by simp
  qed
qed

text \<open>
  All others. That the result of a write belongs to its event is part of what a call knows.
\<close>

lemma noted_Begin:
  assumes K: "kernel_laws K" and n: "begin_call K call f s = Inr pc'" and f: "f = n_file n0"
  shows "noted (note_next call Begin (usermem s) n0) call f s [] pc'"
proof (cases call)
  case (Call_ioctl cmd arg)
  show ?thesis
  proof (cases "cmd = AESDCHAR_IOCSEEKTO")
    case True
    obtain left bs where cp: "copy_from_user K (usermem s) arg (of_nat sizeof_seekto) = (left, bs)" by force
    have "user_bytes (usermem s) arg sizeof_seekto = bs" if "left = 0"
      using copied_bytes [OF K] cp that by (fastforce simp: sizeof_seekto_def)
    then show ?thesis
      using n f Call_ioctl True cp
      by (auto simp: begin_call_def c_assert_Inr_iff note_next_def split: if_splits)
  qed (use n f Call_ioctl in \<open>auto simp: begin_call_def c_assert_Inr_iff note_next_def\<close>)
qed (use n f in \<open>auto simp: begin_call_def c_assert_Inr_iff note_next_def split: if_splits\<close>)

lemma noted_W:
  assumes K: "kernel_laws K" and call: "call = Call_write buf count" "count \<noteq> 0"
    and n: "write_step K buf count pc s = Inr (pc', s')" and nt: "noted n0 call f s es pc" 
    and lc: "loc call f s es pc" "loc call f s' (es @ drv_event call f pc s f pc' s') pc'"
  shows "noted (note_next call pc (usermem s) n0) call f s' (es @ drv_event call f pc s f pc' s') pc'"
proof (cases pc)
  case (W_copy kb)
  obtain left bs where cp: "copy_from_user K (usermem s) buf count = (left, bs)" by force
  have "user_bytes (usermem s) buf (unat count) = bs" if "left = 0" using copied_bytes [OF K] cp that by blast
  then show ?thesis
    using n nt lc W_copy cp call
    by (auto simp: write_step_def drv_event_def res_bind_Inr_iff note_next_def store_block_def split: if_splits option.splits)
next
  case (W_append kb nl)
  then show ?thesis
    using n nt lc call
    by (auto simp: write_step_def drv_event_def res_bind_Inr_iff note_next_def split: if_splits)
qed (use n nt lc call in \<open>auto simp: write_step_def drv_event_def res_bind_Inr_iff note_next_def split: if_splits option.splits prod.splits\<close>)

lemma noted_IL:
  assumes K: "kernel_laws K" and call: "seeks call \<or> llseeks call" "pc \<noteq> Begin"
    and n: "drv_next K call f pc s = Inr (f', pc', s')" and nt: "noted n0 call f s es pc"
    and lc: "loc call f s es pc" "loc call f' s' (es @ drv_event call f pc s f' pc' s') pc'"
    and r: "\<not> returned pc"
  shows "noted n0 call f' s' (es @ drv_event call f pc s f' pc' s') pc'"
proof (cases call)
  case (Call_ioctl cmd arg)
  show ?thesis
    using n nt lc call Call_ioctl r
    by (cases pc) (auto simp: drv_next_def seek_step_def drv_event_def res_bind_Inr_iff aesd_ioctl_locked_def errno_defs
      split: if_splits prod.splits)
next
  case (Call_llseek offset whence)
  show ?thesis
    using n nt lc call Call_llseek r llseek_result_law [OF K]
    by (cases pc) (auto simp: drv_next_def llseek_step_def drv_event_def res_bind_Inr_iff split: if_splits prod.splits)
qed (use call in simp_all)

lemma noted_step:
  assumes inv: "sys_inv d0 c" and p: "procs c i = Some p" and K: "kernel_laws K" and r: "\<not> returned (ppc p)"
    and n: "drv_next K (pcall p) (pfile p) (ppc p) (dks c) = Inr (f', pc', s')"
    and nt: "noted (dnotes c i) (pcall p) (pfile p) (dks c) (events_of i (dlog c)) (ppc p)"
    and lc': "loc (pcall p) f' s' (events_of i (dlog c) @ drv_event (pcall p) (pfile p) (ppc p) (dks c) f' pc' s') pc'"
  shows "noted (note_next (pcall p) (ppc p) (usermem (dks c)) (dnotes c i)) (pcall p) f' s'
    (events_of i (dlog c) @ drv_event (pcall p) (pfile p) (ppc p) (dks c) f' pc' s') pc'"
proof -
  note lc = sys_invD(5) [OF inv p]
  consider (b) "ppc p = Begin" | (w) buf count where "pcall p = Call_write buf count" "count \<noteq> 0" "ppc p \<noteq> Begin"
    | (z) buf where "pcall p = Call_write buf 0" "ppc p \<noteq> Begin"
    | (r) "reads (pcall p)" "ppc p \<noteq> Begin" | (il) "seeks (pcall p) \<or> llseeks (pcall p)" "ppc p \<noteq> Begin"
    | (e) cmd arg where "pcall p = Call_ioctl cmd arg" "\<not> seeks (pcall p)" "ppc p \<noteq> Begin"
    by (cases "pcall p") auto
  then show ?thesis
  proof cases
    case b
    then show ?thesis
      using noted_Begin [OF K, of "pcall p" "pfile p" "dks c" pc' "dnotes c i"] n lc nt
      by (auto simp: drv_next_def res_bind_Inr_iff drv_event_def errno_defs split: dcall.splits dpc.splits)
  next
    case (w buf count)
    then have "write_step K buf count (ppc p) (dks c) = Inr (pc', s')" "f' = pfile p"
      using n by (auto simp: drv_next_def res_bind_Inr_iff)
    then show ?thesis using noted_W [OF K w(1,2)] nt lc lc' by simp
  next
    case (z buf)
    then show ?thesis using lc nt r n by (cases "ppc p") (auto simp: step_simps res_bind_Inr_iff note_next_def)
  next
    case r
    then have nn: "note_next (pcall p) (ppc p) (usermem (dks c)) (dnotes c i) = dnotes c i"
      by (cases "pcall p") (auto simp: note_next_def)
    show ?thesis
    proof (cases "ppc p")
      case R_find
      then show ?thesis using noted_R_find [OF inv p R_find n] nt nn by simp
    next
      case (R_copy x off)
      then show ?thesis using noted_R_copy [OF inv p K R_copy n] nt nn by simp
    next
      case R_lock
      then show ?thesis using noted_R_rest [OF r(1) _ n nt lc] nn by simp
    next
      case (R_up v)
      then show ?thesis using noted_R_rest [OF r(1) _ n nt lc] nn by simp
    qed (use r lc \<open>\<not> returned (ppc p)\<close> in \<open>cases "pcall p"; auto elim: fragmentE\<close>)+
  next
    case il
    then have "note_next (pcall p) (ppc p) (usermem (dks c)) (dnotes c i) = dnotes c i"
      by (cases "pcall p"; cases "ppc p") (auto simp: note_next_def)
    then show ?thesis using noted_IL [OF K il n nt lc lc' r] by simp
  next
    case e
    then show ?thesis using lc r by (cases "ppc p") auto
  qed
qed

definition sys_noted :: "dsys \<Rightarrow> bool" where
  "sys_noted c \<longleftrightarrow> (\<forall>i p. procs c i = Some p \<longrightarrow>
     noted (dnotes c i) (pcall p) (pfile p) (dks c) (events_of i (dlog c)) (ppc p))"

lemma sys_noted_step: "dsys_step c c' \<Longrightarrow> sys_inv d0 c \<Longrightarrow> sys_noted c \<Longrightarrow> sys_noted c'"
proof (induction rule: dsys_step.induct)
  case (invoke c i f call)
  then show ?case by (auto simp: sys_noted_def)
next
  case (user c um)
  then show ?case unfolding sys_noted_def by (auto intro: noted_keep [where s = "dks c"])
next
  case (advance c i p K f' pc' s')
  let ?es = "drv_event (pcall p) (pfile p) (ppc p) (dks c) f' pc' s'"
  note inv = advance(5) and nt = advance(6) [unfolded sys_noted_def, rule_format]
  from sys_advances [OF inv advance(1,3,2)] advance(4)
  have a: "sys_inv d0 (c\<lparr>dks := s', procs := (procs c)(i \<mapsto> p\<lparr>pfile := f', ppc := pc'\<rparr>), dlog := dlog c @ map (Pair i) ?es\<rparr>)"
    "\<And>a. a \<in> others (procs c) i \<Longrightarrow> kmem s' a = kmem (dks c) a" by (auto simp: advances_def)
  from sys_invD(5) [OF a(1), of i "p\<lparr>pfile := f', ppc := pc'\<rparr>"]
  have lc': "loc (pcall p) f' s' (events_of i (dlog c) @ ?es) pc'" by (simp add: events_of_append events_of_pairs)
  note own = noted_step [OF inv advance(1,3,2,4) nt [OF advance(1)] lc']
  have "noted (dnotes c j) (pcall q) (pfile q) s' (events_of j (dlog c)) (ppc q)" if "j \<noteq> i" "procs c j = Some q" for j q
    using that by (intro noted_keep [OF nt [OF that(2)]] a(2)) (auto simp: others_def holds_def intro!: bexI [of _ j])
  with own show ?case by (auto simp: sys_noted_def events_of_append events_of_pairs)
qed

lemma dsys_reach_noted:
  assumes "dsys_reach s c" "drv_inv s" "lock (aesd_device s) = \<lparr>readers = 0, writer = False\<rparr>"
  shows "sys_noted c"
proof -
  have "sys_inv (drv_spec s) c \<and> sys_noted c"
    using assms(1) unfolding dsys_reach_def
  proof (induction rule: rtranclp_induct)
    case base
    then show ?case using sys_inv_start [OF assms(2,3)] by (simp add: sys_noted_def dsys_start_def)
  next
    case (step c c')
    then show ?case using dsys_step_inv sys_noted_step by blast
  qed
  then show ?thesis ..
qed

section \<open>Properties\<close>

text \<open>A call that is not interrupted runs to its end as its handler does.\<close>

lemma alone_run:
  assumes "kernel_laws K" "procs c i = Some p"
    "drv_alone K n (pcall p) (pfile p) (ppc p) (dks c) = Inr (r, f', s')"
  shows "\<exists>c'. dsys_step\<^sup>*\<^sup>* c c' \<and> dks c' = s' \<and> procs c' = (procs c)(i \<mapsto> p\<lparr>pfile := f', ppc := Returned r\<rparr>)"
  using assms(2,3)
proof (induction n arbitrary: c p)
  case 0
  then have "ppc p = Returned r" "pfile p = f'" "dks c = s'" by (auto split: dpc.splits)
  then show ?case using 0(1) by (intro exI [of _ c]) (auto simp: fun_upd_idem)
next
  case (Suc n)
  show ?case
  proof (cases "returned (ppc p)")
    case True
    then have "ppc p = Returned r" "pfile p = f'" "dks c = s'" using Suc(3) by (cases "ppc p"; simp)+
    then show ?thesis using Suc(2) by (intro exI [of _ c]) (auto simp: fun_upd_idem)
  next
    case False
    with Suc(3) obtain f1 pc1 s1 where n: "drv_next K (pcall p) (pfile p) (ppc p) (dks c) = Inr (f1, pc1, s1)"
      "drv_alone K n (pcall p) f1 pc1 s1 = Inr (r, f', s')" by (auto simp: alone_step res_iff simp del: drv_alone.simps)
    let ?p = "p\<lparr>pfile := f1, ppc := pc1\<rparr>"
    obtain c1 where c1: "dsys_step c c1" "procs c1 = (procs c)(i \<mapsto> ?p)" "dks c1 = s1"
      using advance [OF Suc(2) False assms(1) n(1)] by force
    then have "procs c1 i = Some ?p" "drv_alone K n (pcall ?p) (pfile ?p) (ppc ?p) (dks c1) = Inr (r, f', s')"
      using n(2) by simp_all
    from Suc(1) [OF this] obtain c' where "dsys_step\<^sup>*\<^sup>* c1 c'" "dks c' = s'"
      "procs c' = (procs c1)(i \<mapsto> ?p\<lparr>pfile := f', ppc := Returned r\<rparr>)" by blast
    then show ?thesis
      using c1(1,2) by (intro exI [of _ c']) (simp add: converse_rtranclp_into_rtranclp [of dsys_step c c1])
  qed
qed

text \<open>The run used in the examples: a write of two bytes, from its call to its return.\<close>

lemma example_run:
  "\<exists>c f. dsys_reach example_state c \<and>
     procs c = [1 \<mapsto> \<lparr>pcall = Call_write 0 2, pfile = f, ppc = Returned 2\<rparr>] \<and>
     drv_spec (dks c) = \<lparr>commands = [[104, 10], [97, 98, 10]], pending = []\<rparr>"
proof -
  let ?call = "Call_write 0 2" and ?p = "\<lparr>pcall = Call_write 0 2, pfile = example_file, ppc = Begin\<rparr>"
  let ?c = "(dsys_start example_state)\<lparr>procs := [1 \<mapsto> ?p],
    dnotes := (dnotes (dsys_start example_state))(1 := \<lparr>n_file = example_file, n_data = []\<rparr>)\<rparr>"
  obtain s where s: "aesd_write demo_kernel example_file 0 2 0 example_state = Inr (2, 0, s)"
    "drv_spec s = \<lparr>commands = [[104, 10], [97, 98, 10]], pending = []\<rparr>" using aesd_write_example by blast
  have "handler demo_kernel ?call example_file example_state = Inr (2, example_file\<lparr>f_pos := 0\<rparr>, s)"
    using s(1) by (simp add: handler_def example_state_sel)
  then have a: "drv_alone demo_kernel (9 + 0) (pcall ?p) (pfile ?p) (ppc ?p) (dks ?c) = Inr (2, example_file\<lparr>f_pos := 0\<rparr>, s)"
    using alone_handler [of demo_kernel 0 ?call example_file example_state] by (simp add: dsys_start_def del: drv_alone.simps)
  have "dsys_step (dsys_start example_state) ?c"
    using invoke [of "dsys_start example_state" 1 example_file ?call] by (simp add: dsys_start_def example_state_sel)
  moreover have "procs ?c 1 = Some ?p" by (simp add: dsys_start_def)
  note alone_run [OF demo_kernel_laws this a]
  ultimately obtain c where "dsys_step\<^sup>*\<^sup>* (dsys_start example_state) c" "dks c = s"
    "procs c = [1 \<mapsto> ?p\<lparr>pfile := example_file\<lparr>f_pos := 0\<rparr>, ppc := Returned 2\<rparr>]"
    by (auto simp: dsys_start_def intro: converse_rtranclp_into_rtranclp)
  then show ?thesis using s(2) by (auto simp: dsys_reach_def)
qed

text \<open>
  C6: Any number of processes may call \<open>read\<close>, \<open>write\<close>, \<open>ioctl\<close> and
  \<open>llseek\<close> at the same time, with their pieces interleaved in every way and the kernel services
  behaving in every way they document. The log of the points where calls took effect is a history
  of the abstract device: writes append whole, reads deliver what the device held at that point,
  seeks and sizes refer to it. When no writer holds the semaphore the driver holds exactly what the
  history leaves. Each call that has returned has at most one event. A read's event is for the
  position its file had, and the result and the new position follow from the bytes delivered; a
  write's event appends exactly the bytes the program had in its buffer when they were copied; a
  seek's event is for the argument the program gave, and the new position is the one it names; an
  \<open>llseek\<close> goes to the position asked for within the size its event reports, or fails and stays. A
  call without an event asked for nothing or returned an error, and its file is as it was. A new
  event always belongs to a call that has begun and not yet returned, so the history respects the
  order of calls in time.
\<close>

theorem driver_calls_linearizable:
  assumes "dsys_reach s c" "drv_inv s" "lock (aesd_device s) = \<lparr>readers = 0, writer = False\<rparr>"
  shows "legal (drv_spec s) (dlog c) \<and>
    (\<not> writer (lock (aesd_device (dks c))) \<longrightarrow> drv_spec (dks c) = log_after (drv_spec s) (dlog c)) \<and>
    (\<forall>i p r. procs c i = Some p \<longrightarrow> ppc p = Returned r \<longrightarrow>
       outcome (dnotes c i) (pcall p) (pfile p) (events_of i (dlog c)) r) \<and>
    (\<forall>c'. dsys_step c c' \<longrightarrow>
       (\<exists>h. dlog c' = dlog c @ h \<and> (\<forall>(i, e) \<in> set h. \<exists>p. procs c i = Some p \<and> \<not> returned (ppc p))))"
proof (intro conjI allI impI)
  note v = sys_invD [OF dsys_reach_inv [OF assms]]
  show "legal (drv_spec s) (dlog c)" by (rule v(7))
  assume "\<not> writer (lock (aesd_device (dks c)))"
  then have "\<forall>i. modes (procs c) i \<noteq> Excl" using v(3) by (simp add: lock_agrees_def)
  then show "drv_spec (dks c) = log_after (drv_spec s) (dlog c)" using v(8) by (simp add: view_ok_def)
next
  fix i p r assume "procs c i = Some p" "ppc p = Returned r"
  then show "outcome (dnotes c i) (pcall p) (pfile p) (events_of i (dlog c)) r"
    using dsys_reach_noted [OF assms] by (fastforce simp: sys_noted_def)
next
  fix c' assume "dsys_step c c'"
  then show "\<exists>h. dlog c' = dlog c @ h \<and> (\<forall>(i, e) \<in> set h. \<exists>p. procs c i = Some p \<and> \<not> returned (ppc p))"
    by (rule dsys_step_log)
qed

theorem driver_calls_linearizable_witness:
  "\<exists>c. dsys_reach example_state c \<and> events_of 1 (dlog c) = [Ev_write (n_data (dnotes c 1))] \<and>
     length (n_data (dnotes c 1)) = 2 \<and> legal (drv_spec example_state) (dlog c)"
proof -
  obtain c f where c: "dsys_reach example_state c"
    "procs c = [1 \<mapsto> \<lparr>pcall = Call_write 0 2, pfile = f, ppc = Returned 2\<rparr>]" using example_run by blast
  have "outcome (dnotes c 1) (Call_write 0 2) f (events_of 1 (dlog c)) 2 \<and> legal (drv_spec example_state) (dlog c)"
    using driver_calls_linearizable [OF c(1) example_state_inv example_state_sel(3)] c(2)
    by (simp split: if_splits)
  then show ?thesis using c(1) by (auto simp: errno_defs)
qed

text \<open>
  C7: In every interleaving, the next piece of every call succeeds: no assertion
  fails, no \<open>NULL\<close> is dereferenced, and no block is read, written or freed that has been freed by
  another call, although writes allocate before and free after their critical section. At every
  moment the semaphore counts exactly the calls inside a shared section and is held by a writer
  exactly when one call is inside an exclusive section, which is then alone; and every block of the
  heap belongs either to one stored entry or to one call in progress. Once all calls have returned,
  the semaphore is free and nothing has leaked.
\<close>

theorem driver_calls_safe:
  assumes "dsys_reach s c" "drv_inv s" "lock (aesd_device s) = \<lparr>readers = 0, writer = False\<rparr>"
  shows "(\<forall>K i p. kernel_laws K \<longrightarrow> procs c i = Some p \<longrightarrow> \<not> returned (ppc p) \<longrightarrow>
      (\<exists>x. drv_next K (pcall p) (pfile p) (ppc p) (dks c) = Inr x)) \<and>
    lock_agrees (lock (aesd_device (dks c))) (modes (procs c)) \<and>
    dom (kmem (dks c)) = set (map eptr (all_entries (dks c))) \<union> (\<Union>i. holds (procs c) i) \<and>
    set (map eptr (all_entries (dks c))) \<inter> (\<Union>i. holds (procs c) i) = {} \<and>
    distinct (map eptr (all_entries (dks c))) \<and>
    (\<forall>i j. i \<noteq> j \<longrightarrow> holds (procs c) i \<inter> holds (procs c) j = {}) \<and>
    ((\<forall>i p. procs c i = Some p \<longrightarrow> returned (ppc p)) \<longrightarrow>
      drv_inv (dks c) \<and> lock (aesd_device (dks c)) = \<lparr>readers = 0, writer = False\<rparr>)"
proof (intro conjI allI impI)
  note inv = dsys_reach_inv [OF assms]
  note v = sys_invD [OF inv]
  show "\<exists>x. drv_next K (pcall p) (pfile p) (ppc p) (dks c) = Inr x"
    if "kernel_laws K" "procs c i = Some p" "\<not> returned (ppc p)" for K i p
    using sys_advances [OF inv that(2,1,3)] by (auto simp: advances_def)
  show "lock_agrees (lock (aesd_device (dks c))) (modes (procs c))" by (rule v(3))
  show "dom (kmem (dks c)) = set (map eptr (all_entries (dks c))) \<union> (\<Union>i. holds (procs c) i)"
    "set (map eptr (all_entries (dks c))) \<inter> (\<Union>i. holds (procs c) i) = {}"
    "distinct (map eptr (all_entries (dks c)))"
    using v(1) by (simp_all add: drv_frame_def)
  show "holds (procs c) i \<inter> holds (procs c) j = {}" if "i \<noteq> j" for i j using that by (rule v(2))
  assume all: "\<forall>i p. procs c i = Some p \<longrightarrow> returned (ppc p)"
  have r: "held pc = {} \<and> mode_of pc = Out" if "returned pc" for pc using that by (cases pc) simp_all
  have "holds (procs c) i = {}" "modes (procs c) i = Out" for i
    using all r by (auto simp: holds_def modes_def split: option.split)
  then show "drv_inv (dks c)" "lock (aesd_device (dks c)) = \<lparr>readers = 0, writer = False\<rparr>"
    using v(1,3) by (simp_all add: drv_inv_def lock_agrees_def)
qed

theorem driver_calls_safe_witness:
  "\<exists>c. dsys_reach example_state c \<and> drv_inv (dks c) \<and>
     drv_spec (dks c) = \<lparr>commands = [[104, 10], [97, 98, 10]], pending = []\<rparr>"
proof -
  obtain c f where c: "dsys_reach example_state c"
    "procs c = [1 \<mapsto> \<lparr>pcall = Call_write 0 2, pfile = f, ppc = Returned 2\<rparr>]"
    "drv_spec (dks c) = \<lparr>commands = [[104, 10], [97, 98, 10]], pending = []\<rparr>" using example_run by blast
  from driver_calls_safe [OF c(1) example_state_inv example_state_sel(3)] have "drv_inv (dks c)"
    by (auto simp: c(2) split: if_splits)
  with c(1,3) show ?thesis by blast
qed

text \<open>
  C9: No call blocks the others for ever. While some call has not returned,
  some call has a next piece that need not wait for the semaphore; every piece brings its call
  nearer to its return, which is at most nine pieces away.
\<close>

theorem driver_calls_progress:
  assumes "dsys_reach s c" "drv_inv s" "lock (aesd_device s) = \<lparr>readers = 0, writer = False\<rparr>"
    "procs c i = Some p" "\<not> returned (ppc p)"
  shows "(\<exists>j q. procs c j = Some q \<and> \<not> returned (ppc q) \<and> may_run (lock (aesd_device (dks c))) (ppc q)) \<and>
    rank (ppc p) \<le> 9 \<and>
    (\<forall>K. kernel_laws K \<longrightarrow> (\<exists>f' pc' s'. drv_next K (pcall p) (pfile p) (ppc p) (dks c) = Inr (f', pc', s') \<and>
       rank pc' < rank (ppc p)))"
proof (intro conjI allI impI)
  note inv = dsys_reach_inv [OF assms(1-3)]
  show "\<exists>j q. procs c j = Some q \<and> \<not> returned (ppc q) \<and> may_run (lock (aesd_device (dks c))) (ppc q)"
    by (rule some_call_runs [OF inv assms(4,5)])
  show "rank (ppc p) \<le> 9" by (cases "ppc p") simp_all
  fix K assume "kernel_laws K"
  then obtain f' pc' s' where "drv_next K (pcall p) (pfile p) (ppc p) (dks c) = Inr (f', pc', s')"
    using sys_advances [OF inv assms(4) _ assms(5)] unfolding advances_def by blast
  with rank_decreases [OF this sys_invD(5) [OF inv assms(4)] assms(5)]
  show "\<exists>f' pc' s'. drv_next K (pcall p) (pfile p) (ppc p) (dks c) = Inr (f', pc', s') \<and> rank pc' < rank (ppc p)"
    by blast
qed

theorem driver_calls_progress_witness:
  "\<exists>c p f' pc' s'. dsys_reach example_state c \<and> procs c 1 = Some p \<and> pcall p = Call_llseek 0 0 \<and>
     drv_next demo_kernel (pcall p) (pfile p) (ppc p) (dks c) = Inr (f', pc', s') \<and> rank pc' < 9"
proof -
  let ?p = "\<lparr>pcall = Call_llseek 0 0, pfile = example_file, ppc = Begin\<rparr>"
  let ?c = "(dsys_start example_state)\<lparr>procs := [1 \<mapsto> ?p],
    dnotes := (dnotes (dsys_start example_state))(1 := \<lparr>n_file = example_file, n_data = []\<rparr>)\<rparr>"
  have "dsys_reach example_state ?c"
    using invoke [of "dsys_start example_state" 1 example_file "Call_llseek 0 0"]
    by (auto simp: dsys_reach_def dsys_start_def example_state_sel)
  moreover from driver_calls_progress [OF this example_state_inv example_state_sel(3), of 1 ?p] demo_kernel_laws
  obtain f' pc' s' where "drv_next demo_kernel (pcall ?p) (pfile ?p) (ppc ?p) (dks ?c) = Inr (f', pc', s')" "rank pc' < 9"
    by auto
  ultimately show ?thesis by (intro exI [of _ ?c] exI [of _ ?p]) auto
qed

end
