(* ===== verification/Shutdown.thy ===== *)
theory Shutdown
  imports Client_Concurrency
begin

text \<open>
  The end of the server: \<open>join_completed_clients\<close> with \<open>cancel\<close> set (\<open>server/aesdsocket.c\<close>), while
  the connection threads are still at work. The main thread walks the queue; for each client it
  requests the cancellation of the thread and waits for its end. A thread ends when it is cancelled
  inside a call that acts on cancellation, or when its connection is closed; the lock it holds then
  stays held, because no cleanup handler releases it.

  Which calls act on cancellation is not up to the program: POSIX demands it of \<open>recv\<close> and \<open>send\<close>,
  and leaves it open for the stream functions and the reader/writer lock. It is a parameter: \<open>cp\<close>
  for the calls made while the lock is held, \<open>lockcp\<close> for waiting on the lock.
\<close>

section \<open>States and steps\<close>

datatype main_pc = Walking "nat list" | Joining nat "nat list"

record shut =
  sconns :: conns
  main_at :: main_pc
  cancelled :: "nat set"
  ended :: "nat set"
  at_lock :: "nat set"      \<comment> \<open>threads that have left \<open>recv\<close> and called \<open>pthread_rwlock_wrlock\<close>\<close>

definition cancellable :: "(phase \<Rightarrow> bool) \<Rightarrow> bool \<Rightarrow> shut \<Rightarrow> nat \<Rightarrow> bool" where
  "cancellable cp lockcp s i \<longleftrightarrow>
     (case thr (sconns s) i of
        None \<Rightarrow> False
      | Some t \<Rightarrow>
          (case phase t of
             Idle \<Rightarrow> i \<notin> at_lock s \<or> lockcp
           | Answering \<Rightarrow> lockcp
           | ph \<Rightarrow> cp ph))"

inductive shut_step :: "libc \<Rightarrow> (phase \<Rightarrow> bool) \<Rightarrow> bool \<Rightarrow> shut \<Rightarrow> shut \<Rightarrow> bool" for L cp lockcp where
  pthread_cancel: "main_at s = Walking (i # is) \<Longrightarrow>
    shut_step L cp lockcp s (s\<lparr>main_at := Joining i is, cancelled := insert i (cancelled s)\<rparr>)"
| pthread_join: "main_at s = Joining i is \<Longrightarrow> i \<in> ended s \<Longrightarrow>
    shut_step L cp lockcp s (s\<lparr>main_at := Walking is\<rparr>)"
| work: "conn_step L (sconns s) c \<Longrightarrow> thr c = (thr (sconns s))(i \<mapsto> t) \<Longrightarrow> i \<notin> ended s \<Longrightarrow>
    shut_step L cp lockcp s (s\<lparr>sconns := c, at_lock := at_lock s - {i}\<rparr>)"
| call_wrlock: "thr (sconns s) i = Some t \<Longrightarrow> phase t = Idle \<Longrightarrow> todo t \<noteq> [] \<Longrightarrow> i \<notin> ended s \<Longrightarrow>
    i \<notin> at_lock s \<Longrightarrow> shut_step L cp lockcp s (s\<lparr>at_lock := insert i (at_lock s)\<rparr>)"
| end_cancelled: "i \<in> cancelled s \<Longrightarrow> i \<notin> ended s \<Longrightarrow> cancellable cp lockcp s i \<Longrightarrow>
    shut_step L cp lockcp s (s\<lparr>ended := insert i (ended s)\<rparr>)"
| end_closed: "thr (sconns s) i = Some t \<Longrightarrow> phase t = Idle \<Longrightarrow> todo t = [] \<Longrightarrow> i \<notin> ended s \<Longrightarrow>
    shut_step L cp lockcp s (s\<lparr>ended := insert i (ended s)\<rparr>)"

text \<open>The main thread leaves its loop at any moment of the connections' work.\<close>

definition shut_start :: "conns \<Rightarrow> nat list \<Rightarrow> shut" where
  "shut_start c q = \<lparr>sconns = c, main_at = Walking q, cancelled = {}, ended = {}, at_lock = {}\<rparr>"

definition shut_reach ::
  "libc \<Rightarrow> (phase \<Rightarrow> bool) \<Rightarrow> bool \<Rightarrow> dev_spec \<Rightarrow> (nat \<rightharpoonup> byte list list) \<Rightarrow> nat list \<Rightarrow> shut \<Rightarrow> bool" where
  "shut_reach L cp lockcp d P q s \<longleftrightarrow>
     (\<exists>c. conn_reach L d P c \<and> (shut_step L cp lockcp)\<^sup>*\<^sup>* (shut_start c q) s)"

definition holding :: "phase \<Rightarrow> bool" where
  "holding ph \<longleftrightarrow> in_hand ph \<noteq> [] \<or> wants_read ph"

section \<open>Invariant\<close>

fun main_queue :: "main_pc \<Rightarrow> nat list" where
  "main_queue (Walking is) = is" | "main_queue (Joining i is) = i # is"

definition shut_inv ::
  "libc \<Rightarrow> (phase \<Rightarrow> bool) \<Rightarrow> bool \<Rightarrow> dev_spec \<Rightarrow> (nat \<rightharpoonup> byte list list) \<Rightarrow> shut \<Rightarrow> bool" where
  "shut_inv L cp lockcp d P s \<longleftrightarrow>
     conn_reach L d P (sconns s) \<and> set (main_queue (main_at s)) \<subseteq> dom P \<and>
     (\<forall>i is. main_at s = Joining i is \<longrightarrow> i \<in> cancelled s) \<and> ended s \<subseteq> dom P \<and> at_lock s \<subseteq> dom P \<and>
     (\<forall>i t. i \<in> at_lock s \<longrightarrow> thr (sconns s) i = Some t \<longrightarrow> phase t = Idle \<and> todo t \<noteq> []) \<and>
     (\<forall>i t. i \<in> ended s \<longrightarrow> thr (sconns s) i = Some t \<longrightarrow> holding (phase t) \<longrightarrow> cp (phase t))"

lemma conn_step_dom:
  assumes "conn_step L c c'"
  shows "dom (thr c') = dom (thr c)"
  using assms by cases (auto simp: upd_def)

lemma conn_step_thread:
  assumes "conn_step L c c'"
  obtains j t t' where "thr c j = Some t" "thr c' = (thr c)(j \<mapsto> t')" "t' \<noteq> t" "phase t = Idle \<longrightarrow> lock_readers c = {}"
proof -
  have "\<exists>j t t'. thr c j = Some t \<and> thr c' = (thr c)(j \<mapsto> t') \<and> (phase t' \<noteq> phase t \<or> replied t' \<noteq> replied t) \<and>
      (phase t = Idle \<longrightarrow> lock_readers c = {})"
    using assms by cases (auto simp: upd_def intro!: exI)
  then show thesis using that by blast
qed

lemma conn_reach_dom: "conn_reach L d P c \<Longrightarrow> dom (thr c) = dom P"
  by (induction rule: rtranclp_induct) (auto simp: conns_start_def conn_step_dom)

lemma shut_step_inv:
  assumes "shut_step L cp lockcp s s'" "shut_inv L cp lockcp d P s"
  shows "shut_inv L cp lockcp d P s'"
proof -
  have r: "conn_reach L d P (sconns s)" using assms(2) by (simp add: shut_inv_def)
  note dm = conn_reach_dom [OF r]
  show ?thesis
    using assms(1)
  proof cases
    case (work c i t)
    have "conn_reach L d P c" using r work(2) by (rule rtranclp.rtrancl_into_rtrancl)
    then show ?thesis using assms(2) work unfolding shut_inv_def by auto
  next
    case (end_cancelled i)
    have "i \<in> dom P" using end_cancelled(4) dm by (auto simp: cancellable_def split: option.splits)
    moreover have "cp (phase t)" if "thr (sconns s) i = Some t" "holding (phase t)" for t
      using end_cancelled(4) that by (auto simp: cancellable_def holding_def split: phase.splits)
    ultimately show ?thesis using assms(2) end_cancelled unfolding shut_inv_def by auto
  next
    case (end_closed i t)
    then have "i \<in> dom P" using dm by auto
    then show ?thesis using assms(2) end_closed unfolding shut_inv_def by (auto simp: holding_def)
  next
    case (call_wrlock i t)
    then have "i \<in> dom P" using dm by auto
    then show ?thesis using assms(2) call_wrlock unfolding shut_inv_def by auto
  qed (use assms(2) in \<open>auto simp: shut_inv_def\<close>)
qed

lemma shut_reach_inv:
  assumes "shut_reach L cp lockcp d P q s" "set q \<subseteq> dom P"
  shows "shut_inv L cp lockcp d P s"
proof -
  from assms(1) obtain c where c: "conn_reach L d P c" "(shut_step L cp lockcp)\<^sup>*\<^sup>* (shut_start c q) s"
    by (auto simp: shut_reach_def)
  from c(2) show ?thesis
  proof (induction rule: rtranclp_induct)
    case base
    show ?case using c(1) assms(2) by (simp add: shut_inv_def shut_start_def)
  next
    case (step s s')
    then show ?case using shut_step_inv by blast
  qed
qed

section \<open>No step is missing\<close>

lemma shut_progress:
  assumes inv: "shut_inv L cp lockcp d P s" and laws: "libc_laws L" "\<forall>ps \<in> ran P. \<forall>p \<in> set ps. is_line p"
    and ok: "lockcp \<or> (\<forall>ph. holding ph \<longrightarrow> \<not> cp ph)" and "main_at s \<noteq> Walking []"
  shows "\<exists>s'. shut_step L cp lockcp s s'"
proof (cases "main_at s")
  case (Walking "is")
  then obtain i js where "main_at s = Walking (i # js)" using assms(5) by (cases "is") auto
  then show ?thesis using pthread_cancel by blast
next
  case (Joining i "is")
  let ?c = "sconns s"
  have moves: "\<exists>s'. shut_step L cp lockcp s s'" if "thread_moves L ?c j" "j \<notin> ended s" for j
    using that work unfolding thread_moves_def by blast
  show ?thesis
  proof (cases "i \<in> ended s")
    case True
    with Joining show ?thesis using pthread_join by blast
  next
    case False
    have r: "conn_reach L d P ?c" and ic: "i \<in> cancelled s" and "i \<in> dom P"
      using inv Joining by (auto simp: shut_inv_def)
    then obtain t where t: "thr ?c i = Some t" using conn_reach_dom [OF r] by blast
    note cinv = conn_reach_inv [OF r laws]
    show ?thesis
    proof (cases "holding (phase t) \<or> cancellable cp lockcp s i")
      case True
      then show ?thesis
        using moves [OF _ False] writer_moves [OF t] reader_moves [OF t] end_cancelled [OF ic False]
        unfolding holding_def by blast
    next
      case F: False
      then have nl: "\<not> lockcp" and w: "phase t = Idle \<and> i \<in> at_lock s \<or> phase t = Answering"
        using t by (auto simp: cancellable_def holding_def split: phase.splits)
      then have "phase t = Idle \<and> todo t \<noteq> [] \<or> phase t = Answering"
        using inv t by (auto simp: shut_inv_def)
      from waiting_moves [OF cinv t this] obtain j u where
        j: "thr ?c j = Some u" "thread_moves L ?c j" "j = i \<or> holding (phase u)" by (auto simp: holding_def)
      have "j \<notin> ended s" using j(1,3) False inv ok nl by (auto simp: shut_inv_def)
      with j(2) show ?thesis by (rule moves)
    qed
  qed
qed

section \<open>No run goes on for ever\<close>

fun main_left :: "main_pc \<Rightarrow> nat" where
  "main_left (Walking is) = 2 * length is" | "main_left (Joining i is) = 2 * length is + 1"

definition shut_measure :: "libc \<Rightarrow> nat set \<Rightarrow> shut \<Rightarrow> nat \<times> nat \<times> (nat \<times> nat) \<times> nat" where
  "shut_measure L D s =
     (main_left (main_at s), card (D - ended s), conn_measure L (sconns s), card (D - at_lock s))"

definition shut_order :: "((nat \<times> nat \<times> (nat \<times> nat) \<times> nat) \<times> nat \<times> nat \<times> (nat \<times> nat) \<times> nat) set" where
  "shut_order = less_than <*lex*> less_than <*lex*> (less_than <*lex*> less_than) <*lex*> less_than"

lemma wf_shut_order: "wf shut_order"
  by (simp add: shut_order_def wf_lex_prod)

lemma card_less: "finite D \<Longrightarrow> i \<in> D \<Longrightarrow> i \<notin> A \<Longrightarrow> card (D - insert i A) < card (D - A)"
  by (rule psubset_card_mono) auto

lemma shut_step_decreases:
  assumes "shut_step L cp lockcp s s'" "shut_inv L cp lockcp d P s" "finite (dom P)"
  shows "(shut_measure L (dom P) s', shut_measure L (dom P) s) \<in> shut_order"
proof -
  have "conn_reach L d P (sconns s)" using assms(2) by (simp add: shut_inv_def)
  note dm = conn_reach_dom [OF this]
  show ?thesis
    using assms(1)
  proof cases
    case (work c i t)
    then show ?thesis
      using conn_step_decreases [OF work(2)] assms(3) dm by (simp add: shut_measure_def shut_order_def)
  next
    case (end_cancelled i)
    have "i \<in> dom P" using end_cancelled(4) dm by (auto simp: cancellable_def split: option.splits)
    with card_less [OF assms(3) this] end_cancelled show ?thesis by (simp add: shut_measure_def shut_order_def)
  next
    case (end_closed i t)
    have "i \<in> dom P" using end_closed(2) dm by auto
    with card_less [OF assms(3) this] end_closed show ?thesis by (simp add: shut_measure_def shut_order_def)
  next
    case (call_wrlock i t)
    have "i \<in> dom P" using call_wrlock(2) dm by auto
    with card_less [OF assms(3) this] call_wrlock show ?thesis by (simp add: shut_measure_def shut_order_def)
  qed (simp_all add: shut_measure_def shut_order_def)
qed

lemma shut_ends:
  assumes inv: "shut_inv L cp lockcp d P (f 0)" and fin: "finite (dom P)"
    and run: "\<And>n. shut_step L cp lockcp (f n) (f (Suc n))"
  shows False
proof -
  have "shut_inv L cp lockcp d P (f n)" for n
  proof (induction n)
    case (Suc n)
    then show ?case using shut_step_inv [OF run] by blast
  qed (rule inv)
  then have "(shut_measure L (dom P) (f (Suc n)), shut_measure L (dom P) (f n)) \<in> shut_order" for n
    using shut_step_decreases [OF run _ fin] by blast
  then have "\<exists>g. \<forall>n. (g (Suc n), g n) \<in> shut_order"
    by (intro exI [of _ "\<lambda>n. shut_measure L (dom P) (f n)"]) simp
  then show False using wf_shut_order unfolding wf_iff_no_infinite_down_chain by (rule notE [rotated])
qed

section \<open>Properties\<close>

text \<open>
  C10: The shutdown ends with every thread joined, whatever the connections are
  doing when it begins, provided that no thread is cancelled while it holds the lock, or that
  threads waiting for the lock can be cancelled: every run of the shutdown is finite, and it can
  stop only when the main thread has walked the whole queue.
\<close>

theorem shutdown_completes:
  assumes "shut_reach L cp lockcp d P q s" "set q \<subseteq> dom P" "finite (dom P)" "libc_laws L"
    "\<forall>ps \<in> ran P. \<forall>p \<in> set ps. is_line p" "lockcp \<or> (\<forall>ph. holding ph \<longrightarrow> \<not> cp ph)"
  shows "(\<nexists>f. f 0 = s \<and> (\<forall>n. shut_step L cp lockcp (f n) (f (Suc n)))) \<and>
    ((\<nexists>s'. shut_step L cp lockcp s s') \<longrightarrow> main_at s = Walking [])"
proof
  note inv = shut_reach_inv [OF assms(1,2)]
  show "\<nexists>f. f 0 = s \<and> (\<forall>n. shut_step L cp lockcp (f n) (f (Suc n)))"
    using shut_ends [OF _ assms(3)] inv by blast
  show "(\<nexists>s'. shut_step L cp lockcp s s') \<longrightarrow> main_at s = Walking []"
    using shut_progress [OF inv assms(4-6)] by blast
qed

theorem shutdown_completes_witness:
  "\<not> (\<exists>f. f 0 = shut_start (conns_start \<lparr>commands = [], pending = []\<rparr> [1 \<mapsto> [[97, 10]]]) [1] \<and>
     (\<forall>n. shut_step demo_libc (\<lambda>ph. False) False (f n) (f (Suc n))))"
proof -
  let ?P = "[1 \<mapsto> [[97, 10]]] :: nat \<rightharpoonup> byte list list" and ?d = "\<lparr>commands = [], pending = []\<rparr> :: dev_spec"
  have "shut_reach demo_libc (\<lambda>ph. False) False ?d ?P [1] (shut_start (conns_start ?d ?P) [1])"
    unfolding shut_reach_def by blast
  from shutdown_completes [OF this _ _ demo_libc_laws] line_ab show ?thesis by (auto simp: ran_def)
qed

text \<open>The connections of the next example: the first is sending its reply, the second has a packet.\<close>

definition hang_conns :: conns where
  "hang_conns = conf 1 (thr (conns_start \<lparr>commands = [[104, 10]], pending = []\<rparr> [1 \<mapsto> [[97, 10]], 2 \<mapsto> [[98, 10]]]))
     \<lparr>commands = [[104, 10], [97, 10]], pending = []\<rparr> None {1} [(1, [97, 10])] []
     (Reading \<lparr>file_pos = 0, file_eof = False\<rparr> []) \<lparr>file_pos = 0, file_eof = False\<rparr> []"

lemma hang_conns_reach:
  "conn_reach demo_libc \<lparr>commands = [[104, 10]], pending = []\<rparr> [1 \<mapsto> [[97, 10]], 2 \<mapsto> [[98, 10]]] hang_conns"
proof -
  let ?P = "[1 \<mapsto> [[97, 10]], 2 \<mapsto> [[98, 10]]] :: nat \<rightharpoonup> byte list list"
  let ?d = "\<lparr>commands = [[104, 10]], pending = []\<rparr> :: dev_spec" and ?f = "\<lparr>file_pos = 0, file_eof = False\<rparr>"
  let ?T = "thr (conns_start ?d ?P)" and ?h = "[(1, [97, 10])]"
  have p: "packet_params [97, 10] = (0, \<lparr>write_cmd = 0, write_cmd_offset = 0\<rparr>)"
    by (simp add: packet_params_def sscanf_seekto_def seekto_prefix_def Let_def)
  have d: "store_packet [97, 10] ?d = \<lparr>commands = [[104, 10], [97, 10]], pending = []\<rparr>"
    by (simp add: store_packet_def p spec_write_def log_push_def)
  have "conns_start ?d ?P = conf 1 ?T ?d None {} [] [[97, 10]] Idle ?f []"
    by (simp add: conns_start_def conf_def fun_eq_iff)
  then have "conn_reach demo_libc ?d ?P (conf 1 ?T (store_packet [97, 10] ?d) None {} ?h [] Answering ?f [])"
    using store_alone [OF demo_libc_laws line_ab(1) p, of 1 ?T ?d "[]" "[]" ?f "[]"] by simp
  moreover have "conn_step demo_libc (conf 1 ?T (store_packet [97, 10] ?d) None {} ?h [] Answering ?f []) hang_conns"
    unfolding d hang_conns_def
    using conn_step.rdlock [of "conf 1 ?T \<lparr>commands = [[104, 10], [97, 10]], pending = []\<rparr> None {} ?h [] Answering ?f []" 1
        "\<lparr>todo = [], phase = Answering, cstream = ?f, replied = []\<rparr>" demo_libc]
    by (simp add: conf_def upd_def)
  ultimately show ?thesis by (rule rtranclp.rtrancl_into_rtrancl)
qed

text \<open>
  C11: The shutdown can hang. With a C library in which \<open>send\<close> acts on cancellation,
  as POSIX demands, and waiting for a reader/writer lock does not, there is a run in which the first
  thread is cancelled while it sends its reply under the read lock; the second waits for the write
  lock, which nobody will release, and the main thread waits for the second: no step is possible.
\<close>

theorem shutdown_can_hang:
  "\<exists>s. shut_reach demo_libc wants_read False \<lparr>commands = [[104, 10]], pending = []\<rparr>
       [1 \<mapsto> [[97, 10]], 2 \<mapsto> [[98, 10]]] [1, 2] s \<and>
     main_at s = Joining 2 [] \<and> (\<nexists>s'. shut_step demo_libc wants_read False s s')"
proof -
  let ?S = "shut_step demo_libc wants_read False"
  let ?s = "\<lambda>m cs es al. \<lparr>sconns = hang_conns, main_at = m, cancelled = cs, ended = es, at_lock = al\<rparr>"
  let ?t2 = "\<lparr>todo = [[98, 10]], phase = Idle, cstream = \<lparr>file_pos = 0, file_eof = False\<rparr>, replied = []\<rparr>"
  have t: "thr hang_conns 2 = Some ?t2"
    "\<exists>f r t. thr hang_conns 1 = Some t \<and> phase t = Reading f r" "dom (thr hang_conns) = {1, 2}"
    "lock_readers hang_conns = {1}"
    by (auto simp: hang_conns_def conf_def conns_start_def split: if_splits)
  have "?S (shut_start hang_conns [1, 2]) (?s (Walking [1, 2]) {} {} {2})"
    using call_wrlock [of "shut_start hang_conns [1, 2]" 2] t(1) by (simp add: shut_start_def)
  moreover have "?S (?s (Walking [1, 2]) {} {} {2}) (?s (Joining 1 [2]) {1} {} {2})"
    using pthread_cancel [of "?s (Walking [1, 2]) {} {} {2}" 1 "[2]"] by simp
  moreover have "?S (?s (Joining 1 [2]) {1} {} {2}) (?s (Joining 1 [2]) {1} {1} {2})"
    using end_cancelled [of 1 "?s (Joining 1 [2]) {1} {} {2}" wants_read False] t(2) by (auto simp: cancellable_def)
  moreover have "?S (?s (Joining 1 [2]) {1} {1} {2}) (?s (Walking [2]) {1} {1} {2})"
    using pthread_join [of "?s (Joining 1 [2]) {1} {1} {2}" 1 "[2]"] by simp
  moreover have "?S (?s (Walking [2]) {1} {1} {2}) (?s (Joining 2 []) {2, 1} {1} {2})"
    using pthread_cancel [of "?s (Walking [2]) {1} {1} {2}" 2 "[]"] by simp
  ultimately have r: "?S\<^sup>*\<^sup>* (shut_start hang_conns [1, 2]) (?s (Joining 2 []) {2, 1} {1} {2})"
    by (meson converse_rtranclp_into_rtranclp rtranclp.rtrancl_refl)
  have no_work: "i = 1" if c: "conn_step demo_libc hang_conns c" "thr c = (thr hang_conns)(i \<mapsto> u)" for c i u
  proof -
    from c(1) obtain j v v' where j: "thr hang_conns j = Some v" "thr c = (thr hang_conns)(j \<mapsto> v')" "v' \<noteq> v"
      "phase v = Idle \<longrightarrow> lock_readers hang_conns = {}" by (rule conn_step_thread)
    have "i = j"
    proof (rule ccontr)
      assume "i \<noteq> j"
      then have "thr c j = Some v" using j(1) c(2) by simp
      moreover have "thr c j = Some v'" using j(2) by simp
      ultimately show False using j(3) by simp
    qed
    moreover have "j \<noteq> 2"
    proof
      assume "j = 2"
      then have "phase v = Idle" using j(1) t(1) by auto
      then show False using j(4) t(4) by simp
    qed
    moreover have "j \<in> {1, 2}" using j(1) t(3) by blast
    ultimately show ?thesis by simp
  qed
  have "\<not> ?S (?s (Joining 2 []) {2, 1} {1} {2}) s'" for s'
  proof
    assume "?S (?s (Joining 2 []) {2, 1} {1} {2}) s'"
    then show False
    proof cases
      case (work c i u)
      then show ?thesis using no_work [of c i u] by simp
    next
      case (call_wrlock i u)
      then have "i \<in> {1, 2}" "i \<noteq> 1" "i \<noteq> 2" using t(3) domI [of "thr hang_conns" i u] by simp_all
      then show ?thesis by simp
    next
      case (end_closed i u)
      then have "i \<in> {1, 2}" "i \<noteq> 1" using t(3) domI [of "thr hang_conns" i u] by simp_all
      then have "Some u = Some ?t2" using end_closed(2) t(1) by simp
      then show ?thesis using end_closed(4) by simp
    qed (use t(1) in \<open>auto simp: cancellable_def\<close>)
  qed
  with r hang_conns_reach show ?thesis unfolding shut_reach_def by (intro exI conjI) auto
qed

end
