(* ===== verification/Stailq.thy ===== *)
theory Stailq
  imports Queue_Memory
begin

text \<open>
  The singly linked tail queue macros (\<open>STAILQ\<close>) of \<open>server/queue.h\<close>. A head also holds the
  address of the last next-pointer, its own when the queue is empty, so that insertion at the
  end and concatenation take constant time. \<open>STAILQ_REMOVE\<close> searches the queue; \<open>n\<close> bounds the
  rounds.
\<close>

section \<open>Data\<close>

record st_head =
  stqh_first :: ptr
  stqh_last :: link

record st_entry =
  stqe_next :: ptr

type_synonym st_mem = "(st_head, st_entry) queue_mem"

section \<open>The macros\<close>

definition STAILQ_HEAD_INITIALIZER :: "nat \<Rightarrow> st_head" where
  "STAILQ_HEAD_INITIALIZER h = \<lparr>stqh_first = NULL, stqh_last = First_of h\<rparr>"

definition STAILQ_FIRST :: "nat \<Rightarrow> st_mem \<Rightarrow> ptr res" where
  "STAILQ_FIRST h m = res_bind (head_at m h) (\<lambda>x. Inr (stqh_first x))"

definition STAILQ_EMPTY :: "nat \<Rightarrow> st_mem \<Rightarrow> bool res" where
  "STAILQ_EMPTY h m = res_bind (head_at m h) (\<lambda>x. Inr (stqh_first x = NULL))"

definition STAILQ_NEXT :: "addr \<Rightarrow> st_mem \<Rightarrow> ptr res" where
  "STAILQ_NEXT elm m = res_bind (elm_at m elm) (\<lambda>x. Inr (stqe_next x))"

abbreviation set_stqh_first :: "nat \<Rightarrow> ptr \<Rightarrow> st_mem \<Rightarrow> st_mem res" where
  "set_stqh_first h p \<equiv> set_head h (stqh_first_update (\<lambda>_. p))"

abbreviation set_stqh_last :: "nat \<Rightarrow> link \<Rightarrow> st_mem \<Rightarrow> st_mem res" where
  "set_stqh_last h l \<equiv> set_head h (stqh_last_update (\<lambda>_. l))"

abbreviation set_stqe_next :: "addr \<Rightarrow> ptr \<Rightarrow> st_mem \<Rightarrow> st_mem res" where
  "set_stqe_next a p \<equiv> set_elm a (stqe_next_update (\<lambda>_. p))"

text \<open>\<open>*(head)->stqh_last = p\<close>\<close>

definition st_store_last :: "nat \<Rightarrow> ptr \<Rightarrow> st_mem \<Rightarrow> st_mem res" where
  "st_store_last h p m =
     res_bind (head_at m h) (\<lambda>x.
       store_ptr (\<lambda>p. stqh_first_update (\<lambda>_. p)) (\<lambda>p. stqe_next_update (\<lambda>_. p)) (stqh_last x) p m)"

definition STAILQ_INIT :: "nat \<Rightarrow> st_mem \<Rightarrow> st_mem res" where
  "STAILQ_INIT h m = res_bind (set_stqh_first h NULL m) (set_stqh_last h (First_of h))"

definition STAILQ_CONCAT :: "nat \<Rightarrow> nat \<Rightarrow> st_mem \<Rightarrow> st_mem res" where
  "STAILQ_CONCAT h1 h2 m =
     res_bind (STAILQ_EMPTY h2 m) (\<lambda>empty.
       if empty then Inr m
       else
        res_bind (STAILQ_FIRST h2 m) (\<lambda>p.
        res_bind (st_store_last h1 p m) (\<lambda>m1.
        res_bind (head_at m1 h2) (\<lambda>b.
        res_bind (set_stqh_last h1 (stqh_last b) m1) (STAILQ_INIT h2)))))"

definition STAILQ_INSERT_AFTER :: "nat \<Rightarrow> addr \<Rightarrow> addr \<Rightarrow> st_mem \<Rightarrow> st_mem res" where
  "STAILQ_INSERT_AFTER h tqelm elm m =
     res_bind (STAILQ_NEXT tqelm m) (\<lambda>p.
     res_bind (set_stqe_next elm p m) (\<lambda>m1.
     res_bind (if p = NULL then set_stqh_last h (Next_of elm) m1 else Inr m1)
       (set_stqe_next tqelm (Some elm))))"

definition STAILQ_INSERT_HEAD :: "nat \<Rightarrow> addr \<Rightarrow> st_mem \<Rightarrow> st_mem res" where
  "STAILQ_INSERT_HEAD h elm m =
     res_bind (STAILQ_FIRST h m) (\<lambda>p.
     res_bind (set_stqe_next elm p m) (\<lambda>m1.
     res_bind (if p = NULL then set_stqh_last h (Next_of elm) m1 else Inr m1)
       (set_stqh_first h (Some elm))))"

definition STAILQ_INSERT_TAIL :: "nat \<Rightarrow> addr \<Rightarrow> st_mem \<Rightarrow> st_mem res" where
  "STAILQ_INSERT_TAIL h elm m =
     res_bind (set_stqe_next elm NULL m) (\<lambda>m1.
     res_bind (st_store_last h (Some elm) m1) (set_stqh_last h (Next_of elm)))"

definition STAILQ_LAST :: "nat \<Rightarrow> st_mem \<Rightarrow> ptr res" where
  "STAILQ_LAST h m =
     res_bind (STAILQ_EMPTY h m) (\<lambda>empty.
       if empty then Inr NULL
       else res_bind (head_at m h) (\<lambda>x. res_bind (container_of (stqh_last x)) (\<lambda>a. Inr (Some a))))"

definition STAILQ_REMOVE_AFTER :: "nat \<Rightarrow> addr \<Rightarrow> st_mem \<Rightarrow> st_mem res" where
  "STAILQ_REMOVE_AFTER h elm m =
     res_bind (STAILQ_NEXT elm m) (\<lambda>p. res_bind (deref p) (\<lambda>x.
     res_bind (STAILQ_NEXT x m) (\<lambda>q.
     res_bind (set_stqe_next elm q m) (\<lambda>m1.
       if q = NULL then set_stqh_last h (Next_of elm) m1 else Inr m1))))"

definition STAILQ_REMOVE_HEAD :: "nat \<Rightarrow> st_mem \<Rightarrow> st_mem res" where
  "STAILQ_REMOVE_HEAD h m =
     res_bind (STAILQ_FIRST h m) (\<lambda>p. res_bind (deref p) (\<lambda>x.
     res_bind (STAILQ_NEXT x m) (\<lambda>q.
     res_bind (set_stqh_first h q m) (\<lambda>m1.
       if q = NULL then set_stqh_last h (First_of h) m1 else Inr m1))))"

definition STAILQ_REMOVE :: "nat \<Rightarrow> nat \<Rightarrow> addr \<Rightarrow> st_mem \<Rightarrow> st_mem res" where
  "STAILQ_REMOVE n h elm m =
     res_bind (STAILQ_FIRST h m) (\<lambda>p.
       if p = Some elm then STAILQ_REMOVE_HEAD h m
       else res_bind (find_prev STAILQ_NEXT n elm p m) (\<lambda>curelm. STAILQ_REMOVE_AFTER h curelm m))"

text \<open>The last step of \<open>STAILQ_SWAP\<close>: an empty queue's last pointer is its own first pointer.\<close>

definition fix_last :: "nat \<Rightarrow> st_mem \<Rightarrow> st_mem res" where
  "fix_last h m =
     res_bind (STAILQ_EMPTY h m) (\<lambda>empty. if empty then set_stqh_last h (First_of h) m else Inr m)"

definition STAILQ_SWAP :: "nat \<Rightarrow> nat \<Rightarrow> st_mem \<Rightarrow> st_mem res" where
  "STAILQ_SWAP h1 h2 m =
     res_bind (head_at m h1) (\<lambda>a. res_bind (head_at m h2) (\<lambda>b.
     res_bind (set_stqh_first h1 (stqh_first b) m) (\<lambda>m1.
     res_bind (set_stqh_last h1 (stqh_last b) m1) (\<lambda>m2.
     res_bind (set_stqh_first h2 (stqh_first a) m2) (\<lambda>m3.
     res_bind (set_stqh_last h2 (stqh_last a) m3) (\<lambda>m4.
     res_bind (fix_last h1 m4) (fix_last h2)))))))"

section \<open>Iteration\<close>

definition STAILQ_FOREACH :: "('m \<Rightarrow> st_mem) \<Rightarrow> nat \<Rightarrow> (addr \<Rightarrow> 'm \<Rightarrow> 'm res) \<Rightarrow> nat \<Rightarrow> 'm \<Rightarrow> 'm res" where
  "STAILQ_FOREACH mem h body n m =
     res_bind (STAILQ_FIRST h (mem m)) (\<lambda>var. foreach_from (\<lambda>x m. STAILQ_NEXT x (mem m)) body n var m)"

definition STAILQ_FOREACH_FROM ::
  "('m \<Rightarrow> st_mem) \<Rightarrow> ptr \<Rightarrow> nat \<Rightarrow> (addr \<Rightarrow> 'm \<Rightarrow> 'm res) \<Rightarrow> nat \<Rightarrow> 'm \<Rightarrow> 'm res" where
  "STAILQ_FOREACH_FROM mem var h body n m =
     res_bind (start_at (\<lambda>m. STAILQ_FIRST h (mem m)) var m)
       (\<lambda>var. foreach_from (\<lambda>x m. STAILQ_NEXT x (mem m)) body n var m)"

definition STAILQ_FOREACH_SAFE :: "('m \<Rightarrow> st_mem) \<Rightarrow> nat \<Rightarrow> (addr \<Rightarrow> 'm \<Rightarrow> 'm res) \<Rightarrow> nat \<Rightarrow> 'm \<Rightarrow> 'm res" where
  "STAILQ_FOREACH_SAFE mem h body n m =
     res_bind (STAILQ_FIRST h (mem m)) (\<lambda>var. foreach_safe_from (\<lambda>x m. STAILQ_NEXT x (mem m)) body n var m)"

definition STAILQ_FOREACH_FROM_SAFE ::
  "('m \<Rightarrow> st_mem) \<Rightarrow> ptr \<Rightarrow> nat \<Rightarrow> (addr \<Rightarrow> 'm \<Rightarrow> 'm res) \<Rightarrow> nat \<Rightarrow> 'm \<Rightarrow> 'm res" where
  "STAILQ_FOREACH_FROM_SAFE mem var h body n m =
     res_bind (start_at (\<lambda>m. STAILQ_FIRST h (mem m)) var m)
       (\<lambda>var. foreach_safe_from (\<lambda>x m. STAILQ_NEXT x (mem m)) body n var m)"

section \<open>Representation\<close>

definition stailq :: "st_mem \<Rightarrow> nat \<Rightarrow> addr list \<Rightarrow> bool" where
  "stailq m h xs \<longleftrightarrow>
     heads m h = Some \<lparr>stqh_first = hd_or xs NULL, stqh_last = last_link (First_of h) xs\<rparr> \<and>
     distinct xs \<and> chain stqe_next (elms m) xs NULL"

interpretation sq: walk "\<lambda>m. stailq m h" "STAILQ_FIRST h" STAILQ_NEXT for h
  by unfold_locales (auto simp: stailq_def STAILQ_FIRST_def STAILQ_NEXT_def)

lemma stailq_split:
  assumes "stailq m h (ys @ x # zs)"
  shows "heads m h = Some \<lparr>stqh_first = hd_or ys (Some x), stqh_last = last_link (Next_of x) zs\<rparr>"
    "distinct (ys @ x # zs)" "chain stqe_next (elms m) ys (Some x)"
    "elms m x = Some \<lparr>stqe_next = hd_or zs NULL\<rparr>" "chain stqe_next (elms m) zs NULL"
  using assms by (auto simp: stailq_def last_link_def)

lemma stailq_frame:
  assumes "stailq m h xs" "heads m' h = heads m h" "\<And>a. a \<in> set xs \<Longrightarrow> elms m' a = elms m a"
  shows "stailq m' h xs"
  using assms chain_cong [of xs "elms m'" "elms m"] by (simp add: stailq_def)

text \<open>Redirecting the pointer the queue's last pointer names.\<close>

lemma st_store_last_ok:
  assumes "stailq m h xs"
  shows "\<exists>m'. st_store_last h p m = Inr m' \<and>
    heads m' = (heads m)(h \<mapsto> \<lparr>stqh_first = hd_or xs p, stqh_last = last_link (First_of h) xs\<rparr>) \<and>
    chain stqe_next (elms m') xs p \<and> (\<forall>a. a \<notin> set xs \<longrightarrow> elms m' a = elms m a) \<and> dom (elms m') = dom (elms m)"
proof (cases xs rule: rev_cases)
  case Nil
  with assms show ?thesis by (simp add: st_store_last_def store_ptr_def stailq_def)
next
  case (snoc us u)
  then have "stailq m h (us @ u # [])" using assms by simp
  note t = stailq_split [OF this]
  have "hd_or us (Some u) = hd_or xs p" using snoc by (cases us) simp_all
  then have "heads m = (heads m)(h \<mapsto> \<lparr>stqh_first = hd_or xs p, stqh_last = last_link (First_of h) xs\<rparr>)"
    using t(1) snoc by auto
  with snoc t show ?thesis by (auto simp: st_store_last_def store_ptr_def)
qed

section \<open>The operations on the queue\<close>

lemma STAILQ_INIT_ok:
  "heads m h = Some x \<Longrightarrow> \<exists>m'. STAILQ_INIT h m = Inr m' \<and> stailq m' h [] \<and> q_frame h {} m m'"
  by (cases x) (simp add: STAILQ_INIT_def stailq_def q_frame_def)

lemma STAILQ_HEAD_INITIALIZER_ok: "heads m h = Some (STAILQ_HEAD_INITIALIZER h) \<Longrightarrow> stailq m h []"
  by (simp add: stailq_def STAILQ_HEAD_INITIALIZER_def)

lemma STAILQ_LAST_ok: "stailq m h xs \<Longrightarrow> STAILQ_LAST h m = Inr (if xs = [] then NULL else Some (last xs))"
  by (auto simp: STAILQ_LAST_def STAILQ_EMPTY_def stailq_def last_link_def)

lemma STAILQ_INSERT_HEAD_ok:
  assumes "stailq m h xs" "elms m x \<noteq> None" "x \<notin> set xs"
  shows "\<exists>m'. STAILQ_INSERT_HEAD h x m = Inr m' \<and> stailq m' h (x # xs) \<and> q_frame h {x} m m'"
  using assms
  by (cases xs) (auto simp: STAILQ_INSERT_HEAD_def STAILQ_FIRST_def stailq_def q_frame_def)

lemma STAILQ_INSERT_TAIL_ok:
  assumes "stailq m h xs" "elms m x \<noteq> None" "x \<notin> set xs"
  shows "\<exists>m'. STAILQ_INSERT_TAIL h x m = Inr m' \<and> stailq m' h (xs @ [x]) \<and> q_frame h (set (xs @ [x])) m m'"
proof -
  obtain e where e: "elms m x = Some e" using assms(2) by auto
  let ?m1 = "m\<lparr>elms := (elms m)(x \<mapsto> \<lparr>stqe_next = NULL\<rparr>)\<rparr>"
  have "stailq ?m1 h xs" by (rule stailq_frame [OF assms(1)]) (use assms(3) in auto)
  from st_store_last_ok [OF this, of "Some x"] obtain m2 where
    m2: "st_store_last h (Some x) ?m1 = Inr m2"
    "heads m2 = (heads m)(h \<mapsto> \<lparr>stqh_first = hd_or xs (Some x), stqh_last = last_link (First_of h) xs\<rparr>)"
    "chain stqe_next (elms m2) xs (Some x)" "\<forall>a. a \<notin> set xs \<longrightarrow> elms m2 a = elms ?m1 a"
    "dom (elms m2) = dom (elms ?m1)" by auto
  have "elms m2 x = Some \<lparr>stqe_next = NULL\<rparr>" using m2(4) assms(3) by simp
  with m2 e assms show ?thesis
    by (cases e) (auto simp: STAILQ_INSERT_TAIL_def stailq_def q_frame_def)
qed

lemma STAILQ_INSERT_AFTER_ok:
  assumes "stailq m h (ys @ y # zs)" "elms m x \<noteq> None" "x \<notin> set (ys @ y # zs)"
  shows "\<exists>m'. STAILQ_INSERT_AFTER h y x m = Inr m' \<and> stailq m' h (ys @ y # x # zs) \<and> q_frame h {x, y} m m'"
proof -
  note t = stailq_split [OF assms(1)]
  obtain e where "elms m x = Some e" using assms(2) by auto
  with t assms(3) show ?thesis
    by (cases zs) (auto simp: STAILQ_INSERT_AFTER_def STAILQ_NEXT_def stailq_def q_frame_def last_link_def)
qed

lemma STAILQ_REMOVE_HEAD_ok:
  assumes "stailq m h (x # xs)"
  shows "\<exists>m'. STAILQ_REMOVE_HEAD h m = Inr m' \<and> stailq m' h xs \<and> q_frame h {} m m'"
proof -
  have "stailq m h ([] @ x # xs)" using assms by simp
  note t = stailq_split [OF this]
  show ?thesis
    using t by (cases xs) (simp_all add: STAILQ_REMOVE_HEAD_def STAILQ_FIRST_def STAILQ_NEXT_def stailq_def q_frame_def)
qed

lemma STAILQ_REMOVE_AFTER_ok:
  assumes "stailq m h (ys @ y # x # zs)"
  shows "\<exists>m'. STAILQ_REMOVE_AFTER h y m = Inr m' \<and> stailq m' h (ys @ y # zs) \<and> q_frame h {y} m m'"
  using stailq_split [OF assms]
  by (cases zs) (auto simp: STAILQ_REMOVE_AFTER_def STAILQ_NEXT_def stailq_def q_frame_def last_link_def)

lemma STAILQ_REMOVE_ok:
  assumes "stailq m h (ys @ x # zs)" "length ys \<le> n"
  shows "\<exists>m'. STAILQ_REMOVE n h x m = Inr m' \<and> stailq m' h (ys @ zs) \<and> q_frame h (set ys) m m'"
proof (cases ys rule: rev_cases)
  case Nil
  with assms STAILQ_REMOVE_HEAD_ok [of m h x zs] sq.walk_first [OF assms(1)] show ?thesis
    by (auto simp: STAILQ_REMOVE_def)
next
  case (snoc us u)
  with assms(1) have s: "stailq m h (us @ u # x # zs)" by simp
  have "hd_or us (Some u) \<noteq> Some x" using sq.rep_distinct [OF s] by (cases us) auto
  moreover have "find_prev STAILQ_NEXT n x (hd_or us (Some u)) m = Inr u"
    using sq.find_prev_ok [OF s] assms(2) snoc by simp
  moreover have "STAILQ_FIRST h m = Inr (hd_or us (Some u))" using sq.walk_first [OF s] by simp
  ultimately show ?thesis
    using STAILQ_REMOVE_AFTER_ok [OF s] snoc by (auto simp: STAILQ_REMOVE_def q_frame_def)
qed

lemma STAILQ_REMOVE_absent:
  assumes "stailq m h xs" "x \<notin> set xs" "length xs < n"
  shows "STAILQ_REMOVE n h x m = Inl Null_Deref"
proof -
  have "hd_or xs NULL \<noteq> Some x" using assms(2) by (cases xs) auto
  with sq.walk_first [OF assms(1)] sq.find_prev_absent [OF assms] show ?thesis by (simp add: STAILQ_REMOVE_def)
qed

lemma STAILQ_CONCAT_ok:
  assumes "stailq m h1 xs" "stailq m h2 ys" "h1 \<noteq> h2" "set xs \<inter> set ys = {}"
  shows "\<exists>m'. STAILQ_CONCAT h1 h2 m = Inr m' \<and> stailq m' h1 (xs @ ys) \<and> stailq m' h2 []"
proof (cases ys)
  case Nil
  with assms show ?thesis by (auto simp: STAILQ_CONCAT_def STAILQ_EMPTY_def stailq_def)
next
  case (Cons y ys')
  let ?b = "\<lparr>stqh_first = Some y, stqh_last = last_link (Next_of y) ys'\<rparr>"
  from st_store_last_ok [OF assms(1), of "Some y"] obtain m1 where
    m1: "st_store_last h1 (Some y) m = Inr m1"
    "heads m1 = (heads m)(h1 \<mapsto> \<lparr>stqh_first = hd_or xs (Some y), stqh_last = last_link (First_of h1) xs\<rparr>)"
    "chain stqe_next (elms m1) xs (Some y)" "\<forall>a. a \<notin> set xs \<longrightarrow> elms m1 a = elms m a" by auto
  have h2: "heads m h2 = Some ?b" "heads m1 h2 = Some ?b"
    using assms(2,3) m1(2) Cons by (auto simp: stailq_def)
  have "chain stqe_next (elms m1) ys NULL = chain stqe_next (elms m) ys NULL"
    by (rule chain_cong) (use assms(4) m1(4) in auto)
  then have "chain stqe_next (elms m1) ys NULL" using assms(2) by (simp add: stailq_def)
  moreover have "distinct (xs @ ys)" using assms by (simp add: stailq_def)
  moreover have "last_link (First_of h1) (xs @ ys) = last_link (Next_of y) ys'"
    using Cons by (simp add: last_link_def)
  ultimately show ?thesis
    using Cons h2 m1(1,2,3) assms(3)
    by (simp add: STAILQ_CONCAT_def STAILQ_EMPTY_def STAILQ_FIRST_def STAILQ_INIT_def stailq_def)
qed

lemma fix_last_ok:
  assumes "heads m h = Some \<lparr>stqh_first = hd_or xs NULL, stqh_last = last_link (First_of k) xs\<rparr>"
    "distinct xs" "chain stqe_next (elms m) xs NULL"
  shows "\<exists>m'. fix_last h m = Inr m' \<and> stailq m' h xs \<and> q_frame h {} m m'"
  using assms by (cases xs) (auto simp: fix_last_def STAILQ_EMPTY_def stailq_def q_frame_def)

lemma STAILQ_SWAP_ok:
  assumes "stailq m h1 xs" "stailq m h2 ys" "h1 \<noteq> h2"
  shows "\<exists>m'. STAILQ_SWAP h1 h2 m = Inr m' \<and> stailq m' h1 ys \<and> stailq m' h2 xs"
proof -
  let ?a = "\<lparr>stqh_first = hd_or xs NULL, stqh_last = last_link (First_of h1) xs\<rparr>"
  let ?b = "\<lparr>stqh_first = hd_or ys NULL, stqh_last = last_link (First_of h2) ys\<rparr>"
  let ?m4 = "m\<lparr>heads := (heads m)(h1 \<mapsto> ?b, h2 \<mapsto> ?a)\<rparr>"
  have t: "heads m h1 = Some ?a" "heads m h2 = Some ?b" "distinct xs" "distinct ys"
    "chain stqe_next (elms m) xs NULL" "chain stqe_next (elms m) ys NULL"
    using assms(1,2) by (simp_all add: stailq_def)
  from fix_last_ok [of ?m4 h1 ys h2] t(4,6) assms(3) obtain m5 where
    m5: "fix_last h1 ?m4 = Inr m5" "stailq m5 h1 ys" "q_frame h1 {} ?m4 m5" by auto
  then have "heads m5 h2 = Some ?a" "elms m5 = elms m" using assms(3) by (auto simp: q_frame_def)
  with fix_last_ok [of m5 h2 xs h1] t(3,5) obtain m6 where
    m6: "fix_last h2 m5 = Inr m6" "stailq m6 h2 xs" "q_frame h2 {} m5 m6" by auto
  have "stailq m6 h1 ys"
    by (rule stailq_frame [OF m5(2)]) (use m6(3) assms(3) in \<open>auto simp: q_frame_def\<close>)
  moreover have "STAILQ_SWAP h1 h2 m = Inr m6"
    using t(1,2) assms(3) m5(1) m6(1) by (simp add: STAILQ_SWAP_def)
  ultimately show ?thesis using m6(2) by blast
qed

section \<open>The interface\<close>

text \<open>
  The queue is a second provider of \<open>op_queue\<close>; the bound \<open>n\<close> of its search must cover the
  elements that are live, and the operations keep those.
\<close>

lemma stailq_bound:
  assumes "stailq m h xs" "finite (dom (elms m))" "card (dom (elms m)) \<le> n"
  shows "length xs \<le> n"
proof -
  have "set xs \<subseteq> dom (elms m)" "distinct xs"
    using assms(1) chain_live [of stqe_next "elms m" xs] by (auto simp: stailq_def)
  with card_mono [OF assms(2)] assms(3) show ?thesis by (metis distinct_card order_trans)
qed

interpretation sqe: op_queue
  "\<lambda>m xs. stailq m h xs \<and> finite (dom (elms m)) \<and> card (dom (elms m)) \<le> n"
  "STAILQ_FIRST h" STAILQ_NEXT "\<lambda>m. dom (elms m)" "STAILQ_INSERT_TAIL h" "STAILQ_REMOVE n h"
  "STAILQ_INSERT_HEAD h" for h n
proof (unfold_locales, goal_cases)
  case (4 m xs x)
  then show ?case using STAILQ_INSERT_TAIL_ok [of m h xs x] by (auto simp: q_frame_def)
next
  case (5 m ys x zs)
  then have "length ys \<le> n" using stailq_bound [of m h "ys @ x # zs" n] by simp
  with 5 show ?case using STAILQ_REMOVE_ok [of m h ys x zs n] by (auto simp: q_frame_def)
next
  case (6 m xs x)
  then show ?case using STAILQ_INSERT_HEAD_ok [of m h xs x] by (auto simp: q_frame_def)
qed (use sq.rep_distinct sq.walk_first sq.walk_next in blast)+

section \<open>Visiting the elements\<close>

interpretation sqf: plain_loop "\<lambda>p. stailq (fst p) h" "\<lambda>p. STAILQ_FIRST h (fst p)"
  "\<lambda>x p. STAILQ_NEXT x (fst p)" "user_body f" for h f
  by unfold_locales (auto simp: user_body_def res_iff sq.walk_first sq.walk_next sq.rep_distinct)

lemma stailq_foreach_all:
  assumes "stailq m h xs" "length xs \<le> n"
  shows "STAILQ_FOREACH fst h (user_body f) n (m, s) = res_bind (fold_res f xs s) (\<lambda>s'. Inr (m, s'))"
    "STAILQ_FOREACH_SAFE fst h (user_body f) n (m, s) = res_bind (fold_res f xs s) (\<lambda>s'. Inr (m, s'))"
  using sqf.plain_from [where m = "(m, s)" and h = h and ys = "[]" and zs = xs and n = n and f = f]
    sqf.plain_safe_from [where m = "(m, s)" and h = h and ys = "[]" and zs = xs and n = n and f = f]
    sq.walk_first [OF assms(1)] assms
  by (simp_all add: STAILQ_FOREACH_def STAILQ_FOREACH_SAFE_def fold_user_body)

lemma stailq_foreach_from:
  assumes "stailq m h (ys @ x # zs)" "length zs < n"
  shows "STAILQ_FOREACH_FROM fst (Some x) h (user_body f) n (m, s) =
      res_bind (fold_res f (x # zs) s) (\<lambda>s'. Inr (m, s'))"
    "STAILQ_FOREACH_FROM_SAFE fst (Some x) h (user_body f) n (m, s) =
      res_bind (fold_res f (x # zs) s) (\<lambda>s'. Inr (m, s'))"
  using sqf.plain_from [where m = "(m, s)" and h = h and ys = ys and zs = "x # zs" and n = n and f = f]
    sqf.plain_safe_from [where m = "(m, s)" and h = h and ys = ys and zs = "x # zs" and n = n and f = f] assms
  by (simp_all add: STAILQ_FOREACH_FROM_def STAILQ_FOREACH_FROM_SAFE_def start_at_def fold_user_body
      flip: fold_res.simps(2))

text \<open>Queue 0 holds the elements 1 and 2, queue 1 is empty; element 4 is in none.\<close>

definition st_example :: st_mem where
  "st_example =
     \<lparr>heads = [0 \<mapsto> \<lparr>stqh_first = Some 1, stqh_last = Next_of 2\<rparr>, 1 \<mapsto> \<lparr>stqh_first = NULL, stqh_last = First_of 1\<rparr>],
      elms = [1 \<mapsto> \<lparr>stqe_next = Some 2\<rparr>, 2 \<mapsto> \<lparr>stqe_next = NULL\<rparr>, 4 \<mapsto> \<lparr>stqe_next = NULL\<rparr>]\<rparr>"

lemma st_example_rep: "stailq st_example 0 [1, 2]" "stailq st_example 1 []"
  by (simp_all add: stailq_def st_example_def)

end
