(* ===== verification/Slist.thy ===== *)
theory Slist
  imports Queue_Memory
begin

text \<open>
  The singly linked list macros (\<open>SLIST\<close>) of \<open>server/queue.h\<close>. A head holds the pointer to the
  first element, an element the pointer to the next. \<open>SLIST_REMOVE\<close> and \<open>SLIST_CONCAT\<close> search
  the list; \<open>n\<close> bounds the rounds, and as many as there are elements are enough.
\<close>

section \<open>Data\<close>

record sl_head =
  slh_first :: ptr

record sl_entry =
  sle_next :: ptr

type_synonym sl_mem = "(sl_head, sl_entry) queue_mem"

section \<open>The macros\<close>

definition SLIST_HEAD_INITIALIZER :: sl_head where
  "SLIST_HEAD_INITIALIZER = \<lparr>slh_first = NULL\<rparr>"

definition SLIST_FIRST :: "nat \<Rightarrow> sl_mem \<Rightarrow> ptr res" where
  "SLIST_FIRST h m = res_bind (head_at m h) (\<lambda>x. Inr (slh_first x))"

definition SLIST_EMPTY :: "nat \<Rightarrow> sl_mem \<Rightarrow> bool res" where
  "SLIST_EMPTY h m = res_bind (head_at m h) (\<lambda>x. Inr (slh_first x = NULL))"

definition SLIST_NEXT :: "addr \<Rightarrow> sl_mem \<Rightarrow> ptr res" where
  "SLIST_NEXT elm m = res_bind (elm_at m elm) (\<lambda>x. Inr (sle_next x))"

text \<open>The two macros as the left-hand side of an assignment, and an assignment through \<open>varp\<close>.\<close>

abbreviation set_slh_first :: "nat \<Rightarrow> ptr \<Rightarrow> sl_mem \<Rightarrow> sl_mem res" where
  "set_slh_first h p \<equiv> set_head h (slh_first_update (\<lambda>_. p))"

abbreviation set_sle_next :: "addr \<Rightarrow> ptr \<Rightarrow> sl_mem \<Rightarrow> sl_mem res" where
  "set_sle_next a p \<equiv> set_elm a (sle_next_update (\<lambda>_. p))"

abbreviation sl_load :: "link \<Rightarrow> sl_mem \<Rightarrow> ptr res" where
  "sl_load \<equiv> load_ptr slh_first sle_next"

abbreviation sl_store :: "link \<Rightarrow> ptr \<Rightarrow> sl_mem \<Rightarrow> sl_mem res" where
  "sl_store \<equiv> store_ptr (\<lambda>p. slh_first_update (\<lambda>_. p)) (\<lambda>p. sle_next_update (\<lambda>_. p))"

definition QMD_SLIST_CHECK_PREVPTR :: "link \<Rightarrow> addr \<Rightarrow> sl_mem \<Rightarrow> unit res" where
  "QMD_SLIST_CHECK_PREVPTR prevp elm m =
     res_bind (sl_load prevp m) (\<lambda>p. c_assert (p = Some elm) (Inr ()))"

definition SLIST_INIT :: "nat \<Rightarrow> sl_mem \<Rightarrow> sl_mem res" where
  "SLIST_INIT h m = set_slh_first h NULL m"

definition SLIST_CONCAT :: "nat \<Rightarrow> nat \<Rightarrow> nat \<Rightarrow> sl_mem \<Rightarrow> sl_mem res" where
  "SLIST_CONCAT n h1 h2 m =
     res_bind (SLIST_FIRST h1 m) (\<lambda>curelm.
     res_bind (SLIST_FIRST h2 m) (\<lambda>first2.
       if curelm = NULL then
         res_bind (set_slh_first h1 first2 m) (\<lambda>m1. if first2 \<noteq> NULL then SLIST_INIT h2 m1 else Inr m1)
       else if first2 \<noteq> NULL then
         res_bind (find_last SLIST_NEXT n curelm m) (\<lambda>c.
         res_bind (set_sle_next c first2 m) (SLIST_INIT h2))
       else Inr m))"

definition SLIST_INSERT_AFTER :: "addr \<Rightarrow> addr \<Rightarrow> sl_mem \<Rightarrow> sl_mem res" where
  "SLIST_INSERT_AFTER slistelm elm m =
     res_bind (SLIST_NEXT slistelm m) (\<lambda>p.
     res_bind (set_sle_next elm p m) (set_sle_next slistelm (Some elm)))"

definition SLIST_INSERT_HEAD :: "nat \<Rightarrow> addr \<Rightarrow> sl_mem \<Rightarrow> sl_mem res" where
  "SLIST_INSERT_HEAD h elm m =
     res_bind (SLIST_FIRST h m) (\<lambda>p.
     res_bind (set_sle_next elm p m) (set_slh_first h (Some elm)))"

definition SLIST_REMOVE_AFTER :: "addr \<Rightarrow> sl_mem \<Rightarrow> sl_mem res" where
  "SLIST_REMOVE_AFTER elm m =
     res_bind (SLIST_NEXT elm m) (\<lambda>p. res_bind (deref p) (\<lambda>x.
     res_bind (SLIST_NEXT x m) (\<lambda>q. set_sle_next elm q m)))"

definition SLIST_REMOVE_HEAD :: "nat \<Rightarrow> sl_mem \<Rightarrow> sl_mem res" where
  "SLIST_REMOVE_HEAD h m =
     res_bind (SLIST_FIRST h m) (\<lambda>p. res_bind (deref p) (\<lambda>x.
     res_bind (SLIST_NEXT x m) (\<lambda>q. set_slh_first h q m)))"

definition SLIST_REMOVE :: "nat \<Rightarrow> nat \<Rightarrow> addr \<Rightarrow> sl_mem \<Rightarrow> sl_mem res" where
  "SLIST_REMOVE n h elm m =
     res_bind (SLIST_FIRST h m) (\<lambda>p.
       if p = Some elm then SLIST_REMOVE_HEAD h m
       else res_bind (find_prev SLIST_NEXT n elm p m) (\<lambda>curelm. SLIST_REMOVE_AFTER curelm m))"

definition SLIST_REMOVE_PREVPTR :: "link \<Rightarrow> addr \<Rightarrow> sl_mem \<Rightarrow> sl_mem res" where
  "SLIST_REMOVE_PREVPTR prevp elm m = res_bind (SLIST_NEXT elm m) (\<lambda>p. sl_store prevp p m)"

definition SLIST_SWAP :: "nat \<Rightarrow> nat \<Rightarrow> sl_mem \<Rightarrow> sl_mem res" where
  "SLIST_SWAP h1 h2 m =
     res_bind (SLIST_FIRST h1 m) (\<lambda>swap_first.
     res_bind (SLIST_FIRST h2 m) (\<lambda>p.
     res_bind (set_slh_first h1 p m) (set_slh_first h2 swap_first)))"

section \<open>Iteration\<close>

definition SLIST_FOREACH :: "('m \<Rightarrow> sl_mem) \<Rightarrow> nat \<Rightarrow> (addr \<Rightarrow> 'm \<Rightarrow> 'm res) \<Rightarrow> nat \<Rightarrow> 'm \<Rightarrow> 'm res" where
  "SLIST_FOREACH mem h body n m =
     res_bind (SLIST_FIRST h (mem m)) (\<lambda>var. foreach_from (\<lambda>x m. SLIST_NEXT x (mem m)) body n var m)"

definition SLIST_FOREACH_FROM ::
  "('m \<Rightarrow> sl_mem) \<Rightarrow> ptr \<Rightarrow> nat \<Rightarrow> (addr \<Rightarrow> 'm \<Rightarrow> 'm res) \<Rightarrow> nat \<Rightarrow> 'm \<Rightarrow> 'm res" where
  "SLIST_FOREACH_FROM mem var h body n m =
     res_bind (start_at (\<lambda>m. SLIST_FIRST h (mem m)) var m)
       (\<lambda>var. foreach_from (\<lambda>x m. SLIST_NEXT x (mem m)) body n var m)"

definition SLIST_FOREACH_SAFE :: "('m \<Rightarrow> sl_mem) \<Rightarrow> nat \<Rightarrow> (addr \<Rightarrow> 'm \<Rightarrow> 'm res) \<Rightarrow> nat \<Rightarrow> 'm \<Rightarrow> 'm res" where
  "SLIST_FOREACH_SAFE mem h body n m =
     res_bind (SLIST_FIRST h (mem m)) (\<lambda>var. foreach_safe_from (\<lambda>x m. SLIST_NEXT x (mem m)) body n var m)"

definition SLIST_FOREACH_FROM_SAFE ::
  "('m \<Rightarrow> sl_mem) \<Rightarrow> ptr \<Rightarrow> nat \<Rightarrow> (addr \<Rightarrow> 'm \<Rightarrow> 'm res) \<Rightarrow> nat \<Rightarrow> 'm \<Rightarrow> 'm res" where
  "SLIST_FOREACH_FROM_SAFE mem var h body n m =
     res_bind (start_at (\<lambda>m. SLIST_FIRST h (mem m)) var m)
       (\<lambda>var. foreach_safe_from (\<lambda>x m. SLIST_NEXT x (mem m)) body n var m)"

text \<open>
  \<open>SLIST_FOREACH_PREVPTR\<close> runs the body with the address \<open>varp\<close> of the pointer to the element.
\<close>

fun prevptr_from ::
  "('m \<Rightarrow> sl_mem) \<Rightarrow> (link \<Rightarrow> addr \<Rightarrow> 'm \<Rightarrow> 'm res) \<Rightarrow> nat \<Rightarrow> link \<Rightarrow> 'm \<Rightarrow> 'm res" where
  "prevptr_from mem body 0 varp m = Inl No_Return"
| "prevptr_from mem body (Suc n) varp m =
     res_bind (sl_load varp (mem m)) (\<lambda>var. case var of
         None \<Rightarrow> Inr m
       | Some x \<Rightarrow> res_bind (body varp x m) (prevptr_from mem body n (Next_of x)))"

definition SLIST_FOREACH_PREVPTR ::
  "('m \<Rightarrow> sl_mem) \<Rightarrow> nat \<Rightarrow> (link \<Rightarrow> addr \<Rightarrow> 'm \<Rightarrow> 'm res) \<Rightarrow> nat \<Rightarrow> 'm \<Rightarrow> 'm res" where
  "SLIST_FOREACH_PREVPTR mem h body n m = prevptr_from mem body n (First_of h) m"

section \<open>Representation\<close>

definition slist :: "sl_mem \<Rightarrow> nat \<Rightarrow> addr list \<Rightarrow> bool" where
  "slist m h xs \<longleftrightarrow>
     heads m h = Some \<lparr>slh_first = hd_or xs NULL\<rparr> \<and> distinct xs \<and> chain sle_next (elms m) xs NULL"

interpretation sl: walk "\<lambda>m. slist m h" "SLIST_FIRST h" SLIST_NEXT for h
  by unfold_locales (auto simp: slist_def SLIST_FIRST_def SLIST_NEXT_def)

lemma slist_split:
  assumes "slist m h (ys @ x # zs)"
  shows "heads m h = Some \<lparr>slh_first = hd_or ys (Some x)\<rparr>" "distinct (ys @ x # zs)"
    "chain sle_next (elms m) ys (Some x)" "elms m x = Some \<lparr>sle_next = hd_or zs NULL\<rparr>"
    "chain sle_next (elms m) zs NULL"
proof -
  show "elms m x = Some \<lparr>sle_next = hd_or zs NULL\<rparr>"
    using assms by (auto simp: slist_def)
qed (use assms in \<open>simp_all add: slist_def\<close>)

text \<open>Redirecting the pointer at the end of a chain.\<close>

lemma sl_store_last:
  assumes "slist m h (ys @ zs)" "chain sle_next (elms m) ws NULL" "distinct (ys @ ws)"
  shows "\<exists>m'. sl_store (last_link (First_of h) ys) (hd_or ws NULL) m = Inr m' \<and> slist m' h (ys @ ws) \<and>
    q_frame h (set ys) m m'"
proof (cases ys rule: rev_cases)
  case Nil
  with assms show ?thesis by (simp add: store_ptr_def slist_def q_frame_def)
next
  case (snoc us u)
  then have "slist m h (us @ u # zs)" using assms(1) by simp
  note t = slist_split [OF this]
  have "(heads m)(h \<mapsto> \<lparr>slh_first = hd_or us (Some u)\<rparr>) = heads m" using t(1) by auto
  moreover have "distinct us" "u \<notin> set us" "u \<notin> set ws" "set us \<inter> set ws = {}" "distinct ws"
    using assms(3) snoc by auto
  ultimately show ?thesis
    using snoc assms(2) t(1,3,4) by (auto simp: store_ptr_def slist_def q_frame_def)
qed

lemma SLIST_INIT_ok: "heads m h = Some x \<Longrightarrow> \<exists>m'. SLIST_INIT h m = Inr m' \<and> slist m' h [] \<and> q_frame h {} m m'"
  by (cases x) (simp add: SLIST_INIT_def slist_def q_frame_def)

lemma SLIST_HEAD_INITIALIZER_ok: "heads m h = Some SLIST_HEAD_INITIALIZER \<Longrightarrow> slist m h []"
  by (simp add: slist_def SLIST_HEAD_INITIALIZER_def)

section \<open>The operations on the list\<close>

lemma SLIST_INSERT_HEAD_ok:
  assumes "slist m h xs" "elms m x \<noteq> None" "x \<notin> set xs"
  shows "\<exists>m'. SLIST_INSERT_HEAD h x m = Inr m' \<and> slist m' h (x # xs) \<and> q_frame h {x} m m'"
  using assms by (auto simp: SLIST_INSERT_HEAD_def SLIST_FIRST_def slist_def q_frame_def)

lemma SLIST_INSERT_AFTER_ok:
  assumes "slist m h (ys @ y # zs)" "elms m x \<noteq> None" "x \<notin> set (ys @ y # zs)"
  shows "\<exists>m'. SLIST_INSERT_AFTER y x m = Inr m' \<and> slist m' h (ys @ y # x # zs) \<and> q_frame h {x, y} m m'"
proof -
  note t = slist_split [OF assms(1)]
  obtain e where "elms m x = Some e" using assms(2) by auto
  with t assms(3) show ?thesis
    by (auto simp: SLIST_INSERT_AFTER_def SLIST_NEXT_def slist_def q_frame_def)
qed

lemma SLIST_REMOVE_HEAD_ok:
  assumes "slist m h (x # xs)"
  shows "\<exists>m'. SLIST_REMOVE_HEAD h m = Inr m' \<and> slist m' h xs \<and> q_frame h {} m m'"
  using assms by (auto simp: SLIST_REMOVE_HEAD_def SLIST_FIRST_def SLIST_NEXT_def slist_def q_frame_def)

lemma SLIST_REMOVE_AFTER_ok:
  assumes "slist m h (ys @ y # x # zs)"
  shows "\<exists>m'. SLIST_REMOVE_AFTER y m = Inr m' \<and> slist m' h (ys @ y # zs) \<and> q_frame h {y} m m'"
  using slist_split [OF assms] by (auto simp: SLIST_REMOVE_AFTER_def SLIST_NEXT_def slist_def q_frame_def)

lemma SLIST_REMOVE_ok:
  assumes "slist m h (ys @ x # zs)" "length ys \<le> n"
  shows "\<exists>m'. SLIST_REMOVE n h x m = Inr m' \<and> slist m' h (ys @ zs) \<and> q_frame h (set ys) m m'"
proof (cases ys rule: rev_cases)
  case Nil
  with assms SLIST_REMOVE_HEAD_ok [of m h x zs] sl.walk_first [OF assms(1)] show ?thesis
    by (auto simp: SLIST_REMOVE_def)
next
  case (snoc us u)
  with assms(1) have s: "slist m h (us @ u # x # zs)" by simp
  have "hd_or us (Some u) \<noteq> Some x" using sl.rep_distinct [OF s] by (cases us) auto
  moreover have "find_prev SLIST_NEXT n x (hd_or us (Some u)) m = Inr u"
    using sl.find_prev_ok [OF s] assms(2) snoc by simp
  moreover have "SLIST_FIRST h m = Inr (hd_or us (Some u))" using sl.walk_first [OF s] by simp
  ultimately show ?thesis
    using SLIST_REMOVE_AFTER_ok [OF s] snoc by (auto simp: SLIST_REMOVE_def q_frame_def)
qed

lemma SLIST_REMOVE_PREVPTR_ok:
  assumes "slist m h (ys @ x # zs)"
  shows "\<exists>m'. SLIST_REMOVE_PREVPTR (last_link (First_of h) ys) x m = Inr m' \<and> slist m' h (ys @ zs) \<and>
    q_frame h (set ys) m m'"
    and "QMD_SLIST_CHECK_PREVPTR (last_link (First_of h) ys) x m = Inr ()"
proof -
  note t = slist_split [OF assms]
  show "\<exists>m'. SLIST_REMOVE_PREVPTR (last_link (First_of h) ys) x m = Inr m' \<and> slist m' h (ys @ zs) \<and>
    q_frame h (set ys) m m'"
    using sl_store_last [OF assms t(5)] t(2) sl.walk_next [OF assms] by (simp add: SLIST_REMOVE_PREVPTR_def)
  show "QMD_SLIST_CHECK_PREVPTR (last_link (First_of h) ys) x m = Inr ()"
    using t(1,3) by (cases ys rule: rev_cases) (auto simp: QMD_SLIST_CHECK_PREVPTR_def load_ptr_def)
qed

lemma slist_frame:
  assumes "slist m h xs" "heads m' h = heads m h" "\<And>a. a \<in> set xs \<Longrightarrow> elms m' a = elms m a"
  shows "slist m' h xs"
  using assms chain_cong [of xs "elms m'" "elms m"] by (simp add: slist_def)

lemma SLIST_CONCAT_ok:
  assumes "slist m h1 xs" "slist m h2 ys" "h1 \<noteq> h2" "set xs \<inter> set ys = {}" "length xs \<le> n"
  shows "\<exists>m'. SLIST_CONCAT n h1 h2 m = Inr m' \<and> slist m' h1 (xs @ ys) \<and> slist m' h2 []"
proof (cases xs rule: rev_cases)
  case Nil
  with assms show ?thesis
    by (auto simp: SLIST_CONCAT_def SLIST_FIRST_def SLIST_INIT_def slist_def)
next
  case (snoc us u)
  note f = sl.walk_first [OF assms(1)] sl.walk_first [OF assms(2)]
  have c: "hd_or xs NULL = hd_or us (Some u)" "hd_or us (Some u) \<noteq> NULL" using snoc by (cases us; simp)+
  have l: "find_last SLIST_NEXT n (hd_or us (Some u)) m = Inr u"
    using sl.find_last_ok [of m h1 us u n] assms(1,5) snoc by simp
  have "chain sle_next (elms m) ys NULL" "distinct (xs @ ys)"
    using assms by (auto simp: slist_def)
  with sl_store_last [of m h1 xs "[]" ys] assms(1) obtain m1 where
    m1: "set_sle_next u (hd_or ys NULL) m = Inr m1" "slist m1 h1 (xs @ ys)" "q_frame h1 (set xs) m m1"
    by (auto simp: snoc store_ptr_def)
  show ?thesis
  proof (cases "ys = []")
    case True
    with f c l assms(1,2) show ?thesis by (auto simp: SLIST_CONCAT_def)
  next
    case False
    have "heads m1 h2 = Some \<lparr>slh_first = hd_or ys NULL\<rparr>"
      using assms(2,3) m1(3) by (auto simp: slist_def q_frame_def)
    from SLIST_INIT_ok [OF this] obtain m2 where
      m2: "SLIST_INIT h2 m1 = Inr m2" "slist m2 h2 []" "q_frame h2 {} m1 m2" by blast
    then have "slist m2 h1 (xs @ ys)"
      using slist_frame [OF m1(2)] assms(3) by (simp add: q_frame_def)
    with m1(1) m2(1,2) f c l False show ?thesis by (auto simp: SLIST_CONCAT_def)
  qed
qed

lemma SLIST_SWAP_ok:
  assumes "slist m h1 xs" "slist m h2 ys" "h1 \<noteq> h2"
  shows "\<exists>m'. SLIST_SWAP h1 h2 m = Inr m' \<and> slist m' h1 ys \<and> slist m' h2 xs"
  using assms by (auto simp: SLIST_SWAP_def SLIST_FIRST_def slist_def)

section \<open>Visiting the elements\<close>

interpretation slf: plain_loop "\<lambda>p. slist (fst p) h" "\<lambda>p. SLIST_FIRST h (fst p)" "\<lambda>x p. SLIST_NEXT x (fst p)"
  "user_body f" for h f
  by unfold_locales (auto simp: user_body_def res_iff sl.walk_first sl.walk_next sl.rep_distinct)

lemma slist_foreach_all:
  assumes "slist m h xs" "length xs \<le> n"
  shows "SLIST_FOREACH fst h (user_body f) n (m, s) = res_bind (fold_res f xs s) (\<lambda>s'. Inr (m, s'))"
    "SLIST_FOREACH_SAFE fst h (user_body f) n (m, s) = res_bind (fold_res f xs s) (\<lambda>s'. Inr (m, s'))"
  using slf.plain_from [where m = "(m, s)" and h = h and ys = "[]" and zs = xs and n = n and f = f]
    slf.plain_safe_from [where m = "(m, s)" and h = h and ys = "[]" and zs = xs and n = n and f = f]
    sl.walk_first [OF assms(1)] assms
  by (simp_all add: SLIST_FOREACH_def SLIST_FOREACH_SAFE_def fold_user_body)

lemma slist_foreach_from:
  assumes "slist m h (ys @ x # zs)" "length zs < n"
  shows "SLIST_FOREACH_FROM fst (Some x) h (user_body f) n (m, s) =
      res_bind (fold_res f (x # zs) s) (\<lambda>s'. Inr (m, s'))"
    "SLIST_FOREACH_FROM_SAFE fst (Some x) h (user_body f) n (m, s) =
      res_bind (fold_res f (x # zs) s) (\<lambda>s'. Inr (m, s'))"
  using slf.plain_from [where m = "(m, s)" and h = h and ys = ys and zs = "x # zs" and n = n and f = f]
    slf.plain_safe_from [where m = "(m, s)" and h = h and ys = ys and zs = "x # zs" and n = n and f = f] assms
  by (simp_all add: SLIST_FOREACH_FROM_def SLIST_FOREACH_FROM_SAFE_def start_at_def fold_user_body
      flip: fold_res.simps(2))

text \<open>
  \<open>SLIST_FOREACH_PREVPTR\<close> hands out every element with the address of the pointer to it, which
  is the address \<open>SLIST_REMOVE_PREVPTR\<close> needs.
\<close>

fun fold_links :: "(link \<Rightarrow> addr \<Rightarrow> 's \<Rightarrow> 's res) \<Rightarrow> link \<Rightarrow> addr list \<Rightarrow> 's \<Rightarrow> 's res" where
  "fold_links f l [] s = Inr s"
| "fold_links f l (x # xs) s = res_bind (f l x s) (fold_links f (Next_of x) xs)"

lemma sl_load_last:
  assumes "slist m h (ys @ zs)"
  shows "sl_load (last_link (First_of h) ys) m = Inr (hd_or zs NULL)"
proof (cases ys rule: rev_cases)
  case Nil
  with assms show ?thesis by (simp add: load_ptr_def slist_def)
next
  case (snoc us u)
  with slist_split(4) [of m h us u zs] assms show ?thesis by (simp add: load_ptr_def)
qed

lemma slist_foreach_prevptr:
  assumes "slist m h xs" "length xs < n"
  shows "SLIST_FOREACH_PREVPTR fst h (\<lambda>varp. user_body (f varp)) n (m, s) =
    res_bind (fold_links f (First_of h) xs s) (\<lambda>s'. Inr (m, s'))"
proof -
  have "prevptr_from fst (\<lambda>varp. user_body (f varp)) n (last_link (First_of h) ys) (m, s) =
      res_bind (fold_links f (last_link (First_of h) ys) zs s) (\<lambda>s'. Inr (m, s'))"
    if "xs = ys @ zs" "length zs < n" for ys zs
    using that
  proof (induction zs arbitrary: ys n s)
    case Nil
    then show ?case using sl_load_last [of m h ys "[]"] assms(1) by (cases n) simp_all
  next
    case (Cons z zs)
    then obtain k where k: "n = Suc k" "length zs < k" by (cases n) auto
    with Cons.IH [of "ys @ [z]" k] Cons.prems(1) sl_load_last [of m h ys "z # zs"] assms(1) show ?case
      by (cases "f (last_link (First_of h) ys) z s") (simp_all add: user_body_def)
  qed
  from this [of "[]" xs] assms(2) show ?thesis by (simp add: SLIST_FOREACH_PREVPTR_def)
qed

section \<open>Properties\<close>

text \<open>List 0 holds the elements 1 and 2, list 1 the element 3; element 4 is in none.\<close>

definition sl_example :: sl_mem where
  "sl_example =
     \<lparr>heads = [0 \<mapsto> \<lparr>slh_first = Some 1\<rparr>, 1 \<mapsto> \<lparr>slh_first = Some 3\<rparr>],
      elms = [1 \<mapsto> \<lparr>sle_next = Some 2\<rparr>, 2 \<mapsto> \<lparr>sle_next = NULL\<rparr>, 3 \<mapsto> \<lparr>sle_next = NULL\<rparr>,
              4 \<mapsto> \<lparr>sle_next = NULL\<rparr>]\<rparr>"

lemma sl_example_rep: "slist sl_example 0 [1, 2]" "slist sl_example 1 [3]"
  by (simp_all add: slist_def sl_example_def)

text \<open>
  Removal from a singly linked list by search. When the element is in the
  list, the search ends after fewer rounds than there are elements and exactly this element leaves
  the list, with other lists and all elements outside this one untouched. When it is not, the
  search runs off the end and dereferences the null pointer: the macro has no other way to stop.
\<close>

lemma slist_remove_correct:
  assumes "slist m h xs" "length xs < n"
  shows "if x \<in> set xs
    then \<exists>m'. SLIST_REMOVE n h x m = Inr m' \<and> slist m' h (remove1 x xs) \<and> q_frame h (set (remove1 x xs)) m m'
    else SLIST_REMOVE n h x m = Inl Null_Deref"
proof (cases "x \<in> set xs")
  case True
  then obtain ys zs where xs: "xs = ys @ x # zs" by (meson split_list)
  then have "x \<notin> set ys" using sl.rep_distinct [OF assms(1)] by simp
  then have "remove1 x xs = ys @ zs" by (simp add: xs remove1_append)
  with SLIST_REMOVE_ok [of m h ys x zs n] assms True show ?thesis by (auto simp: xs q_frame_def)
next
  case False
  then have "hd_or xs NULL \<noteq> Some x" by (cases xs) auto
  with False sl.walk_first [OF assms(1)] sl.find_prev_absent [OF assms(1) False assms(2)] show ?thesis
    by (simp add: SLIST_REMOVE_def)
qed

end
