(* ===== verification/List_Queue.thy ===== *)
theory List_Queue
  imports Queue_Memory
begin

text \<open>
  The doubly linked list macros (\<open>LIST\<close>) of \<open>server/queue.h\<close>. A head holds the pointer to the
  first element; an element holds the pointer to the next and the address of the pointer to
  itself, so that it can be removed without its head. \<open>LIST_CONCAT\<close> searches the end of the
  first list; \<open>n\<close> bounds the rounds.
\<close>

section \<open>Data\<close>

record le_head =
  lh_first :: ptr

record le_entry =
  le_next :: ptr
  le_prev :: link

type_synonym le_mem = "(le_head, le_entry) queue_mem"

section \<open>The macros\<close>

definition LIST_HEAD_INITIALIZER :: le_head where
  "LIST_HEAD_INITIALIZER = \<lparr>lh_first = NULL\<rparr>"

definition LIST_FIRST :: "nat \<Rightarrow> le_mem \<Rightarrow> ptr res" where
  "LIST_FIRST h m = res_bind (head_at m h) (\<lambda>x. Inr (lh_first x))"

definition LIST_EMPTY :: "nat \<Rightarrow> le_mem \<Rightarrow> bool res" where
  "LIST_EMPTY h m = res_bind (head_at m h) (\<lambda>x. Inr (lh_first x = NULL))"

definition LIST_NEXT :: "addr \<Rightarrow> le_mem \<Rightarrow> ptr res" where
  "LIST_NEXT elm m = res_bind (elm_at m elm) (\<lambda>x. Inr (le_next x))"

abbreviation set_lh_first :: "nat \<Rightarrow> ptr \<Rightarrow> le_mem \<Rightarrow> le_mem res" where
  "set_lh_first h p \<equiv> set_head h (lh_first_update (\<lambda>_. p))"

abbreviation set_le_next :: "addr \<Rightarrow> ptr \<Rightarrow> le_mem \<Rightarrow> le_mem res" where
  "set_le_next a p \<equiv> set_elm a (le_next_update (\<lambda>_. p))"

abbreviation set_le_prev :: "addr \<Rightarrow> link \<Rightarrow> le_mem \<Rightarrow> le_mem res" where
  "set_le_prev a l \<equiv> set_elm a (le_prev_update (\<lambda>_. l))"

text \<open>\<open>*l\<close>, \<open>*l = p\<close>, and \<open>if (p != NULL) p->field.le_prev = l\<close>\<close>

abbreviation le_load :: "link \<Rightarrow> le_mem \<Rightarrow> ptr res" where
  "le_load \<equiv> load_ptr lh_first le_next"

abbreviation le_store :: "link \<Rightarrow> ptr \<Rightarrow> le_mem \<Rightarrow> le_mem res" where
  "le_store \<equiv> store_ptr (\<lambda>p. lh_first_update (\<lambda>_. p)) (\<lambda>p. le_next_update (\<lambda>_. p))"

definition link_back :: "ptr \<Rightarrow> link \<Rightarrow> le_mem \<Rightarrow> le_mem res" where
  "link_back p l m = (case p of None \<Rightarrow> Inr m | Some f \<Rightarrow> set_le_prev f l m)"

text \<open>The checks of kernels built with \<open>INVARIANTS\<close>; a \<open>panic\<close> is a failed assertion.\<close>

definition QMD_LIST_CHECK_HEAD :: "nat \<Rightarrow> le_mem \<Rightarrow> unit res" where
  "QMD_LIST_CHECK_HEAD h m =
     res_bind (LIST_FIRST h m) (\<lambda>p. case p of
         None \<Rightarrow> Inr ()
       | Some f \<Rightarrow> res_bind (elm_at m f) (\<lambda>e. c_assert (le_prev e = First_of h) (Inr ())))"

definition QMD_LIST_CHECK_NEXT :: "addr \<Rightarrow> le_mem \<Rightarrow> unit res" where
  "QMD_LIST_CHECK_NEXT elm m =
     res_bind (LIST_NEXT elm m) (\<lambda>p. case p of
         None \<Rightarrow> Inr ()
       | Some f \<Rightarrow> res_bind (elm_at m f) (\<lambda>e. c_assert (le_prev e = Next_of elm) (Inr ())))"

definition QMD_LIST_CHECK_PREV :: "addr \<Rightarrow> le_mem \<Rightarrow> unit res" where
  "QMD_LIST_CHECK_PREV elm m =
     res_bind (elm_at m elm) (\<lambda>x. res_bind (le_load (le_prev x) m) (\<lambda>p. c_assert (p = Some elm) (Inr ())))"

definition LIST_INIT :: "nat \<Rightarrow> le_mem \<Rightarrow> le_mem res" where
  "LIST_INIT h m = set_lh_first h NULL m"

definition LIST_CONCAT :: "nat \<Rightarrow> nat \<Rightarrow> nat \<Rightarrow> le_mem \<Rightarrow> le_mem res" where
  "LIST_CONCAT n h1 h2 m =
     res_bind (LIST_FIRST h1 m) (\<lambda>curelm.
     res_bind (LIST_FIRST h2 m) (\<lambda>first2.
       if curelm = NULL then
         res_bind (set_lh_first h1 first2 m) (\<lambda>m1.
           if first2 \<noteq> NULL then res_bind (link_back first2 (First_of h1) m1) (LIST_INIT h2) else Inr m1)
       else if first2 \<noteq> NULL then
         res_bind (find_last LIST_NEXT n curelm m) (\<lambda>c.
         res_bind (set_le_next c first2 m) (\<lambda>m1.
         res_bind (link_back first2 (Next_of c) m1) (LIST_INIT h2)))
       else Inr m))"

definition LIST_INSERT_AFTER :: "addr \<Rightarrow> addr \<Rightarrow> le_mem \<Rightarrow> le_mem res" where
  "LIST_INSERT_AFTER listelm elm m =
     res_bind (LIST_NEXT listelm m) (\<lambda>p.
     res_bind (set_le_next elm p m) (\<lambda>m1.
     res_bind (link_back p (Next_of elm) m1) (\<lambda>m2.
     res_bind (set_le_next listelm (Some elm) m2) (set_le_prev elm (Next_of listelm)))))"

definition LIST_INSERT_BEFORE :: "addr \<Rightarrow> addr \<Rightarrow> le_mem \<Rightarrow> le_mem res" where
  "LIST_INSERT_BEFORE listelm elm m =
     res_bind (elm_at m listelm) (\<lambda>e.
     res_bind (set_le_prev elm (le_prev e) m) (\<lambda>m1.
     res_bind (set_le_next elm (Some listelm) m1) (\<lambda>m2.
     res_bind (elm_at m2 listelm) (\<lambda>e2.
     res_bind (le_store (le_prev e2) (Some elm) m2) (set_le_prev listelm (Next_of elm))))))"

definition LIST_INSERT_HEAD :: "nat \<Rightarrow> addr \<Rightarrow> le_mem \<Rightarrow> le_mem res" where
  "LIST_INSERT_HEAD h elm m =
     res_bind (LIST_FIRST h m) (\<lambda>p.
     res_bind (set_le_next elm p m) (\<lambda>m1.
     res_bind (link_back p (Next_of elm) m1) (\<lambda>m2.
     res_bind (set_lh_first h (Some elm) m2) (set_le_prev elm (First_of h)))))"

definition LIST_PREV :: "addr \<Rightarrow> nat \<Rightarrow> le_mem \<Rightarrow> ptr res" where
  "LIST_PREV elm h m =
     res_bind (elm_at m elm) (\<lambda>x.
       if le_prev x = First_of h then Inr NULL
       else res_bind (container_of (le_prev x)) (\<lambda>a. Inr (Some a)))"

definition LIST_REMOVE :: "addr \<Rightarrow> le_mem \<Rightarrow> le_mem res" where
  "LIST_REMOVE elm m =
     res_bind (elm_at m elm) (\<lambda>e.
     res_bind (link_back (le_next e) (le_prev e) m) (\<lambda>m1.
     res_bind (elm_at m1 elm) (\<lambda>e1. le_store (le_prev e1) (le_next e1) m1)))"

definition LIST_REMOVE_HEAD :: "nat \<Rightarrow> le_mem \<Rightarrow> le_mem res" where
  "LIST_REMOVE_HEAD h m =
     res_bind (LIST_FIRST h m) (\<lambda>p. res_bind (deref p) (\<lambda>f. LIST_REMOVE f m))"

definition LIST_REPLACE :: "addr \<Rightarrow> addr \<Rightarrow> le_mem \<Rightarrow> le_mem res" where
  "LIST_REPLACE elm elm2 m =
     res_bind (elm_at m elm) (\<lambda>e.
     res_bind (set_le_next elm2 (le_next e) m) (\<lambda>m1.
     res_bind (link_back (le_next e) (Next_of elm2) m1) (\<lambda>m2.
     res_bind (elm_at m2 elm) (\<lambda>e2.
     res_bind (set_le_prev elm2 (le_prev e2) m2) (\<lambda>m3.
     res_bind (elm_at m3 elm2) (\<lambda>e3. le_store (le_prev e3) (Some elm2) m3))))))"

definition LIST_SWAP :: "nat \<Rightarrow> nat \<Rightarrow> le_mem \<Rightarrow> le_mem res" where
  "LIST_SWAP h1 h2 m =
     res_bind (LIST_FIRST h1 m) (\<lambda>swap_tmp.
     res_bind (LIST_FIRST h2 m) (\<lambda>p.
     res_bind (set_lh_first h1 p m) (\<lambda>m1.
     res_bind (set_lh_first h2 swap_tmp m1) (\<lambda>m2.
     res_bind (LIST_FIRST h1 m2) (\<lambda>t1.
     res_bind (link_back t1 (First_of h1) m2) (\<lambda>m3.
     res_bind (LIST_FIRST h2 m3) (\<lambda>t2. link_back t2 (First_of h2) m3)))))))"

section \<open>Iteration\<close>

definition LIST_FOREACH :: "('m \<Rightarrow> le_mem) \<Rightarrow> nat \<Rightarrow> (addr \<Rightarrow> 'm \<Rightarrow> 'm res) \<Rightarrow> nat \<Rightarrow> 'm \<Rightarrow> 'm res" where
  "LIST_FOREACH mem h body n m =
     res_bind (LIST_FIRST h (mem m)) (\<lambda>var. foreach_from (\<lambda>x m. LIST_NEXT x (mem m)) body n var m)"

definition LIST_FOREACH_FROM ::
  "('m \<Rightarrow> le_mem) \<Rightarrow> ptr \<Rightarrow> nat \<Rightarrow> (addr \<Rightarrow> 'm \<Rightarrow> 'm res) \<Rightarrow> nat \<Rightarrow> 'm \<Rightarrow> 'm res" where
  "LIST_FOREACH_FROM mem var h body n m =
     res_bind (start_at (\<lambda>m. LIST_FIRST h (mem m)) var m)
       (\<lambda>var. foreach_from (\<lambda>x m. LIST_NEXT x (mem m)) body n var m)"

definition LIST_FOREACH_SAFE :: "('m \<Rightarrow> le_mem) \<Rightarrow> nat \<Rightarrow> (addr \<Rightarrow> 'm \<Rightarrow> 'm res) \<Rightarrow> nat \<Rightarrow> 'm \<Rightarrow> 'm res" where
  "LIST_FOREACH_SAFE mem h body n m =
     res_bind (LIST_FIRST h (mem m)) (\<lambda>var. foreach_safe_from (\<lambda>x m. LIST_NEXT x (mem m)) body n var m)"

definition LIST_FOREACH_FROM_SAFE ::
  "('m \<Rightarrow> le_mem) \<Rightarrow> ptr \<Rightarrow> nat \<Rightarrow> (addr \<Rightarrow> 'm \<Rightarrow> 'm res) \<Rightarrow> nat \<Rightarrow> 'm \<Rightarrow> 'm res" where
  "LIST_FOREACH_FROM_SAFE mem var h body n m =
     res_bind (start_at (\<lambda>m. LIST_FIRST h (mem m)) var m)
       (\<lambda>var. foreach_safe_from (\<lambda>x m. LIST_NEXT x (mem m)) body n var m)"

section \<open>Representation\<close>

fun le_seg :: "(addr \<rightharpoonup> le_entry) \<Rightarrow> link \<Rightarrow> addr list \<Rightarrow> ptr \<Rightarrow> bool" where
  "le_seg E l [] n = True"
| "le_seg E l (x # xs) n =
     (E x = Some \<lparr>le_next = hd_or xs n, le_prev = l\<rparr> \<and> le_seg E (Next_of x) xs n)"

definition dlist :: "le_mem \<Rightarrow> nat \<Rightarrow> addr list \<Rightarrow> bool" where
  "dlist m h xs \<longleftrightarrow>
     heads m h = Some \<lparr>lh_first = hd_or xs NULL\<rparr> \<and> distinct xs \<and> le_seg (elms m) (First_of h) xs NULL"

lemma le_seg_append [simp]:
  "le_seg E l (xs @ ys) n \<longleftrightarrow> le_seg E l xs (hd_or ys n) \<and> le_seg E (last_link l xs) ys n"
  by (induction xs arbitrary: l) auto

lemma le_seg_cong: "(\<And>x. x \<in> set xs \<Longrightarrow> E' x = E x) \<Longrightarrow> le_seg E' l xs n = le_seg E l xs n"
  by (induction xs arbitrary: l) auto

lemma le_seg_agree:
  "le_seg E l xs n \<Longrightarrow> (\<And>x. x \<in> set xs \<Longrightarrow> E' x = E x) \<Longrightarrow> le_seg E' l xs n"
  using le_seg_cong [of xs E' E l n] by blast

lemma le_seg_upd [simp]: "a \<notin> set xs \<Longrightarrow> le_seg (E(a := e)) l xs n = le_seg E l xs n"
  by (rule le_seg_cong) auto

lemma dlist_split:
  assumes "dlist m h (ys @ x # zs)"
  shows "heads m h = Some \<lparr>lh_first = hd_or ys (Some x)\<rparr>" "distinct (ys @ x # zs)"
    "le_seg (elms m) (First_of h) ys (Some x)"
    "elms m x = Some \<lparr>le_next = hd_or zs NULL, le_prev = last_link (First_of h) ys\<rparr>"
    "le_seg (elms m) (Next_of x) zs NULL"
  using assms by (auto simp: dlist_def)

interpretation dl: walk "\<lambda>m. dlist m h" "LIST_FIRST h" LIST_NEXT for h
  by unfold_locales (auto simp: dlist_def LIST_FIRST_def LIST_NEXT_def)

lemma LIST_PREV_ok:
  assumes "dlist m h (ys @ x # zs)"
  shows "LIST_PREV x h m = Inr (if ys = [] then NULL else Some (last ys))"
  using dlist_split(4) [OF assms] by (auto simp: LIST_PREV_def last_link_def)

text \<open>Redirecting the last pointer of a chain, and the back link of the first element of one.\<close>

lemma le_store_last:
  assumes "heads m h = Some \<lparr>lh_first = hd_or ys n\<rparr>" "distinct ys" "le_seg (elms m) (First_of h) ys n"
  shows "\<exists>m'. le_store (last_link (First_of h) ys) p m = Inr m' \<and>
    heads m' = (heads m)(h \<mapsto> \<lparr>lh_first = hd_or ys p\<rparr>) \<and> le_seg (elms m') (First_of h) ys p \<and>
    (\<forall>a. a \<notin> set ys \<longrightarrow> elms m' a = elms m a) \<and> dom (elms m') = dom (elms m)"
proof (cases ys rule: rev_cases)
  case Nil
  with assms show ?thesis by (simp add: store_ptr_def)
next
  case (snoc us u)
  have "hd_or ys n = hd_or ys p" using snoc by (cases us) simp_all
  then have "heads m = (heads m)(h \<mapsto> \<lparr>lh_first = hd_or ys p\<rparr>)" using assms(1) by auto
  with assms snoc show ?thesis by (auto simp: store_ptr_def)
qed

lemma link_back_ok:
  assumes "distinct zs" "le_seg (elms m) l zs NULL"
  shows "\<exists>m'. link_back (hd_or zs NULL) l' m = Inr m' \<and> heads m' = heads m \<and>
    le_seg (elms m') l' zs NULL \<and> (\<forall>a. a \<notin> set zs \<longrightarrow> elms m' a = elms m a) \<and> dom (elms m') = dom (elms m)"
  using assms by (cases zs) (auto simp: link_back_def)

text \<open>Two halves and the element between them make a list.\<close>

lemma dlist_join:
  assumes "heads m h = Some \<lparr>lh_first = hd_or ys (Some x)\<rparr>" "distinct (ys @ x # zs)"
    "le_seg (elms m) (First_of h) ys (Some x)"
    "elms m x = Some \<lparr>le_next = hd_or zs NULL, le_prev = last_link (First_of h) ys\<rparr>"
    "le_seg (elms m) (Next_of x) zs NULL"
  shows "dlist m h (ys @ x # zs)"
  using assms by (simp add: dlist_def)

section \<open>The operations on the list\<close>

lemma LIST_INIT_ok: "heads m h = Some x \<Longrightarrow> \<exists>m'. LIST_INIT h m = Inr m' \<and> dlist m' h [] \<and> q_frame h {} m m'"
  by (cases x) (simp add: LIST_INIT_def dlist_def q_frame_def)

lemma LIST_HEAD_INITIALIZER_ok: "heads m h = Some LIST_HEAD_INITIALIZER \<Longrightarrow> dlist m h []"
  by (simp add: dlist_def LIST_HEAD_INITIALIZER_def)

lemma dlist_frame:
  assumes "dlist m h xs" "heads m' h = heads m h" "\<And>a. a \<in> set xs \<Longrightarrow> elms m' a = elms m a"
  shows "dlist m' h xs"
  using assms le_seg_agree [of "elms m" "First_of h" xs NULL "elms m'"] by (simp add: dlist_def)

lemma LIST_REMOVE_ok:
  assumes "dlist m h (ys @ x # zs)"
  shows "\<exists>m'. LIST_REMOVE x m = Inr m' \<and> dlist m' h (ys @ zs) \<and> q_frame h (set (ys @ zs)) m m'"
proof -
  note t = dlist_split [OF assms]
  let ?l = "last_link (First_of h) ys"
  have "distinct zs" using t(2) by simp
  from link_back_ok [OF this t(5), of ?l] obtain m1 where
    m1: "link_back (hd_or zs NULL) ?l m = Inr m1" "heads m1 = heads m" "le_seg (elms m1) ?l zs NULL"
    "\<forall>a. a \<notin> set zs \<longrightarrow> elms m1 a = elms m a" "dom (elms m1) = dom (elms m)" by blast
  have x1: "elms m1 x = Some \<lparr>le_next = hd_or zs NULL, le_prev = ?l\<rparr>" using m1(4) t(2,4) by simp
  have "le_seg (elms m1) (First_of h) ys (Some x)"
    by (rule le_seg_agree [OF t(3)]) (use m1(4) t(2) in auto)
  with le_store_last [of m1 h ys "Some x" "hd_or zs NULL"] m1(2) t(1,2) obtain m2 where
    m2: "le_store ?l (hd_or zs NULL) m1 = Inr m2" "heads m2 = (heads m)(h \<mapsto> \<lparr>lh_first = hd_or ys (hd_or zs NULL)\<rparr>)"
    "le_seg (elms m2) (First_of h) ys (hd_or zs NULL)" "\<forall>a. a \<notin> set ys \<longrightarrow> elms m2 a = elms m1 a"
    "dom (elms m2) = dom (elms m1)" by auto
  have "le_seg (elms m2) ?l zs NULL" by (rule le_seg_agree [OF m1(3)]) (use m2(4) t(2) in auto)
  then have "dlist m2 h (ys @ zs)" using m2(2,3) t(2) by (simp add: dlist_def)
  moreover have "q_frame h (set (ys @ zs)) m m2" using m1 m2 by (auto simp: q_frame_def)
  moreover have "LIST_REMOVE x m = Inr m2" using t(4) m1(1) x1 m2(1) by (simp add: LIST_REMOVE_def)
  ultimately show ?thesis by blast
qed

lemma LIST_REMOVE_HEAD_ok:
  assumes "dlist m h (x # xs)"
  shows "\<exists>m'. LIST_REMOVE_HEAD h m = Inr m' \<and> dlist m' h xs \<and> q_frame h (set xs) m m'"
  using LIST_REMOVE_ok [of m h "[]" x xs] assms dl.walk_first [OF assms]
  by (auto simp: LIST_REMOVE_HEAD_def)

lemma LIST_INSERT_HEAD_ok:
  assumes "dlist m h xs" "elms m x \<noteq> None" "x \<notin> set xs"
  shows "\<exists>m'. LIST_INSERT_HEAD h x m = Inr m' \<and> dlist m' h (x # xs) \<and> q_frame h (set (x # xs)) m m'"
proof -
  obtain e where e: "elms m x = Some e" using assms(2) by auto
  have t: "heads m h = Some \<lparr>lh_first = hd_or xs NULL\<rparr>" "distinct xs" "le_seg (elms m) (First_of h) xs NULL"
    using assms(1) by (simp_all add: dlist_def)
  let ?m1 = "m\<lparr>elms := (elms m)(x \<mapsto> e\<lparr>le_next := hd_or xs NULL\<rparr>)\<rparr>"
  have "le_seg (elms ?m1) (First_of h) xs NULL" using t(3) assms(3) by simp
  from link_back_ok [OF t(2) this, of "Next_of x"] obtain m2 where
    m2: "link_back (hd_or xs NULL) (Next_of x) ?m1 = Inr m2" "heads m2 = heads m"
    "le_seg (elms m2) (Next_of x) xs NULL" "\<forall>a. a \<notin> set xs \<longrightarrow> elms m2 a = elms ?m1 a"
    "dom (elms m2) = dom (elms ?m1)" by auto
  have "elms m2 x = Some (e\<lparr>le_next := hd_or xs NULL\<rparr>)" using m2(4) assms(3) by simp
  with t(1,2) e m2 assms(3) show ?thesis
    by (cases e) (auto simp: LIST_INSERT_HEAD_def LIST_FIRST_def dlist_def q_frame_def)
qed

lemma LIST_INSERT_AFTER_ok:
  assumes "dlist m h (ys @ y # zs)" "elms m x \<noteq> None" "x \<notin> set (ys @ y # zs)"
  shows "\<exists>m'. LIST_INSERT_AFTER y x m = Inr m' \<and> dlist m' h (ys @ y # x # zs) \<and>
    q_frame h (set (y # x # zs)) m m'"
proof -
  obtain e where e: "elms m x = Some e" using assms(2) by auto
  note t = dlist_split [OF assms(1)]
  let ?m1 = "m\<lparr>elms := (elms m)(x \<mapsto> e\<lparr>le_next := hd_or zs NULL\<rparr>)\<rparr>"
  have "distinct zs" "le_seg (elms ?m1) (Next_of y) zs NULL" using t(2,5) assms(3) by simp_all
  from link_back_ok [OF this, of "Next_of x"] obtain m2 where
    m2: "link_back (hd_or zs NULL) (Next_of x) ?m1 = Inr m2" "heads m2 = heads m"
    "le_seg (elms m2) (Next_of x) zs NULL" "\<forall>a. a \<notin> set zs \<longrightarrow> elms m2 a = elms ?m1 a"
    "dom (elms m2) = dom (elms ?m1)" by auto
  have xy: "elms m2 x = Some (e\<lparr>le_next := hd_or zs NULL\<rparr>)"
    "elms m2 y = Some \<lparr>le_next = hd_or zs NULL, le_prev = last_link (First_of h) ys\<rparr>" "x \<noteq> y"
    using m2(4) assms(3) t(2,4) by auto
  have "le_seg (elms m2) (First_of h) ys (Some y)"
    by (rule le_seg_agree [OF t(3)]) (use m2(4) assms(3) t(2) in auto)
  with t(1,2) t(4) e m2 xy assms(3) show ?thesis
    by (cases e) (auto simp: LIST_INSERT_AFTER_def LIST_NEXT_def dlist_def q_frame_def)
qed

lemma LIST_INSERT_BEFORE_ok:
  assumes "dlist m h (ys @ y # zs)" "elms m x \<noteq> None" "x \<notin> set (ys @ y # zs)"
  shows "\<exists>m'. LIST_INSERT_BEFORE y x m = Inr m' \<and> dlist m' h (ys @ x # y # zs) \<and>
    q_frame h (set (ys @ [x, y])) m m'"
proof -
  obtain e where e: "elms m x = Some e" using assms(2) by auto
  note t = dlist_split [OF assms(1)]
  let ?l = "last_link (First_of h) ys"
  let ?m2 = "m\<lparr>elms := (elms m)(x \<mapsto> \<lparr>le_next = Some y, le_prev = ?l\<rparr>)\<rparr>"
  have "le_seg (elms ?m2) (First_of h) ys (Some y)" using t(3) assms(3) by simp
  with le_store_last [of ?m2 h ys "Some y" "Some x"] t(1,2) obtain m3 where
    m3: "le_store ?l (Some x) ?m2 = Inr m3" "heads m3 = (heads m)(h \<mapsto> \<lparr>lh_first = hd_or ys (Some x)\<rparr>)"
    "le_seg (elms m3) (First_of h) ys (Some x)" "\<forall>a. a \<notin> set ys \<longrightarrow> elms m3 a = elms ?m2 a"
    "dom (elms m3) = dom (elms ?m2)" by auto
  have xy: "elms m3 x = Some \<lparr>le_next = Some y, le_prev = ?l\<rparr>"
    "elms m3 y = Some \<lparr>le_next = hd_or zs NULL, le_prev = ?l\<rparr>" "x \<noteq> y"
    using m3(4) assms(3) t(2,4) by auto
  let ?m4 = "m3\<lparr>elms := (elms m3)(y \<mapsto> \<lparr>le_next = hd_or zs NULL, le_prev = Next_of x\<rparr>)\<rparr>"
  have run: "LIST_INSERT_BEFORE y x m = Inr ?m4"
    using t(4) e m3(1) xy by (cases e) (simp add: LIST_INSERT_BEFORE_def)
  have "le_seg (elms m3) (Next_of y) zs NULL"
    by (rule le_seg_agree [OF t(5)]) (use m3(4) assms(3) t(2) in auto)
  then have "dlist ?m4 h (ys @ x # y # zs)" using m3(2,3) xy t(2) assms(3) by (auto simp: dlist_def)
  moreover have "q_frame h (set (ys @ [x, y])) m ?m4" using m3 e t(4) by (auto simp: q_frame_def)
  ultimately show ?thesis using run by blast
qed

lemma LIST_REPLACE_ok:
  assumes "dlist m h (ys @ x # zs)" "elms m x2 \<noteq> None" "x2 \<notin> set (ys @ x # zs)"
  shows "\<exists>m'. LIST_REPLACE x x2 m = Inr m' \<and> dlist m' h (ys @ x2 # zs) \<and> q_frame h (set (ys @ x2 # zs)) m m'"
proof -
  obtain e where e: "elms m x2 = Some e" using assms(2) by auto
  note t = dlist_split [OF assms(1)]
  let ?l = "last_link (First_of h) ys"
  let ?m1 = "m\<lparr>elms := (elms m)(x2 \<mapsto> e\<lparr>le_next := hd_or zs NULL\<rparr>)\<rparr>"
  have "distinct zs" "le_seg (elms ?m1) (Next_of x) zs NULL" using t(2,5) assms(3) by simp_all
  from link_back_ok [OF this, of "Next_of x2"] obtain m2 where
    m2: "link_back (hd_or zs NULL) (Next_of x2) ?m1 = Inr m2" "heads m2 = heads m"
    "le_seg (elms m2) (Next_of x2) zs NULL" "\<forall>a. a \<notin> set zs \<longrightarrow> elms m2 a = elms ?m1 a"
    "dom (elms m2) = dom (elms ?m1)" by auto
  have x: "elms m2 x2 = Some (e\<lparr>le_next := hd_or zs NULL\<rparr>)" "x \<noteq> x2"
    "elms m2 x = Some \<lparr>le_next = hd_or zs NULL, le_prev = ?l\<rparr>"
    using m2(4) assms(3) t(2,4) by auto
  let ?m3 = "m2\<lparr>elms := (elms m2)(x2 \<mapsto> \<lparr>le_next = hd_or zs NULL, le_prev = ?l\<rparr>)\<rparr>"
  have "le_seg (elms ?m3) (First_of h) ys (Some x)"
    by (rule le_seg_agree [OF t(3)]) (use m2(4) assms(3) t(2) in auto)
  with le_store_last [of ?m3 h ys "Some x" "Some x2"] t(1,2) m2(2) obtain m4 where
    m4: "le_store ?l (Some x2) ?m3 = Inr m4" "heads m4 = (heads m)(h \<mapsto> \<lparr>lh_first = hd_or ys (Some x2)\<rparr>)"
    "le_seg (elms m4) (First_of h) ys (Some x2)" "\<forall>a. a \<notin> set ys \<longrightarrow> elms m4 a = elms ?m3 a"
    "dom (elms m4) = dom (elms ?m3)" by auto
  have run: "LIST_REPLACE x x2 m = Inr m4"
    using t(4) e m2(1) x m4(1) by (cases e) (simp add: LIST_REPLACE_def)
  have "le_seg (elms m4) (Next_of x2) zs NULL"
    by (rule le_seg_agree [OF m2(3)]) (use m4(4) assms(3) t(2) in auto)
  then have "dlist m4 h (ys @ x2 # zs)"
    using m4(2-4) t(2) assms(3) by (intro dlist_join) auto
  moreover have "q_frame h (set (ys @ x2 # zs)) m m4" using m2 m4 e x by (auto simp: q_frame_def)
  ultimately show ?thesis using run by blast
qed

lemma LIST_CONCAT_ok:
  assumes "dlist m h1 xs" "dlist m h2 ys" "h1 \<noteq> h2" "set xs \<inter> set ys = {}" "length xs \<le> n"
  shows "\<exists>m'. LIST_CONCAT n h1 h2 m = Inr m' \<and> dlist m' h1 (xs @ ys) \<and> dlist m' h2 []"
proof (cases "ys = []")
  case True
  with assms dl.walk_first [OF assms(1)] dl.walk_first [OF assms(2)] show ?thesis
    by (cases xs) (auto simp: LIST_CONCAT_def dlist_def)
next
  case False
  let ?l = "last_link (First_of h1) xs"
  have t: "heads m h1 = Some \<lparr>lh_first = hd_or xs NULL\<rparr>" "distinct xs" "le_seg (elms m) (First_of h1) xs NULL"
    "heads m h2 = Some \<lparr>lh_first = hd_or ys NULL\<rparr>" "distinct ys" "le_seg (elms m) (First_of h2) ys NULL"
    using assms(1,2) by (simp_all add: dlist_def)
  from le_store_last [OF t(1-3), of "hd_or ys NULL"] obtain m1 where
    m1: "le_store ?l (hd_or ys NULL) m = Inr m1" "heads m1 = (heads m)(h1 \<mapsto> \<lparr>lh_first = hd_or xs (hd_or ys NULL)\<rparr>)"
    "le_seg (elms m1) (First_of h1) xs (hd_or ys NULL)" "\<forall>a. a \<notin> set xs \<longrightarrow> elms m1 a = elms m a" by blast
  have "le_seg (elms m1) (First_of h2) ys NULL"
    by (rule le_seg_agree [OF t(6)]) (use m1(4) assms(4) in auto)
  from link_back_ok [OF t(5) this, of ?l] obtain m2 where
    m2: "link_back (hd_or ys NULL) ?l m1 = Inr m2" "heads m2 = heads m1" "le_seg (elms m2) ?l ys NULL"
    "\<forall>a. a \<notin> set ys \<longrightarrow> elms m2 a = elms m1 a" by blast
  have "heads m2 h2 = Some \<lparr>lh_first = hd_or ys NULL\<rparr>" using m1(2) m2(2) t(4) assms(3) by simp
  from LIST_INIT_ok [OF this] obtain m3 where
    m3: "LIST_INIT h2 m2 = Inr m3" "dlist m3 h2 []" "q_frame h2 {} m2 m3" by blast
  have "le_seg (elms m2) (First_of h1) xs (hd_or ys NULL)"
    by (rule le_seg_agree [OF m1(3)]) (use m2(4) assms(4) in auto)
  then have "dlist m2 h1 (xs @ ys)"
    using m1(2) m2(2,3) t(2,5) assms(4) by (simp add: dlist_def)
  then have "dlist m3 h1 (xs @ ys)"
    by (rule dlist_frame) (use m3(3) assms(3) in \<open>auto simp: q_frame_def\<close>)
  moreover have "LIST_CONCAT n h1 h2 m = Inr m3"
  proof (cases xs rule: rev_cases)
    case Nil
    with m1(1) m2(1) m3(1) False t(1,4) show ?thesis
      by (simp add: LIST_CONCAT_def LIST_FIRST_def store_ptr_def)
  next
    case (snoc us u)
    then have c: "hd_or xs NULL = hd_or us (Some u)" "hd_or us (Some u) \<noteq> NULL" by (cases us; simp)+
    have "find_last LIST_NEXT n (hd_or us (Some u)) m = Inr u"
      using dl.find_last_ok [of m h1 us u n] assms(1,5) snoc by simp
    with c m1(1) m2(1) m3(1) False t(1,4) snoc show ?thesis
      by (auto simp: LIST_CONCAT_def LIST_FIRST_def store_ptr_def)
  qed
  ultimately show ?thesis using m3(2) by blast
qed

lemma LIST_SWAP_ok:
  assumes "dlist m h1 xs" "dlist m h2 ys" "h1 \<noteq> h2" "set xs \<inter> set ys = {}"
  shows "\<exists>m'. LIST_SWAP h1 h2 m = Inr m' \<and> dlist m' h1 ys \<and> dlist m' h2 xs"
proof -
  have t: "heads m h1 = Some \<lparr>lh_first = hd_or xs NULL\<rparr>" "distinct xs" "le_seg (elms m) (First_of h1) xs NULL"
    "heads m h2 = Some \<lparr>lh_first = hd_or ys NULL\<rparr>" "distinct ys" "le_seg (elms m) (First_of h2) ys NULL"
    using assms(1,2) by (simp_all add: dlist_def)
  let ?m2 = "m\<lparr>heads := (heads m)(h1 \<mapsto> \<lparr>lh_first = hd_or ys NULL\<rparr>, h2 \<mapsto> \<lparr>lh_first = hd_or xs NULL\<rparr>)\<rparr>"
  have "le_seg (elms ?m2) (First_of h2) ys NULL" using t(6) by simp
  from link_back_ok [OF t(5) this, of "First_of h1"] obtain m3 where
    m3: "link_back (hd_or ys NULL) (First_of h1) ?m2 = Inr m3" "heads m3 = heads ?m2"
    "le_seg (elms m3) (First_of h1) ys NULL" "\<forall>a. a \<notin> set ys \<longrightarrow> elms m3 a = elms ?m2 a" by blast
  have "le_seg (elms m3) (First_of h1) xs NULL"
    by (rule le_seg_agree [OF t(3)]) (use m3(4) assms(4) in auto)
  from link_back_ok [OF t(2) this, of "First_of h2"] obtain m4 where
    m4: "link_back (hd_or xs NULL) (First_of h2) m3 = Inr m4" "heads m4 = heads m3"
    "le_seg (elms m4) (First_of h2) xs NULL" "\<forall>a. a \<notin> set xs \<longrightarrow> elms m4 a = elms m3 a" by blast
  have "le_seg (elms m4) (First_of h1) ys NULL"
    by (rule le_seg_agree [OF m3(3)]) (use m4(4) assms(4) in auto)
  then have "dlist m4 h1 ys" "dlist m4 h2 xs"
    using m3(2) m4(2,3) t(2,5) assms(3) by (simp_all add: dlist_def)
  moreover have "LIST_SWAP h1 h2 m = Inr m4"
    using t(1,4) m3(1,2) m4(1) assms(3) by (simp add: LIST_SWAP_def LIST_FIRST_def)
  ultimately show ?thesis by blast
qed

section \<open>Visiting the elements\<close>

interpretation dlf: plain_loop "\<lambda>p. dlist (fst p) h" "\<lambda>p. LIST_FIRST h (fst p)" "\<lambda>x p. LIST_NEXT x (fst p)"
  "user_body f" for h f
  by unfold_locales (auto simp: user_body_def res_iff dl.walk_first dl.walk_next dl.rep_distinct)

lemma dlist_foreach_all:
  assumes "dlist m h xs" "length xs \<le> n"
  shows "LIST_FOREACH fst h (user_body f) n (m, s) = res_bind (fold_res f xs s) (\<lambda>s'. Inr (m, s'))"
    "LIST_FOREACH_SAFE fst h (user_body f) n (m, s) = res_bind (fold_res f xs s) (\<lambda>s'. Inr (m, s'))"
  using dlf.plain_from [where m = "(m, s)" and h = h and ys = "[]" and zs = xs and n = n and f = f]
    dlf.plain_safe_from [where m = "(m, s)" and h = h and ys = "[]" and zs = xs and n = n and f = f]
    dl.walk_first [OF assms(1)] assms
  by (simp_all add: LIST_FOREACH_def LIST_FOREACH_SAFE_def fold_user_body)

lemma dlist_foreach_from:
  assumes "dlist m h (ys @ x # zs)" "length zs < n"
  shows "LIST_FOREACH_FROM fst (Some x) h (user_body f) n (m, s) =
      res_bind (fold_res f (x # zs) s) (\<lambda>s'. Inr (m, s'))"
    "LIST_FOREACH_FROM_SAFE fst (Some x) h (user_body f) n (m, s) =
      res_bind (fold_res f (x # zs) s) (\<lambda>s'. Inr (m, s'))"
  using dlf.plain_from [where m = "(m, s)" and h = h and ys = ys and zs = "x # zs" and n = n and f = f]
    dlf.plain_safe_from [where m = "(m, s)" and h = h and ys = ys and zs = "x # zs" and n = n and f = f] assms
  by (simp_all add: LIST_FOREACH_FROM_def LIST_FOREACH_FROM_SAFE_def start_at_def fold_user_body
      flip: fold_res.simps(2))

text \<open>
  A body may remove the element it is run on: \<open>LIST_FOREACH_SAFE\<close> with such a body leaves
  exactly the elements \<open>keep\<close> selects.
\<close>

definition remove_unless :: "(addr \<Rightarrow> bool) \<Rightarrow> addr \<Rightarrow> le_mem \<Rightarrow> le_mem res" where
  "remove_unless keep x m = (if keep x then Inr m else LIST_REMOVE x m)"

interpretation dls: safe_loop "\<lambda>m. dlist m h" "LIST_FIRST h" LIST_NEXT "remove_unless keep" "\<lambda>m. keep" for h keep
proof unfold_locales
  fix m ys x zs
  assume "dlist m h (ys @ x # zs)"
  then show "\<exists>m'. remove_unless keep x m = Inr m' \<and> dlist m' h (ys @ (if keep x then [x] else []) @ zs) \<and>
      (\<forall>z \<in> set zs. keep z = keep z)"
    using LIST_REMOVE_ok [of m h ys x zs] by (auto simp: remove_unless_def)
qed

lemma dlist_remove_while_visiting:
  assumes "dlist m h xs" "length xs \<le> n"
  shows "\<exists>m'. LIST_FOREACH_SAFE id h (remove_unless keep) n m = Inr m' \<and> dlist m' h (filter keep xs)"
  using dls.loop_filters [OF assms, of keep] by (simp add: LIST_FOREACH_SAFE_def)

section \<open>The consistency checks\<close>

lemma dlist_check_elem:
  assumes "dlist m h (ys @ x # zs)"
  shows "QMD_LIST_CHECK_NEXT x m = Inr ()" "QMD_LIST_CHECK_PREV x m = Inr ()"
proof -
  note t = dlist_split [OF assms]
  show "QMD_LIST_CHECK_NEXT x m = Inr ()"
    using t(4,5) by (cases zs) (auto simp: QMD_LIST_CHECK_NEXT_def LIST_NEXT_def)
  show "QMD_LIST_CHECK_PREV x m = Inr ()"
    using t(1,3,4) by (cases ys rule: rev_cases) (auto simp: QMD_LIST_CHECK_PREV_def load_ptr_def)
qed

lemma dlist_check_head: "dlist m h xs \<Longrightarrow> QMD_LIST_CHECK_HEAD h m = Inr ()"
  by (cases xs) (auto simp: QMD_LIST_CHECK_HEAD_def LIST_FIRST_def dlist_def)

text \<open>Conversely, forward links whose checks all pass have the right back links.\<close>

lemma checked_le_seg:
  assumes "chain le_next (elms m) (x # xs) NULL" "map_option le_prev (elms m x) = Some l"
    "\<And>y. y \<in> set (x # xs) \<Longrightarrow> QMD_LIST_CHECK_NEXT y m = Inr ()"
  shows "le_seg (elms m) l (x # xs) NULL"
  using assms
proof (induction xs arbitrary: x l)
  case Nil
  then obtain e where "elms m x = Some e" "le_next e = NULL" "le_prev e = l" by auto
  then show ?case by (cases e) simp
next
  case (Cons y xs)
  from Cons.prems(1) obtain e e2 where e: "elms m x = Some e" "le_next e = Some y" "elms m y = Some e2" by auto
  with Cons.prems(2) have "le_prev e = l" by simp
  moreover have "le_prev e2 = Next_of x"
    using Cons.prems(3) [of x] e by (auto simp: QMD_LIST_CHECK_NEXT_def LIST_NEXT_def res_iff)
  ultimately show ?case using Cons.IH [of y "Next_of x"] Cons.prems(1,3) e by (cases e) auto
qed

section \<open>Properties\<close>

text \<open>List 0 holds the elements 1 and 2, list 1 the element 3; element 4 is in none.\<close>

definition le_example :: le_mem where
  "le_example =
     \<lparr>heads = [0 \<mapsto> \<lparr>lh_first = Some 1\<rparr>, 1 \<mapsto> \<lparr>lh_first = Some 3\<rparr>],
      elms = [1 \<mapsto> \<lparr>le_next = Some 2, le_prev = First_of 0\<rparr>, 2 \<mapsto> \<lparr>le_next = NULL, le_prev = Next_of 1\<rparr>,
              3 \<mapsto> \<lparr>le_next = NULL, le_prev = First_of 1\<rparr>, 4 \<mapsto> \<lparr>le_next = NULL, le_prev = Null_Link\<rparr>]\<rparr>"

lemma le_example_rep: "dlist le_example 0 [1, 2]" "dlist le_example 1 [3]"
  by (simp_all add: dlist_def le_example_def)

text \<open>
  C35: The consistency checks of the debugging build are exact for doubly linked
  lists: for a head and elements whose forward pointers form the list \<open>xs\<close>, the head check and the
  check of every element's successor pass if and only if all back links are right, that is, the
  list is well-formed; and then the check of every element's predecessor passes as well.
\<close>

theorem list_checks_exact:
  assumes "heads m h = Some \<lparr>lh_first = hd_or xs NULL\<rparr>" "distinct xs" "chain le_next (elms m) xs NULL"
  shows "(QMD_LIST_CHECK_HEAD h m = Inr () \<and> (\<forall>x \<in> set xs. QMD_LIST_CHECK_NEXT x m = Inr ()) \<longleftrightarrow> dlist m h xs) \<and>
    (dlist m h xs \<longrightarrow> (\<forall>x \<in> set xs. QMD_LIST_CHECK_PREV x m = Inr ()))"
proof (intro conjI iffI impI ballI)
  assume c: "QMD_LIST_CHECK_HEAD h m = Inr () \<and> (\<forall>x \<in> set xs. QMD_LIST_CHECK_NEXT x m = Inr ())"
  show "dlist m h xs"
  proof (cases xs)
    case (Cons y ys)
    with assms(1,3) c have "map_option le_prev (elms m y) = Some (First_of h)"
      by (auto simp: QMD_LIST_CHECK_HEAD_def LIST_FIRST_def res_iff)
    with checked_le_seg [of m y ys "First_of h"] assms c Cons show ?thesis by (simp add: dlist_def)
  qed (use assms in \<open>simp add: dlist_def\<close>)
qed (auto dest!: split_list simp: dlist_check_head dlist_check_elem)

theorem list_checks_exact_witness:
  "dlist le_example 0 [1, 2] \<and> QMD_LIST_CHECK_HEAD 0 le_example = Inr () \<and>
   QMD_LIST_CHECK_NEXT 1 le_example = Inr () \<and> QMD_LIST_CHECK_PREV 2 le_example = Inr ()"
  using list_checks_exact [of le_example 0 "[1, 2]"] le_example_rep(1)
  by (simp add: le_example_def dlist_def)

text \<open>
  A doubly linked list can be edited at any element knowing only that
  element. Removing it, inserting a new element after or before it, and replacing it each succeed
  and change the list in exactly this way, and no other list and no other element is touched.
\<close>

lemma list_edit_correct:
  assumes "dlist m h (ys @ x # zs)" "elms m e \<noteq> None" "e \<notin> set (ys @ x # zs)"
  shows "(\<exists>m'. LIST_REMOVE x m = Inr m' \<and> dlist m' h (ys @ zs) \<and> q_frame h (set (ys @ zs)) m m') \<and>
    (\<exists>m'. LIST_INSERT_AFTER x e m = Inr m' \<and> dlist m' h (ys @ x # e # zs) \<and> q_frame h (set (x # e # zs)) m m') \<and>
    (\<exists>m'. LIST_INSERT_BEFORE x e m = Inr m' \<and> dlist m' h (ys @ e # x # zs) \<and> q_frame h (set (ys @ [e, x])) m m') \<and>
    (\<exists>m'. LIST_REPLACE x e m = Inr m' \<and> dlist m' h (ys @ e # zs) \<and> q_frame h (set (ys @ e # zs)) m m')"
  using LIST_REMOVE_ok [OF assms(1)] LIST_INSERT_AFTER_ok [OF assms] LIST_INSERT_BEFORE_ok [OF assms]
    LIST_REPLACE_ok [OF assms] by blast

end
