(* ===== verification/Queue_Families.thy ===== *)
theory Queue_Families
  imports Tail_Queue Stailq Slist List_Queue
begin

text \<open>
  Properties that span the families of \<open>server/queue.h\<close>: the tail queue the server uses and the
  singly linked one do the same to the list of their elements, and the checks of the debugging
  build never stop a correct program.
\<close>

section \<open>Properties\<close>

text \<open>
  C31: The singly linked tail queue could replace the tail queue: starting from
  queues with the same elements, any admissible sequence of insertions at either end and removals
  succeeds on both (the search of \<open>STAILQ_REMOVE\<close> within as many rounds as there are elements), both
  then hold the same elements in the same order, and visiting them gives the same result.
\<close>

theorem tailq_stailq_equivalent:
  assumes "tailq m h xs" "stailq m2 h2 xs" "finite (dom (elms m2))" "card (dom (elms m2)) \<le> n"
    and "ops_ok (dom (elms m)) qs xs" "ops_ok (dom (elms m2)) qs xs"
  shows "\<exists>m' m2' zs.
    run_ops (TAILQ_INSERT_HEAD h) (TAILQ_INSERT_TAIL h) (TAILQ_REMOVE h) qs m = Inr m' \<and> tailq m' h zs \<and>
    run_ops (STAILQ_INSERT_HEAD h2) (STAILQ_INSERT_TAIL h2) (STAILQ_REMOVE n h2) qs m2 = Inr m2' \<and>
    stailq m2' h2 zs \<and> zs = fold list_op qs xs \<and>
    (\<forall>(f :: addr \<Rightarrow> 's \<Rightarrow> 's res) s k. length zs \<le> k \<longrightarrow>
       map_sum id snd (TAILQ_FOREACH fst h (user_body f) k (m', s)) =
       map_sum id snd (STAILQ_FOREACH fst h2 (user_body f) k (m2', s)))"
proof -
  let ?zs = "fold list_op qs xs"
  from tq.run_ops_ok [OF assms(1,5)] obtain m' where
    m: "run_ops (TAILQ_INSERT_HEAD h) (TAILQ_INSERT_TAIL h) (TAILQ_REMOVE h) qs m = Inr m'" "tailq m' h ?zs"
    by blast
  from sqe.run_ops_ok [of m2 h2 xs n qs] assms(2-4,6) obtain m2' where
    m2: "run_ops (STAILQ_INSERT_HEAD h2) (STAILQ_INSERT_TAIL h2) (STAILQ_REMOVE n h2) qs m2 = Inr m2'"
    "stailq m2' h2 ?zs" by blast
  have r: "map_sum id snd (res_bind r (\<lambda>s'. Inr (a, s'))) = map_sum id snd (res_bind r (\<lambda>s'. Inr (b, s')))"
    for r :: "'s res" and a :: tq_mem and b :: st_mem by (cases r) simp_all
  show ?thesis
  proof (rule exI [of _ m'], rule exI [of _ m2'], rule exI [of _ ?zs], intro conjI allI impI)
    fix f :: "addr \<Rightarrow> 's \<Rightarrow> 's res" and s k
    assume "length ?zs \<le> k"
    then show "map_sum id snd (TAILQ_FOREACH fst h (user_body f) k (m', s)) =
        map_sum id snd (STAILQ_FOREACH fst h2 (user_body f) k (m2', s))"
      using tailq_foreach_all(1) [OF m(2), of k f s] stailq_foreach_all(1) [OF m2(2), of k f s] by (simp add: r)
  qed (use m m2 in simp_all)
qed

theorem tailq_stailq_equivalent_witness:
  "\<exists>m' m2'. run_ops (TAILQ_INSERT_HEAD 0) (TAILQ_INSERT_TAIL 0) (TAILQ_REMOVE 0) [Ins_Head 4, Rem 1] tq_example = Inr m' \<and>
     tailq m' 0 [4, 2] \<and>
     run_ops (STAILQ_INSERT_HEAD 0) (STAILQ_INSERT_TAIL 0) (STAILQ_REMOVE 3 0) [Ins_Head 4, Rem 1] st_example = Inr m2' \<and>
     stailq m2' 0 [4, 2]"
proof -
  have d: "dom (elms st_example) = {1, 2, 4}" "dom (elms tq_example) = {1, 2, 3, 4}"
    by (auto simp: st_example_def tq_example_def)
  let ?qs = "[Ins_Head 4, Rem 1]"
  have "finite (dom (elms st_example))" "card (dom (elms st_example)) \<le> 3"
    "ops_ok (dom (elms tq_example)) ?qs [1, 2]" "ops_ok (dom (elms st_example)) ?qs [1, 2]"
    by (simp_all add: d)
  from tailq_stailq_equivalent [OF tq_example_rep(1) st_example_rep(1) this, where 's = nat]
  show ?thesis by (elim exE conjE) (intro exI conjI, assumption, simp, assumption, simp)
qed

text \<open>
  The consistency checks that a debugging build runs before every tail queue
  operation never panic on a well-formed queue: its head, its end and both neighbours of each of its
  elements pass. As the operations keep queues well-formed, the checks change nothing for a
  program that uses only them.
\<close>

lemma tailq_checks_pass:
  assumes "tailq m h xs"
  shows "QMD_TAILQ_CHECK_HEAD h m = Inr () \<and> QMD_TAILQ_CHECK_TAIL h m = Inr () \<and>
    (\<forall>x \<in> set xs. QMD_TAILQ_CHECK_NEXT x m = Inr () \<and> QMD_TAILQ_CHECK_PREV x m = Inr ())"
  using tailq_check_ends [OF assms] tailq_check_elem [of m h] assms by (auto dest!: split_list)

end
