(* ===== verification/Queue_Debug.thy ===== *)
theory Queue_Debug
  imports Tail_Queue Stailq Slist List_Queue
begin

text \<open>
  The macros of \<open>server/queue.h\<close> as a debugging build has them: with \<open>QUEUE_MACRO_DEBUG_TRACE\<close>
  every head and every entry of a tail queue records the last two places it was altered at, with
  \<open>QUEUE_MACRO_DEBUG_TRASH\<close> the links of a removed element are overwritten with \<open>-1\<close>, and with
  \<open>INVARIANTS\<close> the links are checked before an operation. The macros of theories
  \<open>Tail_Queue\<close>, \<open>List_Queue\<close>, \<open>Stailq\<close> and \<open>Slist\<close> are those of the release build, in which all this
  expands to nothing. Shown are that both builds do the same to the list of the elements, and what
  the debugging build adds: uses of a removed element are trapped.
\<close>

section \<open>Traces\<close>

record qm_trace =
  lastline :: "64 word"
  prevline :: "64 word"
  lastfile :: "string option"
  prevfile :: "string option"

text \<open>The line and the file a macro is used at: \<open>__LINE__\<close> and \<open>__FILE__\<close>.\<close>

type_synonym place = "64 word \<times> string"

definition TRACEBUF_INITIALIZER :: "place \<Rightarrow> qm_trace" where
  "TRACEBUF_INITIALIZER pl =
     \<lparr>lastline = fst pl, prevline = 0, lastfile = Some (snd pl), prevfile = None\<rparr>"

text \<open>
  The traces are fields of the heads and the entries; they are kept beside the links here, so
  that the representation of a queue is that of the release build.
\<close>

record tq_debug =
  qmem :: tq_mem
  htrace :: "nat \<Rightarrow> qm_trace"
  etrace :: "addr \<Rightarrow> qm_trace"

definition note_place :: "place \<Rightarrow> qm_trace \<Rightarrow> qm_trace" where
  "note_place pl t =
     (let t1 = t\<lparr>prevline := lastline t\<rparr>;
          t2 = t1\<lparr>prevfile := lastfile t1\<rparr>;
          t3 = t2\<lparr>lastline := fst pl\<rparr>
      in t3\<lparr>lastfile := Some (snd pl)\<rparr>)"

definition QMD_TRACE_HEAD :: "place \<Rightarrow> nat \<Rightarrow> tq_debug \<Rightarrow> tq_debug res" where
  "QMD_TRACE_HEAD pl h d =
     res_bind (head_at (qmem d) h) (\<lambda>_. Inr (d\<lparr>htrace := (htrace d)(h := note_place pl (htrace d h))\<rparr>))"

definition QMD_TRACE_ELEM :: "place \<Rightarrow> addr \<Rightarrow> tq_debug \<Rightarrow> tq_debug res" where
  "QMD_TRACE_ELEM pl x d =
     res_bind (elm_at (qmem d) x) (\<lambda>_. Inr (d\<lparr>etrace := (etrace d)(x := note_place pl (etrace d x))\<rparr>))"

section \<open>Trashing\<close>

text \<open>\<open>(void *)-1\<close> as the address of an element; as the address of a pointer it is \<open>Trash_Link\<close>.\<close>

definition TRASHED :: addr where
  "TRASHED = 2 ^ 64 - 1"

definition QMD_IS_TRASHED :: "ptr \<Rightarrow> bool" where
  "QMD_IS_TRASHED p \<longleftrightarrow> p = Some TRASHED"

text \<open>\<open>TRASHIT(*oldnext); TRASHIT(*oldprev)\<close> for the links of element \<open>x\<close>, per family.\<close>

definition tq_trash :: "addr \<Rightarrow> tq_mem \<Rightarrow> tq_mem res" where
  "tq_trash x m =
     res_bind (set_elm x (\<lambda>e. e\<lparr>tqe_next := Some TRASHED\<rparr>) m) (set_elm x (\<lambda>e. e\<lparr>tqe_prev := Trash_Link\<rparr>))"

definition le_trash :: "addr \<Rightarrow> le_mem \<Rightarrow> le_mem res" where
  "le_trash x m =
     res_bind (set_elm x (\<lambda>e. e\<lparr>le_next := Some TRASHED\<rparr>) m) (set_elm x (\<lambda>e. e\<lparr>le_prev := Trash_Link\<rparr>))"

definition sl_trash :: "addr \<Rightarrow> sl_mem \<Rightarrow> sl_mem res" where
  "sl_trash x m = set_elm x (\<lambda>e. e\<lparr>sle_next := Some TRASHED\<rparr>) m"

definition st_trash :: "addr \<Rightarrow> st_mem \<Rightarrow> st_mem res" where
  "st_trash x m = set_elm x (\<lambda>e. e\<lparr>stqe_next := Some TRASHED\<rparr>) m"

section \<open>The tail queue macros of the debugging build\<close>

text \<open>A check of the links, and an operation of the release build, on the debugging state.\<close>

definition checked :: "(tq_mem \<Rightarrow> unit res) \<Rightarrow> tq_debug \<Rightarrow> tq_debug res" where
  "checked c d = res_bind (c (qmem d)) (\<lambda>_. Inr d)"

definition on_queue :: "(tq_mem \<Rightarrow> tq_mem res) \<Rightarrow> tq_debug \<Rightarrow> tq_debug res" where
  "on_queue f d = res_bind (f (qmem d)) (\<lambda>m. Inr (d\<lparr>qmem := m\<rparr>))"

text \<open>
  The traces of a head that an operation notes on one branch only (\<open>TAILQ_INSERT_AFTER\<close>, \<open>TAILQ_REMOVE\<close>)
  are noted after the links have been written: they are different fields.
\<close>

definition dbg_TAILQ_INIT :: "place \<Rightarrow> nat \<Rightarrow> tq_debug \<Rightarrow> tq_debug res" where
  "dbg_TAILQ_INIT pl h d = res_bind (on_queue (TAILQ_INIT h) d) (QMD_TRACE_HEAD pl h)"

definition dbg_TAILQ_INSERT_HEAD :: "place \<Rightarrow> nat \<Rightarrow> addr \<Rightarrow> tq_debug \<Rightarrow> tq_debug res" where
  "dbg_TAILQ_INSERT_HEAD pl h elm d =
     res_bind (checked (QMD_TAILQ_CHECK_HEAD h) d) (\<lambda>d.
     res_bind (on_queue (TAILQ_INSERT_HEAD h elm) d) (\<lambda>d1.
     res_bind (QMD_TRACE_HEAD pl h d1) (QMD_TRACE_ELEM pl elm)))"

definition dbg_TAILQ_INSERT_TAIL :: "place \<Rightarrow> nat \<Rightarrow> addr \<Rightarrow> tq_debug \<Rightarrow> tq_debug res" where
  "dbg_TAILQ_INSERT_TAIL pl h elm d =
     res_bind (checked (QMD_TAILQ_CHECK_TAIL h) d) (\<lambda>d.
     res_bind (on_queue (TAILQ_INSERT_TAIL h elm) d) (\<lambda>d1.
     res_bind (QMD_TRACE_HEAD pl h d1) (QMD_TRACE_ELEM pl elm)))"

definition dbg_TAILQ_INSERT_AFTER :: "place \<Rightarrow> nat \<Rightarrow> addr \<Rightarrow> addr \<Rightarrow> tq_debug \<Rightarrow> tq_debug res" where
  "dbg_TAILQ_INSERT_AFTER pl h listelm elm d =
     res_bind (checked (QMD_TAILQ_CHECK_NEXT listelm) d) (\<lambda>d.
     res_bind (TAILQ_NEXT listelm (qmem d)) (\<lambda>next.
     res_bind (on_queue (TAILQ_INSERT_AFTER h listelm elm) d) (\<lambda>d1.
     res_bind (if next = NULL then QMD_TRACE_HEAD pl h d1 else Inr d1) (\<lambda>d2.
     res_bind (QMD_TRACE_ELEM pl elm d2) (QMD_TRACE_ELEM pl listelm)))))"

definition dbg_TAILQ_INSERT_BEFORE :: "place \<Rightarrow> addr \<Rightarrow> addr \<Rightarrow> tq_debug \<Rightarrow> tq_debug res" where
  "dbg_TAILQ_INSERT_BEFORE pl listelm elm d =
     res_bind (checked (QMD_TAILQ_CHECK_PREV listelm) d) (\<lambda>d.
     res_bind (on_queue (TAILQ_INSERT_BEFORE listelm elm) d) (\<lambda>d1.
     res_bind (QMD_TRACE_ELEM pl elm d1) (QMD_TRACE_ELEM pl listelm)))"

definition dbg_TAILQ_REMOVE :: "place \<Rightarrow> nat \<Rightarrow> addr \<Rightarrow> tq_debug \<Rightarrow> tq_debug res" where
  "dbg_TAILQ_REMOVE pl h elm d =
     res_bind (checked (QMD_TAILQ_CHECK_NEXT elm) d) (\<lambda>d.
     res_bind (checked (QMD_TAILQ_CHECK_PREV elm) d) (\<lambda>d.
     res_bind (TAILQ_NEXT elm (qmem d)) (\<lambda>next.
     res_bind (on_queue (TAILQ_REMOVE h elm) d) (\<lambda>d1.
     res_bind (if next = NULL then QMD_TRACE_HEAD pl h d1 else Inr d1) (\<lambda>d2.
     res_bind (on_queue (tq_trash elm) d2) (QMD_TRACE_ELEM pl elm))))))"

definition dbg_TAILQ_REPLACE :: "place \<Rightarrow> nat \<Rightarrow> addr \<Rightarrow> addr \<Rightarrow> tq_debug \<Rightarrow> tq_debug res" where
  "dbg_TAILQ_REPLACE pl h elm elm2 d =
     res_bind (checked (QMD_TAILQ_CHECK_NEXT elm) d) (\<lambda>d.
     res_bind (checked (QMD_TAILQ_CHECK_PREV elm) d) (\<lambda>d.
     res_bind (on_queue (TAILQ_REPLACE h elm elm2) d) (\<lambda>d1.
     res_bind (on_queue (tq_trash elm) d1) (QMD_TRACE_ELEM pl elm))))"

text \<open>The head that \<open>TAILQ_CONCAT\<close> empties is traced twice: by \<open>TAILQ_INIT\<close> and at the end.\<close>

definition dbg_TAILQ_CONCAT :: "place \<Rightarrow> nat \<Rightarrow> nat \<Rightarrow> tq_debug \<Rightarrow> tq_debug res" where
  "dbg_TAILQ_CONCAT pl h1 h2 d =
     res_bind (TAILQ_EMPTY h2 (qmem d)) (\<lambda>empty.
       if empty then Inr d
       else
        res_bind (on_queue (TAILQ_CONCAT h1 h2) d) (\<lambda>d1.
        res_bind (QMD_TRACE_HEAD pl h2 d1) (\<lambda>d2.
        res_bind (QMD_TRACE_HEAD pl h1 d2) (QMD_TRACE_HEAD pl h2))))"

text \<open>\<open>TAILQ_SWAP\<close> has neither checks nor traces.\<close>

definition dbg_TAILQ_SWAP :: "nat \<Rightarrow> nat \<Rightarrow> tq_debug \<Rightarrow> tq_debug res" where
  "dbg_TAILQ_SWAP h1 h2 d = on_queue (TAILQ_SWAP h1 h2) d"

section \<open>The other families\<close>

definition dbg_LIST_INSERT_AFTER :: "addr \<Rightarrow> addr \<Rightarrow> le_mem \<Rightarrow> le_mem res" where
  "dbg_LIST_INSERT_AFTER listelm elm m =
     res_bind (QMD_LIST_CHECK_NEXT listelm m) (\<lambda>_. LIST_INSERT_AFTER listelm elm m)"

definition dbg_LIST_INSERT_BEFORE :: "addr \<Rightarrow> addr \<Rightarrow> le_mem \<Rightarrow> le_mem res" where
  "dbg_LIST_INSERT_BEFORE listelm elm m =
     res_bind (QMD_LIST_CHECK_PREV listelm m) (\<lambda>_. LIST_INSERT_BEFORE listelm elm m)"

definition dbg_LIST_INSERT_HEAD :: "nat \<Rightarrow> addr \<Rightarrow> le_mem \<Rightarrow> le_mem res" where
  "dbg_LIST_INSERT_HEAD h elm m =
     res_bind (QMD_LIST_CHECK_HEAD h m) (\<lambda>_. LIST_INSERT_HEAD h elm m)"

definition dbg_LIST_REMOVE :: "addr \<Rightarrow> le_mem \<Rightarrow> le_mem res" where
  "dbg_LIST_REMOVE elm m =
     res_bind (QMD_LIST_CHECK_NEXT elm m) (\<lambda>_.
     res_bind (QMD_LIST_CHECK_PREV elm m) (\<lambda>_.
     res_bind (LIST_REMOVE elm m) (le_trash elm)))"

definition dbg_LIST_REPLACE :: "addr \<Rightarrow> addr \<Rightarrow> le_mem \<Rightarrow> le_mem res" where
  "dbg_LIST_REPLACE elm elm2 m =
     res_bind (QMD_LIST_CHECK_NEXT elm m) (\<lambda>_.
     res_bind (QMD_LIST_CHECK_PREV elm m) (\<lambda>_.
     res_bind (LIST_REPLACE elm elm2 m) (le_trash elm)))"

definition dbg_STAILQ_REMOVE :: "nat \<Rightarrow> nat \<Rightarrow> addr \<Rightarrow> st_mem \<Rightarrow> st_mem res" where
  "dbg_STAILQ_REMOVE n h elm m = res_bind (STAILQ_REMOVE n h elm m) (st_trash elm)"

definition dbg_SLIST_REMOVE_AFTER :: "addr \<Rightarrow> sl_mem \<Rightarrow> sl_mem res" where
  "dbg_SLIST_REMOVE_AFTER elm m =
     res_bind (SLIST_NEXT elm m) (\<lambda>p. res_bind (deref p) (\<lambda>x.
     res_bind (SLIST_REMOVE_AFTER elm m) (sl_trash x)))"

definition dbg_SLIST_REMOVE_HEAD :: "nat \<Rightarrow> sl_mem \<Rightarrow> sl_mem res" where
  "dbg_SLIST_REMOVE_HEAD h m =
     res_bind (SLIST_FIRST h m) (\<lambda>p. res_bind (deref p) (\<lambda>x.
     res_bind (SLIST_REMOVE_HEAD h m) (sl_trash x)))"

definition dbg_SLIST_REMOVE :: "nat \<Rightarrow> nat \<Rightarrow> addr \<Rightarrow> sl_mem \<Rightarrow> sl_mem res" where
  "dbg_SLIST_REMOVE n h elm m =
     res_bind (SLIST_FIRST h m) (\<lambda>p.
       if p = Some elm then dbg_SLIST_REMOVE_HEAD h m
       else res_bind (find_prev SLIST_NEXT n elm p m) (\<lambda>curelm. dbg_SLIST_REMOVE_AFTER curelm m))"

definition dbg_SLIST_REMOVE_PREVPTR :: "link \<Rightarrow> addr \<Rightarrow> sl_mem \<Rightarrow> sl_mem res" where
  "dbg_SLIST_REMOVE_PREVPTR prevp elm m =
     res_bind (QMD_SLIST_CHECK_PREVPTR prevp elm m) (\<lambda>_.
     res_bind (SLIST_REMOVE_PREVPTR prevp elm m) (sl_trash elm))"

section \<open>What the debugging macros do\<close>

definition tq_trashed :: tq_entry where
  "tq_trashed = \<lparr>tqe_next = Some TRASHED, tqe_prev = Trash_Link\<rparr>"

lemma note_place_eq:
  "note_place pl t = \<lparr>lastline = fst pl, prevline = lastline t, lastfile = Some (snd pl), prevfile = lastfile t\<rparr>"
  by (cases t) (simp add: note_place_def)

lemma trace_simps [simp]:
  "heads (qmem d) h \<noteq> None \<Longrightarrow>
     QMD_TRACE_HEAD pl h d = Inr (d\<lparr>htrace := (htrace d)(h := note_place pl (htrace d h))\<rparr>)"
  "elms (qmem d) x \<noteq> None \<Longrightarrow>
     QMD_TRACE_ELEM pl x d = Inr (d\<lparr>etrace := (etrace d)(x := note_place pl (etrace d x))\<rparr>)"
  by (auto simp: QMD_TRACE_HEAD_def QMD_TRACE_ELEM_def)

lemma wrap_simps [simp]:
  "c (qmem d) = Inr () \<Longrightarrow> checked c d = Inr d"
  "f (qmem d) = Inr m \<Longrightarrow> on_queue f d = Inr (d\<lparr>qmem := m\<rparr>)"
  by (simp_all add: checked_def on_queue_def)

lemma tailq_head_live: "tailq m h xs \<Longrightarrow> heads m h \<noteq> None"
  by (simp add: tailq_def)

lemma tailq_elem_live: "tailq m h xs \<Longrightarrow> x \<in> set xs \<Longrightarrow> elms m x \<noteq> None"
  using tq_seg_live [of "elms m" "First_of h" xs NULL] by (auto simp: tailq_def)

lemma tq_trash_ok:
  assumes "tailq m h xs" "x \<notin> set xs" "elms m x \<noteq> None"
  obtains m' where "tq_trash x m = Inr m'" "tailq m' h xs" "elms m' = (elms m)(x \<mapsto> tq_trashed)"
proof -
  let ?m = "m\<lparr>elms := (elms m)(x \<mapsto> tq_trashed)\<rparr>"
  from assms(3) obtain e where "elms m x = Some e" by auto
  then have "tq_trash x m = Inr ?m" by (cases e) (simp add: tq_trash_def tq_trashed_def)
  with assms(1,2) show thesis by (intro that [of ?m]) (simp_all add: tailq_def)
qed

text \<open>
  Each macro does to the elements what it does in the release build, and touches no element
  outside the queue but the one it is given.
\<close>

lemma dbg_TAILQ_INSERT_HEAD_ok:
  assumes "tailq (qmem d) h xs" "elms (qmem d) x \<noteq> None" "x \<notin> set xs"
  shows "\<exists>d'. dbg_TAILQ_INSERT_HEAD pl h x d = Inr d' \<and> tailq (qmem d') h (x # xs) \<and>
    q_frame h (set (x # xs)) (qmem d) (qmem d') \<and>
    etrace d' = (etrace d)(x := note_place pl (etrace d x)) \<and>
    htrace d' = (htrace d)(h := note_place pl (htrace d h))"
proof -
  from TAILQ_INSERT_HEAD_ok [OF assms] obtain m where
    m: "TAILQ_INSERT_HEAD h x (qmem d) = Inr m" "tailq m h (x # xs)" "q_frame h (set (x # xs)) (qmem d) m" by blast
  have "heads m h \<noteq> None" "elms m x \<noteq> None"
    using tailq_head_live [OF m(2)] tailq_elem_live [OF m(2), of x] by simp_all
  with m tailq_check_ends(1) [OF assms(1)] show ?thesis by (simp add: dbg_TAILQ_INSERT_HEAD_def)
qed

lemma dbg_TAILQ_INSERT_TAIL_ok:
  assumes "tailq (qmem d) h xs" "elms (qmem d) x \<noteq> None" "x \<notin> set xs"
  shows "\<exists>d'. dbg_TAILQ_INSERT_TAIL pl h x d = Inr d' \<and> tailq (qmem d') h (xs @ [x]) \<and>
    q_frame h (set (xs @ [x])) (qmem d) (qmem d') \<and>
    etrace d' = (etrace d)(x := note_place pl (etrace d x)) \<and>
    htrace d' = (htrace d)(h := note_place pl (htrace d h))"
proof -
  from TAILQ_INSERT_TAIL_ok [OF assms] obtain m where
    m: "TAILQ_INSERT_TAIL h x (qmem d) = Inr m" "tailq m h (xs @ [x])" "q_frame h (set (xs @ [x])) (qmem d) m"
    by blast
  have "heads m h \<noteq> None" "elms m x \<noteq> None"
    using tailq_head_live [OF m(2)] tailq_elem_live [OF m(2), of x] by simp_all
  with m tailq_check_ends(2) [OF assms(1)] show ?thesis by (simp add: dbg_TAILQ_INSERT_TAIL_def)
qed

lemma dbg_TAILQ_INSERT_AFTER_ok:
  assumes "tailq (qmem d) h (ys @ y # zs)" "elms (qmem d) x \<noteq> None" "x \<notin> set (ys @ y # zs)"
  shows "\<exists>d'. dbg_TAILQ_INSERT_AFTER pl h y x d = Inr d' \<and> tailq (qmem d') h (ys @ y # x # zs)"
proof -
  from TAILQ_INSERT_AFTER_ok [OF assms] obtain m where
    m: "TAILQ_INSERT_AFTER h y x (qmem d) = Inr m" "tailq m h (ys @ y # x # zs)" by blast
  have "heads m h \<noteq> None" "elms m x \<noteq> None" "elms m y \<noteq> None"
    using tailq_head_live [OF m(2)] tailq_elem_live [OF m(2), of x] tailq_elem_live [OF m(2), of y] by simp_all
  with m tailq_check_elem(1) [OF assms(1)] tq.walk_next [OF assms(1)]
  show ?thesis by (cases zs) (simp_all add: dbg_TAILQ_INSERT_AFTER_def)
qed

lemma dbg_TAILQ_INSERT_BEFORE_ok:
  assumes "tailq (qmem d) h (ys @ y # zs)" "elms (qmem d) x \<noteq> None" "x \<notin> set (ys @ y # zs)"
  shows "\<exists>d'. dbg_TAILQ_INSERT_BEFORE pl y x d = Inr d' \<and> tailq (qmem d') h (ys @ x # y # zs)"
proof -
  from TAILQ_INSERT_BEFORE_ok [OF assms] obtain m where
    m: "TAILQ_INSERT_BEFORE y x (qmem d) = Inr m" "tailq m h (ys @ x # y # zs)" by blast
  have "elms m x \<noteq> None" "elms m y \<noteq> None"
    using tailq_elem_live [OF m(2), of x] tailq_elem_live [OF m(2), of y] by simp_all
  with m tailq_check_elem(2) [OF assms(1)] show ?thesis by (simp add: dbg_TAILQ_INSERT_BEFORE_def)
qed

lemma dbg_TAILQ_REMOVE_ok:
  assumes "tailq (qmem d) h (ys @ x # zs)"
  obtains d' where "dbg_TAILQ_REMOVE pl h x d = Inr d'" "tailq (qmem d') h (ys @ zs)"
    "dom (elms (qmem d')) = dom (elms (qmem d))" "elms (qmem d') x = Some tq_trashed"
    "\<And>a. a \<notin> set (ys @ x # zs) \<Longrightarrow> elms (qmem d') a = elms (qmem d) a"
    "etrace d' = (etrace d)(x := note_place pl (etrace d x))"
    "htrace d' = (if zs = [] then (htrace d)(h := note_place pl (htrace d h)) else htrace d)"
proof -
  from TAILQ_REMOVE_ok [OF assms] obtain m where
    m: "TAILQ_REMOVE h x (qmem d) = Inr m" "tailq m h (ys @ zs)" "q_frame h (set (ys @ zs)) (qmem d) m" by blast
  have x: "x \<notin> set (ys @ zs)" using assms by (simp add: tailq_def)
  have live: "elms m x \<noteq> None"
    using tailq_elem_live [OF assms, of x] m(3) x by (simp add: q_frame_def)
  obtain m' where m': "tq_trash x m = Inr m'" "tailq m' h (ys @ zs)" "elms m' = (elms m)(x \<mapsto> tq_trashed)"
    by (rule tq_trash_ok [OF m(2) x live])
  have dom: "dom (elms m') = dom (elms (qmem d))"
    using m(3) m'(3) live by (auto simp: q_frame_def)
  have out: "elms m' a = elms (qmem d) a" if "a \<notin> set (ys @ x # zs)" for a
    using m(3) m'(3) that by (simp add: q_frame_def)
  let ?d' = "d\<lparr>qmem := m', htrace := (if zs = [] then (htrace d)(h := note_place pl (htrace d h)) else htrace d),
    etrace := (etrace d)(x := note_place pl (etrace d x))\<rparr>"
  have "dbg_TAILQ_REMOVE pl h x d = Inr ?d'"
    using m(1) m'(1,3) tailq_head_live [OF m(2)] tailq_check_elem [OF assms] tq.walk_next [OF assms]
    by (simp add: dbg_TAILQ_REMOVE_def)
  then show thesis using m'(2,3) dom out by (intro that [of ?d']) simp_all
qed

text \<open>
  The replaced element is trashed and traced; the element that takes its place and the head are
  altered without a trace.
\<close>

lemma dbg_TAILQ_REPLACE_ok:
  assumes "tailq (qmem d) h (ys @ x # zs)" "elms (qmem d) x2 \<noteq> None" "x2 \<notin> set (ys @ x # zs)"
  obtains d' where "dbg_TAILQ_REPLACE pl h x x2 d = Inr d'" "tailq (qmem d') h (ys @ x2 # zs)"
    "elms (qmem d') x = Some tq_trashed" "htrace d' = htrace d"
    "etrace d' = (etrace d)(x := note_place pl (etrace d x))"
proof -
  from TAILQ_REPLACE_ok [OF assms] obtain m where
    m: "TAILQ_REPLACE h x x2 (qmem d) = Inr m" "tailq m h (ys @ x2 # zs)"
    "q_frame h (set (ys @ x2 # zs)) (qmem d) m" by blast
  have x: "x \<notin> set (ys @ x2 # zs)" using assms(1,3) by (auto simp: tailq_def)
  have live: "elms m x \<noteq> None"
    using tailq_elem_live [OF assms(1), of x] m(3) x by (simp add: q_frame_def)
  obtain m' where m': "tq_trash x m = Inr m'" "tailq m' h (ys @ x2 # zs)" "elms m' = (elms m)(x \<mapsto> tq_trashed)"
    by (rule tq_trash_ok [OF m(2) x live])
  let ?d' = "d\<lparr>qmem := m', etrace := (etrace d)(x := note_place pl (etrace d x))\<rparr>"
  have "dbg_TAILQ_REPLACE pl h x x2 d = Inr ?d'"
    using m(1) m'(1,3) tailq_check_elem [OF assms(1)] by (simp add: dbg_TAILQ_REPLACE_def)
  then show thesis using m'(2,3) by (intro that [of ?d']) simp_all
qed

lemma dbg_TAILQ_CONCAT_ok:
  assumes "tailq (qmem d) h1 xs" "tailq (qmem d) h2 ys" "h1 \<noteq> h2" "set xs \<inter> set ys = {}"
  shows "\<exists>d'. dbg_TAILQ_CONCAT pl h1 h2 d = Inr d' \<and> tailq (qmem d') h1 (xs @ ys) \<and> tailq (qmem d') h2 [] \<and>
    etrace d' = etrace d \<and>
    htrace d' = (if ys = [] then htrace d
                 else (htrace d)(h1 := note_place pl (htrace d h1),
                                 h2 := note_place pl (note_place pl (htrace d h2))))"
proof (cases "ys = []")
  case True
  then show ?thesis using assms by (simp add: dbg_TAILQ_CONCAT_def TAILQ_EMPTY_def tailq_def)
next
  case False
  from TAILQ_CONCAT_ok [OF assms] obtain m where
    m: "TAILQ_CONCAT h1 h2 (qmem d) = Inr m" "tailq m h1 (xs @ ys)" "tailq m h2 []" by blast
  have "TAILQ_EMPTY h2 (qmem d) = Inr False"
    using assms(2) False by (simp add: TAILQ_EMPTY_def tailq_def)
  moreover have "heads m h1 \<noteq> None" "heads m h2 \<noteq> None" using m(2,3) tailq_head_live by blast+
  ultimately show ?thesis using m False assms(3) by (simp add: dbg_TAILQ_CONCAT_def fun_upd_twist)
qed

lemma dbg_TAILQ_SWAP_ok:
  assumes "tailq (qmem d) h1 xs" "tailq (qmem d) h2 ys" "h1 \<noteq> h2" "set xs \<inter> set ys = {}"
  shows "\<exists>d'. dbg_TAILQ_SWAP h1 h2 d = Inr d' \<and> tailq (qmem d') h1 ys \<and> tailq (qmem d') h2 xs \<and>
    etrace d' = etrace d \<and> htrace d' = htrace d"
  using TAILQ_SWAP_ok [OF assms] by (auto simp: dbg_TAILQ_SWAP_def)

text \<open>
  A queue of the debugging build, in which those of the elements \<open>S\<close> that are not in the queue are
  trashed. It fulfils the contract of a queue.
\<close>

definition dbg_rep :: "addr set \<Rightarrow> nat \<Rightarrow> tq_debug \<Rightarrow> addr list \<Rightarrow> bool" where
  "dbg_rep S h d xs \<longleftrightarrow> tailq (qmem d) h xs \<and> (\<forall>x \<in> S - set xs. elms (qmem d) x = Some tq_trashed)"

lemma dbg_rep_frame:
  assumes "dbg_rep S h d xs" "tailq (qmem d') h (ys @ x # zs)" "xs = ys @ zs"
    and "q_frame h (set (ys @ x # zs)) (qmem d) (qmem d')"
  shows "dbg_rep S h d' (ys @ x # zs)"
  using assms by (auto simp: dbg_rep_def q_frame_def)

interpretation dq: op_queue "dbg_rep S h" "\<lambda>d. TAILQ_FIRST h (qmem d)" "\<lambda>x d. TAILQ_NEXT x (qmem d)"
  "\<lambda>d. dom (elms (qmem d))" "dbg_TAILQ_INSERT_TAIL pl h" "dbg_TAILQ_REMOVE pl h" "dbg_TAILQ_INSERT_HEAD pl h"
  for S h pl
proof
  fix d xs x
  assume a: "dbg_rep S h d xs" "x \<in> dom (elms (qmem d))" "x \<notin> set xs"
  then have t: "tailq (qmem d) h xs" "elms (qmem d) x \<noteq> None" by (auto simp: dbg_rep_def)
  show "\<exists>d'. dbg_TAILQ_INSERT_HEAD pl h x d = Inr d' \<and> dbg_rep S h d' (x # xs) \<and>
      dom (elms (qmem d')) = dom (elms (qmem d))"
    using dbg_TAILQ_INSERT_HEAD_ok [OF t a(3), of pl] dbg_rep_frame [OF a(1), of _ "[]" x xs]
    by (auto simp: q_frame_def)
  show "\<exists>d'. dbg_TAILQ_INSERT_TAIL pl h x d = Inr d' \<and> dbg_rep S h d' (xs @ [x]) \<and>
      dom (elms (qmem d')) = dom (elms (qmem d))"
    using dbg_TAILQ_INSERT_TAIL_ok [OF t a(3), of pl] dbg_rep_frame [OF a(1), of _ xs x "[]"]
    by (auto simp: q_frame_def)
next
  fix d ys x zs
  assume a: "dbg_rep S h d (ys @ x # zs)"
  then have "tailq (qmem d) h (ys @ x # zs)" by (simp add: dbg_rep_def)
  from dbg_TAILQ_REMOVE_ok [OF this, of pl] obtain d' where
    d': "dbg_TAILQ_REMOVE pl h x d = Inr d'" "tailq (qmem d') h (ys @ zs)"
    "dom (elms (qmem d')) = dom (elms (qmem d))" "elms (qmem d') x = Some tq_trashed"
    "\<And>a. a \<notin> set (ys @ x # zs) \<Longrightarrow> elms (qmem d') a = elms (qmem d) a" by metis
  have "elms (qmem d') z = Some tq_trashed" if "z \<in> S - set (ys @ zs)" for z
    using d'(4,5) a that by (cases "z = x") (auto simp: dbg_rep_def)
  then have "dbg_rep S h d' (ys @ zs)" using d'(2) by (simp add: dbg_rep_def)
  with d'(1,3) show "\<exists>d'. dbg_TAILQ_REMOVE pl h x d = Inr d' \<and> dbg_rep S h d' (ys @ zs) \<and>
      dom (elms (qmem d')) = dom (elms (qmem d))" by blast
qed (auto simp: dbg_rep_def intro: tq.rep_distinct tq.walk_first tq.walk_next)

text \<open>The elements of a history: those it inserts are trashed too once they have left the queue.\<close>

fun op_elem :: "queue_op \<Rightarrow> addr" where
  "op_elem (Ins_Head x) = x" | "op_elem (Ins_Tail x) = x" | "op_elem (Rem x) = x"

lemma run_ops_Cons: "run_ops ih it rm (q # qs) m = res_bind (run_ops ih it rm [q] m) (run_ops ih it rm qs)"
  by (cases q) (simp_all add: res_bind_assoc)

lemma dbg_rep_insert: "dbg_rep S h d xs \<Longrightarrow> x \<in> set xs \<Longrightarrow> dbg_rep (insert x S) h d xs"
  by (auto simp: dbg_rep_def)

lemma dbg_op_step:
  assumes "dbg_rep S h d xs" "op_ok (dom (elms (qmem d))) q xs"
  shows "\<exists>d'. run_ops (dbg_TAILQ_INSERT_HEAD pl h) (dbg_TAILQ_INSERT_TAIL pl h) (dbg_TAILQ_REMOVE pl h) [q] d = Inr d' \<and>
    dbg_rep (insert (op_elem q) S) h d' (list_op q xs) \<and> dom (elms (qmem d')) = dom (elms (qmem d))"
proof (cases q)
  case (Rem x)
  with assms have "dbg_rep (insert x S) h d xs" by (simp add: dbg_rep_insert)
  from dq.run_ops_ok [OF this, of "[q]" pl] assms(2) Rem show ?thesis by simp
qed (use dq.run_ops_ok [OF assms(1), of "[q]" pl] assms(2) dbg_rep_insert in fastforce)+

lemma dbg_run_ops:
  "dbg_rep S h d xs \<Longrightarrow> ops_ok (dom (elms (qmem d))) qs xs \<Longrightarrow>
   \<exists>d'. run_ops (dbg_TAILQ_INSERT_HEAD pl h) (dbg_TAILQ_INSERT_TAIL pl h) (dbg_TAILQ_REMOVE pl h) qs d = Inr d' \<and>
     dbg_rep (op_elem ` set qs \<union> S) h d' (fold list_op qs xs)"
proof (induction qs arbitrary: S d xs)
  case (Cons q qs)
  then obtain d1 where "run_ops (dbg_TAILQ_INSERT_HEAD pl h) (dbg_TAILQ_INSERT_TAIL pl h) (dbg_TAILQ_REMOVE pl h) [q] d = Inr d1"
    "dbg_rep (insert (op_elem q) S) h d1 (list_op q xs)" "dom (elms (qmem d1)) = dom (elms (qmem d))"
    using dbg_op_step [of S h d xs q pl] by auto
  with Cons.IH [of "insert (op_elem q) S" d1 "list_op q xs"] Cons.prems(2) show ?case
    by (simp add: run_ops_Cons [where qs = qs])
qed auto

text \<open>A loop that removes every element, with the loop macro that may do so.\<close>

interpretation ds: safe_loop "dbg_rep S h" "\<lambda>d. TAILQ_FIRST h (qmem d)" "\<lambda>x d. TAILQ_NEXT x (qmem d)"
  "dbg_TAILQ_REMOVE pl h" "\<lambda>d x. False" for S h pl
  by unfold_locales (use dq.remove_law in fastforce)

section \<open>Uses of a removed element\<close>

text \<open>An element whose links are trashed cannot be removed, and has no successor to go on with.\<close>

lemma trashed_remove:
  assumes "elms (qmem d) x = Some tq_trashed" "elms (qmem d) TRASHED = None"
  shows "dbg_TAILQ_REMOVE pl h x d = Inl Use_After_Free"
  using assms
  by (simp add: dbg_TAILQ_REMOVE_def checked_def QMD_TAILQ_CHECK_NEXT_def TAILQ_NEXT_def tq_trashed_def elm_at_def)

lemma no_trash_elem: "elms (qmem d) TRASHED = None \<Longrightarrow> dbg_TAILQ_REMOVE pl h TRASHED d = Inl Use_After_Free"
  by (simp add: dbg_TAILQ_REMOVE_def checked_def QMD_TAILQ_CHECK_NEXT_def TAILQ_NEXT_def elm_at_def)

lemma foreach_remove_traps:
  assumes "tailq (qmem d) h (x # xs)" "elms (qmem d) TRASHED = None" "2 \<le> n"
  shows "TAILQ_FOREACH qmem h (dbg_TAILQ_REMOVE pl h) n d = Inl Use_After_Free"
proof -
  obtain k where n: "n = Suc (Suc k)" using assms(3) by (cases n; cases "n - 1") auto
  obtain d' where d': "dbg_TAILQ_REMOVE pl h x d = Inr d'" "elms (qmem d') x = Some tq_trashed"
    "dom (elms (qmem d')) = dom (elms (qmem d))"
    by (rule dbg_TAILQ_REMOVE_ok [of d h "[]" x xs pl]) (use assms(1) in auto)
  have "elms (qmem d') TRASHED = None" using d'(3) assms(2) by auto
  then show ?thesis
    using d'(1,2) tq.walk_first [OF assms(1)] no_trash_elem [of d' pl h]
    by (simp add: TAILQ_FOREACH_def n TAILQ_NEXT_def tq_trashed_def)
qed

text \<open>The other families: the removal of the release build, and the removed element is trashed.\<close>

lemma le_trash_ok:
  assumes "dlist m h xs" "x \<notin> set xs" "elms m x \<noteq> None"
  shows "\<exists>m'. le_trash x m = Inr m' \<and> dlist m' h xs \<and>
    elms m' x = Some \<lparr>le_next = Some TRASHED, le_prev = Trash_Link\<rparr>"
proof -
  from assms(3) obtain e where "elms m x = Some e" by auto
  moreover have "dlist (m\<lparr>elms := (elms m)(x \<mapsto> t)\<rparr>) h xs" for t
    using assms(2) by (intro dlist_frame [OF assms(1)]) auto
  ultimately show ?thesis by (cases e) (simp add: le_trash_def)
qed

lemma dbg_LIST_REMOVE_ok:
  assumes "dlist m h (ys @ x # zs)"
  shows "\<exists>m'. dbg_LIST_REMOVE x m = Inr m' \<and> dlist m' h (ys @ zs) \<and>
    elms m' x = Some \<lparr>le_next = Some TRASHED, le_prev = Trash_Link\<rparr>"
proof -
  from LIST_REMOVE_ok [OF assms] obtain m1 where
    m1: "LIST_REMOVE x m = Inr m1" "dlist m1 h (ys @ zs)" "q_frame h (set (ys @ zs)) m m1" by blast
  have x: "x \<notin> set (ys @ zs)" using dlist_split(2) [OF assms] by simp
  have "elms m1 x \<noteq> None"
    using dlist_split(4) [OF assms] m1(3) x by (simp add: q_frame_def)
  from le_trash_ok [OF m1(2) x this] m1(1) dlist_check_elem [OF assms] show ?thesis
    by (simp add: dbg_LIST_REMOVE_def)
qed

lemma dbg_LIST_REPLACE_ok:
  assumes "dlist m h (ys @ x # zs)" "elms m x2 \<noteq> None" "x2 \<notin> set (ys @ x # zs)"
  shows "\<exists>m'. dbg_LIST_REPLACE x x2 m = Inr m' \<and> dlist m' h (ys @ x2 # zs) \<and>
    elms m' x = Some \<lparr>le_next = Some TRASHED, le_prev = Trash_Link\<rparr>"
proof -
  from LIST_REPLACE_ok [OF assms] obtain m1 where
    m1: "LIST_REPLACE x x2 m = Inr m1" "dlist m1 h (ys @ x2 # zs)" "q_frame h (set (ys @ x2 # zs)) m m1" by blast
  have x: "x \<notin> set (ys @ x2 # zs)" using dlist_split(2) [OF assms(1)] assms(3) by auto
  have "elms m1 x \<noteq> None"
    using dlist_split(4) [OF assms(1)] m1(3) x by (simp add: q_frame_def)
  from le_trash_ok [OF m1(2) x this] m1(1) dlist_check_elem [OF assms(1)] show ?thesis
    by (simp add: dbg_LIST_REPLACE_def)
qed

text \<open>On a well-formed list the checks of the insertions pass.\<close>

lemma dbg_LIST_INSERT_eq:
  "dlist m h xs \<Longrightarrow> dbg_LIST_INSERT_HEAD h x m = LIST_INSERT_HEAD h x m"
  "dlist m h (ys @ y # zs) \<Longrightarrow> dbg_LIST_INSERT_AFTER y x m = LIST_INSERT_AFTER y x m"
  "dlist m h (ys @ y # zs) \<Longrightarrow> dbg_LIST_INSERT_BEFORE y x m = LIST_INSERT_BEFORE y x m"
  using dlist_check_head [of m h xs] dlist_check_elem [of m h ys y zs]
  by (simp_all add: dbg_LIST_INSERT_HEAD_def dbg_LIST_INSERT_AFTER_def dbg_LIST_INSERT_BEFORE_def)

lemma dbg_STAILQ_REMOVE_ok:
  assumes "stailq m h (ys @ x # zs)" "length ys \<le> n"
  shows "\<exists>m'. dbg_STAILQ_REMOVE n h x m = Inr m' \<and> stailq m' h (ys @ zs) \<and>
    elms m' x = Some \<lparr>stqe_next = Some TRASHED\<rparr>"
proof -
  from STAILQ_REMOVE_ok [OF assms] obtain m1 where
    m1: "STAILQ_REMOVE n h x m = Inr m1" "stailq m1 h (ys @ zs)" "q_frame h (set ys) m m1" by blast
  have x: "x \<notin> set (ys @ zs)" using stailq_split(2) [OF assms(1)] by simp
  obtain e where "elms m1 x = Some e"
    using stailq_split(4) [OF assms(1)] m1(3) x by (simp add: q_frame_def)
  then show ?thesis
    using m1(1,2) x by (cases e) (simp add: dbg_STAILQ_REMOVE_def st_trash_def stailq_def)
qed

lemma sl_trash_ok:
  assumes "slist m h xs" "x \<notin> set xs" "elms m x \<noteq> None"
  shows "\<exists>m'. sl_trash x m = Inr m' \<and> slist m' h xs \<and> elms m' x = Some \<lparr>sle_next = Some TRASHED\<rparr>"
proof -
  from assms(3) obtain e where "elms m x = Some e" by auto
  with assms(1,2) show ?thesis by (cases e) (simp add: sl_trash_def slist_def)
qed

lemma dbg_SLIST_REMOVE_HEAD_ok:
  assumes "slist m h (x # xs)"
  shows "\<exists>m'. dbg_SLIST_REMOVE_HEAD h m = Inr m' \<and> slist m' h xs \<and>
    elms m' x = Some \<lparr>sle_next = Some TRASHED\<rparr>"
proof -
  from SLIST_REMOVE_HEAD_ok [OF assms] obtain m1 where
    m1: "SLIST_REMOVE_HEAD h m = Inr m1" "slist m1 h xs" "q_frame h {} m m1" by blast
  have "x \<notin> set xs" "elms m1 x \<noteq> None"
    using slist_split(2,4) [of m h "[]" x xs] assms m1(3) by (simp_all add: q_frame_def)
  from sl_trash_ok [OF m1(2) this] m1(1) sl.walk_first [OF assms] show ?thesis
    by (simp add: dbg_SLIST_REMOVE_HEAD_def)
qed

lemma dbg_SLIST_REMOVE_AFTER_ok:
  assumes "slist m h (ys @ y # x # zs)"
  shows "\<exists>m'. dbg_SLIST_REMOVE_AFTER y m = Inr m' \<and> slist m' h (ys @ y # zs) \<and>
    elms m' x = Some \<lparr>sle_next = Some TRASHED\<rparr>"
proof -
  from SLIST_REMOVE_AFTER_ok [OF assms] obtain m1 where
    m1: "SLIST_REMOVE_AFTER y m = Inr m1" "slist m1 h (ys @ y # zs)" "q_frame h {y} m m1" by blast
  have x: "x \<notin> set (ys @ y # zs)" "elms m x \<noteq> None" "x \<noteq> y"
    using slist_split(2,4) [of m h "ys @ [y]" x zs] assms by auto
  then have "elms m1 x \<noteq> None" using m1(3) by (simp add: q_frame_def)
  from sl_trash_ok [OF m1(2) x(1) this] m1(1) sl.walk_next [OF assms] show ?thesis
    by (simp add: dbg_SLIST_REMOVE_AFTER_def)
qed

lemma dbg_SLIST_REMOVE_ok:
  assumes "slist m h (ys @ x # zs)" "length ys \<le> n"
  shows "\<exists>m'. dbg_SLIST_REMOVE n h x m = Inr m' \<and> slist m' h (ys @ zs) \<and>
    elms m' x = Some \<lparr>sle_next = Some TRASHED\<rparr>"
proof (cases ys rule: rev_cases)
  case Nil
  with assms dbg_SLIST_REMOVE_HEAD_ok [of m h x zs] sl.walk_first [OF assms(1)] show ?thesis
    by (auto simp: dbg_SLIST_REMOVE_def)
next
  case (snoc us y)
  with assms have r: "slist m h (us @ y # x # zs)" "length us < n" by simp_all
  have "hd_or ys (Some x) = hd_or us (Some y)" "hd_or us (Some y) \<noteq> Some x"
    using snoc sl.rep_distinct [OF r(1)] by (cases us; auto)+
  with dbg_SLIST_REMOVE_AFTER_ok [OF r(1)] sl.find_prev_ok [OF r] sl.walk_first [OF assms(1)] snoc
  show ?thesis by (auto simp: dbg_SLIST_REMOVE_def)
qed

lemma dbg_SLIST_REMOVE_PREVPTR_ok:
  assumes "slist m h (ys @ x # zs)"
  shows "\<exists>m'. dbg_SLIST_REMOVE_PREVPTR (last_link (First_of h) ys) x m = Inr m' \<and> slist m' h (ys @ zs) \<and>
    elms m' x = Some \<lparr>sle_next = Some TRASHED\<rparr>"
proof -
  from SLIST_REMOVE_PREVPTR_ok(1) [OF assms] obtain m1 where
    m1: "SLIST_REMOVE_PREVPTR (last_link (First_of h) ys) x m = Inr m1" "slist m1 h (ys @ zs)"
    "q_frame h (set ys) m m1" by blast
  have x: "x \<notin> set (ys @ zs)" "elms m x \<noteq> None" using slist_split(2,4) [OF assms] by auto
  then have "elms m1 x \<noteq> None" using m1(3) by (simp add: q_frame_def)
  from sl_trash_ok [OF m1(2) x(1) this] m1(1) SLIST_REMOVE_PREVPTR_ok(2) [OF assms] show ?thesis
    by (simp add: dbg_SLIST_REMOVE_PREVPTR_def)
qed

section \<open>Properties\<close>

definition tq_debug_example :: tq_debug where
  "tq_debug_example =
     \<lparr>qmem = tq_example, htrace = (\<lambda>h. TRACEBUF_INITIALIZER (96, ''aesdsocket.c'')),
      etrace = (\<lambda>x. \<lparr>lastline = 0, prevline = 0, lastfile = None, prevfile = None\<rparr>)\<rparr>"

text \<open>
  C32: The debugging build of the tail queue does what the release build
  does: starting from the same elements, any admissible sequence of insertions at either end and
  removals passes all checks of the debugging build, succeeds in both builds, and leaves the same
  elements in the same order. In the debugging build both links of every element that has left the
  queue, be it one of the first elements or one inserted on the way, are then trashed.
\<close>

theorem debug_build_equivalent:
  assumes "tailq m h xs" "tailq (qmem d) h xs"
    and "ops_ok (dom (elms m)) qs xs" "dom (elms (qmem d)) = dom (elms m)"
  shows "\<exists>m' d'.
    run_ops (TAILQ_INSERT_HEAD h) (TAILQ_INSERT_TAIL h) (TAILQ_REMOVE h) qs m = Inr m' \<and>
    run_ops (dbg_TAILQ_INSERT_HEAD pl h) (dbg_TAILQ_INSERT_TAIL pl h) (dbg_TAILQ_REMOVE pl h) qs d = Inr d' \<and>
    tailq m' h (fold list_op qs xs) \<and> tailq (qmem d') h (fold list_op qs xs) \<and>
    (\<forall>x. x \<in> set xs \<or> Ins_Head x \<in> set qs \<or> Ins_Tail x \<in> set qs \<longrightarrow> x \<notin> set (fold list_op qs xs) \<longrightarrow>
       elms (qmem d') x = Some \<lparr>tqe_next = Some TRASHED, tqe_prev = Trash_Link\<rparr>)"
proof -
  from tq.run_ops_ok [OF assms(1,3)] obtain m' where
    m': "run_ops (TAILQ_INSERT_HEAD h) (TAILQ_INSERT_TAIL h) (TAILQ_REMOVE h) qs m = Inr m'"
    "tailq m' h (fold list_op qs xs)" by blast
  have "dbg_rep (set xs) h d xs" using assms(2) by (simp add: dbg_rep_def)
  from dbg_run_ops [OF this, of qs pl] assms(3,4) obtain d' where
    d': "run_ops (dbg_TAILQ_INSERT_HEAD pl h) (dbg_TAILQ_INSERT_TAIL pl h) (dbg_TAILQ_REMOVE pl h) qs d = Inr d'"
    "dbg_rep (op_elem ` set qs \<union> set xs) h d' (fold list_op qs xs)" by auto
  have "elms (qmem d') x = Some tq_trashed"
    if "x \<in> set xs \<or> Ins_Head x \<in> set qs \<or> Ins_Tail x \<in> set qs" "x \<notin> set (fold list_op qs xs)" for x
  proof -
    have "x \<in> op_elem ` set qs \<union> set xs" using that(1) by (metis UnI1 UnI2 imageI op_elem.simps(1,2))
    then show ?thesis using d'(2) that(2) by (simp add: dbg_rep_def)
  qed
  with m' d' show ?thesis by (simp add: dbg_rep_def tq_trashed_def)
qed

theorem debug_build_equivalent_witness:
  "\<exists>m' d'. run_ops (TAILQ_INSERT_HEAD 0) (TAILQ_INSERT_TAIL 0) (TAILQ_REMOVE 0) [Ins_Head 4, Rem 1, Rem 4] tq_example = Inr m' \<and>
     run_ops (dbg_TAILQ_INSERT_HEAD (130, ''f'') 0) (dbg_TAILQ_INSERT_TAIL (130, ''f'') 0)
       (dbg_TAILQ_REMOVE (130, ''f'') 0) [Ins_Head 4, Rem 1, Rem 4] tq_debug_example = Inr d' \<and>
     tailq m' 0 [2] \<and> tailq (qmem d') 0 [2] \<and>
     elms (qmem d') 1 = Some \<lparr>tqe_next = Some TRASHED, tqe_prev = Trash_Link\<rparr> \<and>
     elms (qmem d') 4 = Some \<lparr>tqe_next = Some TRASHED, tqe_prev = Trash_Link\<rparr>"
proof -
  let ?qs = "[Ins_Head 4, Rem 1, Rem 4]"
  have q: "qmem tq_debug_example = tq_example" by (simp add: tq_debug_example_def)
  have "ops_ok (dom (elms tq_example)) ?qs [1, 2]" by (auto simp: tq_example_def)
  with debug_build_equivalent [OF tq_example_rep(1), of tq_debug_example ?qs "(130, ''f'')"]
    tq_example_rep(1) q obtain m' d' where
    "run_ops (TAILQ_INSERT_HEAD 0) (TAILQ_INSERT_TAIL 0) (TAILQ_REMOVE 0) ?qs tq_example = Inr m'"
    "run_ops (dbg_TAILQ_INSERT_HEAD (130, ''f'') 0) (dbg_TAILQ_INSERT_TAIL (130, ''f'') 0)
       (dbg_TAILQ_REMOVE (130, ''f'') 0) ?qs tq_debug_example = Inr d'"
    "tailq m' 0 [2]" "tailq (qmem d') 0 [2]"
    "\<forall>x. x \<in> {1, 2, 4} \<longrightarrow> x \<noteq> 2 \<longrightarrow> elms (qmem d') x = Some \<lparr>tqe_next = Some TRASHED, tqe_prev = Trash_Link\<rparr>"
    by (auto simp del: run_ops.simps)
  then show ?thesis by (intro exI [of _ m'] exI [of _ d']) (simp del: run_ops.simps)
qed

text \<open>
  C33: What the debugging build adds to a removal. The removed element's
  trace holds the place of the removal and, before it, the place it held as the last one, and its
  links are trashed; hence removing it once more is an access to the address \<open>-1\<close>, which no object
  has, instead of a silent corruption. For the same reason a loop of \<open>TAILQ_FOREACH\<close> that removes the
  element it visits is trapped, whereas \<open>TAILQ_FOREACH_SAFE\<close> empties the queue.
\<close>

theorem debug_removal_trapped:
  assumes "tailq (qmem d) h (ys @ x # zs)" "elms (qmem d) TRASHED = None" "length (ys @ x # zs) < n"
  shows "\<exists>d' d''. dbg_TAILQ_REMOVE pl h x d = Inr d' \<and> tailq (qmem d') h (ys @ zs) \<and>
    lastline (etrace d' x) = fst pl \<and> prevline (etrace d' x) = lastline (etrace d x) \<and>
    lastfile (etrace d' x) = Some (snd pl) \<and> prevfile (etrace d' x) = lastfile (etrace d x) \<and>
    dbg_TAILQ_REMOVE pl h x d' = Inl Use_After_Free \<and>
    TAILQ_FOREACH qmem h (dbg_TAILQ_REMOVE pl h) n d = Inl Use_After_Free \<and>
    TAILQ_FOREACH_SAFE qmem h (dbg_TAILQ_REMOVE pl h) n d = Inr d'' \<and> tailq (qmem d'') h []"
proof -
  obtain d' where d': "dbg_TAILQ_REMOVE pl h x d = Inr d'" "tailq (qmem d') h (ys @ zs)"
    "dom (elms (qmem d')) = dom (elms (qmem d))" "elms (qmem d') x = Some tq_trashed"
    "etrace d' = (etrace d)(x := note_place pl (etrace d x))"
    by (rule dbg_TAILQ_REMOVE_ok [OF assms(1), of pl])
  have "elms (qmem d') TRASHED = None" using d'(3) assms(2) by auto
  note again = trashed_remove [OF d'(4) this, of pl h]
  obtain v vs where v: "ys @ x # zs = v # vs" by (cases ys) auto
  then have "2 \<le> n" using assms(3) by auto
  with v foreach_remove_traps [of d h v vs n pl] assms(1,2)
  have plain: "TAILQ_FOREACH qmem h (dbg_TAILQ_REMOVE pl h) n d = Inl Use_After_Free" by simp
  have "dbg_rep {} h d (ys @ x # zs)" using assms(1) by (simp add: dbg_rep_def)
  from ds.loop_filters [OF this, of n pl] assms(3) obtain d'' where
    "TAILQ_FOREACH_SAFE qmem h (dbg_TAILQ_REMOVE pl h) n d = Inr d''" "tailq (qmem d'') h []"
    by (auto simp: TAILQ_FOREACH_SAFE_def dbg_rep_def)
  with d'(1,2,5) again plain show ?thesis by (auto simp: note_place_eq)
qed

theorem debug_removal_trapped_witness:
  "\<exists>d'. dbg_TAILQ_REMOVE (162, ''f'') 0 1 tq_debug_example = Inr d' \<and> tailq (qmem d') 0 [2] \<and>
     lastline (etrace d' 1) = 162 \<and> dbg_TAILQ_REMOVE (162, ''f'') 0 1 d' = Inl Use_After_Free"
proof -
  have q: "qmem tq_debug_example = tq_example" by (simp add: tq_debug_example_def)
  have "elms tq_example TRASHED = None" by (simp add: tq_example_def TRASHED_def)
  then show ?thesis
    using debug_removal_trapped [of tq_debug_example 0 "[]" 1 "[2]" 3 "(162, ''f'')"] tq_example_rep(1)
    by (auto simp: q)
qed

text \<open>
  The traces miss changes: replacing an element alters the element that takes its place, swapping
  two queues alters both heads, and neither is noted; concatenating notes the same place twice in
  the head it empties, so that the place before it is lost.
\<close>

lemma debug_trace_gaps:
  assumes "tailq (qmem d) h (ys @ x # zs)" "elms (qmem d) x2 \<noteq> None" "x2 \<notin> set (ys @ x # zs)"
    and "tailq (qmem d) k vs" "h \<noteq> k" "vs \<noteq> []" "set (ys @ x # zs) \<inter> set vs = {}"
  shows "(\<exists>d'. dbg_TAILQ_REPLACE pl h x x2 d = Inr d' \<and> tailq (qmem d') h (ys @ x2 # zs) \<and>
      etrace d' x2 = etrace d x2 \<and> htrace d' h = htrace d h) \<and>
    (\<exists>d'. dbg_TAILQ_SWAP h k d = Inr d' \<and> tailq (qmem d') h vs \<and> htrace d' = htrace d) \<and>
    (\<exists>d'. dbg_TAILQ_CONCAT pl h k d = Inr d' \<and> tailq (qmem d') k [] \<and>
      lastline (htrace d' k) = fst pl \<and> prevline (htrace d' k) = fst pl)"
proof (intro conjI)
  obtain d' where "dbg_TAILQ_REPLACE pl h x x2 d = Inr d'" "tailq (qmem d') h (ys @ x2 # zs)"
    "htrace d' = htrace d" "etrace d' = (etrace d)(x := note_place pl (etrace d x))"
    by (rule dbg_TAILQ_REPLACE_ok [OF assms(1-3), of pl])
  with assms(3) show "\<exists>d'. dbg_TAILQ_REPLACE pl h x x2 d = Inr d' \<and> tailq (qmem d') h (ys @ x2 # zs) \<and>
      etrace d' x2 = etrace d x2 \<and> htrace d' h = htrace d h" by auto
  show "\<exists>d'. dbg_TAILQ_SWAP h k d = Inr d' \<and> tailq (qmem d') h vs \<and> htrace d' = htrace d"
    using dbg_TAILQ_SWAP_ok [OF assms(1,4,5,7)] by blast
  show "\<exists>d'. dbg_TAILQ_CONCAT pl h k d = Inr d' \<and> tailq (qmem d') k [] \<and>
      lastline (htrace d' k) = fst pl \<and> prevline (htrace d' k) = fst pl"
    using dbg_TAILQ_CONCAT_ok [OF assms(1,4,5,7), of pl] assms(6) by (auto simp: note_place_eq)
qed

end
