(* ===== verification/System_Calls.thy ===== *)
theory System_Calls
  imports Prelude
begin

unbundle bit_operations_syntax

text \<open>
  Running other programs: \<open>examples/systemcalls/systemcalls.c\<close>. The state is what the calling
  process has: its children that have not been waited for, in the order in which they end,
  its descriptors, the files, and what went to its standard output. Forking, the programs
  themselves and the scheduling are the parameter \<open>Y\<close>. The child's part of \<open>do_exec\<close> and
  \<open>do_exec_redirect\<close> is a function that gives the status and the output the child ends with.
\<close>

section \<open>Status of a process\<close>

text \<open>How a process ends, and the 16 bits \<open>wait\<close> stores for it.\<close>

datatype ending = Exited uint8 | Signaled nat bool

definition wait_status :: "ending \<Rightarrow> uint32" where
  "wait_status e =
     (case e of
        Exited code \<Rightarrow> push_bit 8 (ucast code)
      | Signaled sig core \<Rightarrow> of_nat (sig + (if core then 128 else 0)))"

fun valid_ending :: "ending \<Rightarrow> bool" where
  "valid_ending (Exited code) \<longleftrightarrow> True"
| "valid_ending (Signaled sig core) \<longleftrightarrow> 0 < sig \<and> sig < 127"

definition WIFEXITED :: "uint32 \<Rightarrow> bool" where
  "WIFEXITED wstatus \<longleftrightarrow> wstatus AND 0x7f = 0"

definition WEXITSTATUS :: "uint32 \<Rightarrow> uint32" where
  "WEXITSTATUS wstatus = drop_bit 8 (wstatus AND 0xff00)"

definition SIGABRT :: nat where "SIGABRT = 6"

section \<open>State and environment\<close>

datatype sink = Stdout | File string | Closed

record child =
  cpid :: int
  cstatus :: uint32
  cout :: "byte list"          \<comment> \<open>what it writes to its standard output\<close>
  csink :: sink                \<comment> \<open>where that goes\<close>

record process =
  children :: "child list"
  pfds :: "int set"
  pfiles :: "string \<rightharpoonup> byte list"
  pstdout :: "byte list"

type_synonym command = "string option list"

record procs =
  system_res :: "string option \<Rightarrow> int"
  fork_res :: int                                  \<comment> \<open>-1, or the new process\<close>
  execv :: "string option \<Rightarrow> command \<Rightarrow> (ending \<times> byte list) option"
    \<comment> \<open>what becomes of the program, or \<open>None\<close> when \<open>execv\<close> returns\<close>
  dup2_ok :: bool
  open_res :: "string \<Rightarrow> int set \<Rightarrow> int"
  ends_after :: nat                                \<comment> \<open>older children that end before the new one\<close>
  wait_ok :: bool

definition procs_laws :: "procs \<Rightarrow> bool" where
  "procs_laws Y \<longleftrightarrow>
     (fork_res Y = - 1 \<or> 0 < fork_res Y) \<and> (\<forall>c. execv Y None c = None) \<and>
     (\<forall>f c e bs. execv Y f c = Some (e, bs) \<longrightarrow> valid_ending e) \<and>
     (\<forall>f F. open_res Y f F = - 1 \<or> 0 \<le> open_res Y f F \<and> open_res Y f F \<notin> F)"

section \<open>Operations\<close>

definition do_system :: "procs \<Rightarrow> string option \<Rightarrow> bool" where
  "do_system Y cmd \<longleftrightarrow> system_res Y cmd = 0"

text \<open>
  Filling \<open>command\<close> from the variable arguments: \<open>junk\<close> is the array of \<open>count + 1\<close> elements
  before that.
\<close>

function va_loop :: "int \<Rightarrow> int \<Rightarrow> string list \<Rightarrow> command \<Rightarrow> command res" where
  "va_loop i count args command =
     (if i < count then
        (case args of
           [] \<Rightarrow> Inl Out_Of_Bounds
         | x # xs \<Rightarrow> res_bind (array_set command (nat i) (Some x)) (va_loop (i + 1) count xs))
      else Inr command)"
  by auto
termination by (relation "measure (\<lambda>(i, count, args, command). nat (count - i))") auto

declare va_loop.simps [simp del]

definition collect_command :: "int \<Rightarrow> string list \<Rightarrow> command \<Rightarrow> command res" where
  "collect_command count args junk =
     (if count < 0 then Inl Out_Of_Bounds
      else res_bind (va_loop 0 count args junk) (\<lambda>command. array_set command (nat count) NULL))"

text \<open>The child after \<open>fork\<close>: \<open>execv\<close>, and \<open>abort\<close> when that returns.\<close>

definition child_exec :: "procs \<Rightarrow> command \<Rightarrow> sink \<Rightarrow> (uint32 \<times> byte list \<times> sink) res" where
  "child_exec Y command out =
     res_bind (array_get command 0) (\<lambda>path.
       case execv Y path command of
         Some (e, bs) \<Rightarrow> Inr (wait_status e, bs, out)
       | None \<Rightarrow> Inr (wait_status (Signaled SIGABRT False), [], out))"

definition fork_child :: "procs \<Rightarrow> uint32 \<times> byte list \<times> sink \<Rightarrow> process \<Rightarrow> process" where
  "fork_child Y r s =
     (case r of (st, bs, out) \<Rightarrow>
        let c = \<lparr>cpid = fork_res Y, cstatus = st, cout = bs, csink = out\<rparr> in
        s\<lparr>children := take (ends_after Y) (children s) @ c # drop (ends_after Y) (children s)\<rparr>)"

text \<open>\<open>wait\<close>: the first child to end, whose output is then complete; -1 without children.\<close>

definition deliver :: "child \<Rightarrow> process \<Rightarrow> process" where
  "deliver c s =
     (case csink c of
        Stdout \<Rightarrow> s\<lparr>pstdout := pstdout s @ cout c\<rparr>
      | File f \<Rightarrow> s\<lparr>pfiles := (pfiles s)(f \<mapsto> the (pfiles s f) @ cout c)\<rparr>
      | Closed \<Rightarrow> s)"

definition wait_child :: "procs \<Rightarrow> process \<Rightarrow> int \<times> uint32 \<times> process" where
  "wait_child Y s =
     (case children s of
        [] \<Rightarrow> (- 1, 0, s)
      | c # cs \<Rightarrow> if wait_ok Y then (cpid c, cstatus c, deliver c (s\<lparr>children := cs\<rparr>)) else (- 1, 0, s))"

text \<open>The parent after \<open>fork\<close>, the same in both functions.\<close>

definition wait_result :: "procs \<Rightarrow> process \<Rightarrow> bool \<times> process" where
  "wait_result Y s =
     (case wait_child Y s of (wait_res, wstatus, s') \<Rightarrow>
        if wait_res < 0 then (False, s')
        else (WIFEXITED wstatus \<and> WEXITSTATUS wstatus = 0, s'))"

definition do_exec :: "procs \<Rightarrow> command \<Rightarrow> int \<Rightarrow> string list \<Rightarrow> process \<Rightarrow> (bool \<times> process) res" where
  "do_exec Y junk count args s =
     res_bind (collect_command count args junk) (\<lambda>command.
       if fork_res Y = - 1 then Inr (False, s)
       else res_bind (child_exec Y command Stdout) (\<lambda>r. Inr (wait_result Y (fork_child Y r s))))"



section \<open>Status words\<close>

lemma low_masks: "(0x7f :: uint32) = mask 7" "(0xff :: uint32) = mask 8"
  by (simp_all add: mask_eq_exp_minus_1)

lemma WIFEXITED_mod: "WIFEXITED w \<longleftrightarrow> unat w mod 128 = 0"
proof -
  have "unat (w AND 0x7f) = unat w mod 128"
    unfolding low_masks take_bit_eq_mask [symmetric] by (simp add: unat_mod take_bit_eq_mod)
  then show ?thesis by (metis WIFEXITED_def unat_eq_zero)
qed

lemma WIFEXITED_exited: "WIFEXITED (push_bit 8 w)"
  unfolding WIFEXITED_def low_masks by (rule bit_word_eqI) (auto simp: bit_simps)

lemma WEXITSTATUS_exited: "WEXITSTATUS (push_bit 8 (ucast (code :: uint8))) = ucast code"
proof -
  have m: "(0xff00 :: uint32) = push_bit 8 (mask 8)" by (simp add: mask_eq_exp_minus_1)
  show ?thesis
    unfolding WEXITSTATUS_def m by (intro bit_word_eqI) (auto simp: bit_simps dest: bit_imp_le_length)
qed

lemma exited_zero:
  assumes "valid_ending e"
  shows "WIFEXITED (wait_status e) \<and> WEXITSTATUS (wait_status e) = 0 \<longleftrightarrow> e = Exited 0"
proof (cases e)
  case (Exited code)
  have "ucast (ucast code :: uint32) = code" by (rule ucast_up_ucast_id) (simp add: is_up)
  then have "(ucast code :: uint32) = 0 \<longleftrightarrow> code = 0" by (metis ucast_0)
  with Exited show ?thesis by (simp add: wait_status_def WIFEXITED_exited WEXITSTATUS_exited)
next
  case (Signaled sig core)
  then have "sig < 127" "0 < sig" using assms by simp_all
  moreover have "unat (of_nat n :: uint32) = n" if "n < 256" for n
    using that by (simp only: unat_of_nat) simp
  ultimately have "unat (wait_status e) mod 128 = sig"
    by (auto simp only: Signaled wait_status_def ending.case split: if_split) simp_all
  then show ?thesis using Signaled assms by (simp add: WIFEXITED_mod)
qed

section \<open>Collecting arguments\<close>

lemma va_loop_ok:
  assumes "length command = Suc (length pre + length args)" "take (length pre) command = pre"
  shows "\<exists>x. va_loop (int (length pre)) (int (length pre + length args)) args command =
    Inr (pre @ map Some args @ [x])"
  using assms
proof (induction args arbitrary: pre command)
  case Nil
  then have "command = pre @ [last command]"
    by (metis append_butlast_last_id butlast_conv_take diff_Suc_1 length_0_conv list.size(3) nat.distinct(1) add_0_right)
  then show ?case by (subst va_loop.simps) (auto intro: exI [of _ "last command"])
next
  case (Cons a args)
  let ?c = "command[length pre := Some a]" and ?pre = "pre @ [Some a]"
  have "take (length ?pre) ?c = ?pre"
    using Cons.prems by (simp add: take_Suc_conv_app_nth)
  from Cons.IH [of ?c ?pre, OF _ this] Cons.prems(1) show ?case
    by (subst va_loop.simps) (simp add: algebra_simps)
qed

lemma collect_command_ok:
  assumes "length junk = Suc (length args)"
  shows "collect_command (int (length args)) args junk = Inr (map Some args @ [NULL])"
proof -
  obtain x where "va_loop 0 (int (length args)) args junk = Inr (map Some args @ [x])"
    using va_loop_ok [of junk "[]" args] assms by auto
  then show ?thesis by (simp add: collect_command_def list_update_append)
qed

section \<open>Waiting\<close>

text \<open>What the command comes to: how it ends, or the abort of a child that cannot run it.\<close>

definition outcome :: "procs \<Rightarrow> string list \<Rightarrow> ending \<times> byte list" where
  "outcome Y args =
     (case execv Y (Some (hd args)) (map Some args @ [NULL]) of
        Some r \<Rightarrow> r | None \<Rightarrow> (Signaled SIGABRT False, []))"

lemma outcome_valid: "procs_laws Y \<Longrightarrow> valid_ending (fst (outcome Y args))"
  by (auto simp: outcome_def procs_laws_def SIGABRT_def split: option.split)

lemma child_exec_ok:
  assumes "args \<noteq> []"
  shows "child_exec Y (map Some args @ [NULL]) out =
    Inr (wait_status (fst (outcome Y args)), snd (outcome Y args), out)"
  using assms
  by (cases args) (auto simp: child_exec_def outcome_def array_get_def split: option.split)

text \<open>The child that was started, and the older children a process may have.\<close>

definition own_child :: "procs \<Rightarrow> ending \<Rightarrow> byte list \<Rightarrow> sink \<Rightarrow> child" where
  "own_child Y e bs out = \<lparr>cpid = fork_res Y, cstatus = wait_status e, cout = bs, csink = out\<rparr>"

definition child_ok :: "child \<Rightarrow> bool" where
  "child_ok c \<longleftrightarrow> 0 < cpid c \<and> (\<exists>e. valid_ending e \<and> cstatus c = wait_status e)"

lemma status_zero:
  assumes "child_ok c"
  shows "WIFEXITED (cstatus c) \<and> WEXITSTATUS (cstatus c) = 0 \<longleftrightarrow> cstatus c = wait_status (Exited 0)"
proof -
  from assms obtain e where e: "valid_ending e" "cstatus c = wait_status e" by (auto simp: child_ok_def)
  have "e = Exited 0 \<longleftrightarrow> wait_status e = wait_status (Exited 0)"
    using exited_zero [OF e(1)] exited_zero [of "Exited 0"] by auto
  with exited_zero [OF e(1)] e(2) show ?thesis by simp
qed

text \<open>
  What \<open>wait\<close> comes to: it fails; or the process has no other child, or none that ends first, and
  waits for the one it has just started; or an older child ends first, its status is
  taken for that of the command, and the child that was started is left unwaited for.
\<close>

definition with_own :: "procs \<Rightarrow> child \<Rightarrow> child list \<Rightarrow> child list" where
  "with_own Y c cs = take (ends_after Y) cs @ c # drop (ends_after Y) cs"

lemma wait_result_eq:
  assumes "0 < fork_res Y" "valid_ending e" "\<forall>c \<in> set (children s). child_ok c"
  shows "wait_result Y (fork_child Y (wait_status e, bs, out) s) =
    (let own = own_child Y e bs out in
     if \<not> wait_ok Y then (False, s\<lparr>children := with_own Y own (children s)\<rparr>)
     else if children s = [] \<or> ends_after Y = 0 then (e = Exited 0, deliver own s)
     else (cstatus (hd (children s)) = wait_status (Exited 0),
           deliver (hd (children s)) (s\<lparr>children := tl (with_own Y own (children s))\<rparr>)))"
proof -
  let ?own = "own_child Y e bs out"
  have fk: "fork_child Y (wait_status e, bs, out) s = s\<lparr>children := with_own Y ?own (children s)\<rparr>"
    by (simp add: fork_child_def own_child_def with_own_def Let_def)
  have ok: "0 < cpid ?own" using assms(1) by (simp add: own_child_def)
  have own: "WIFEXITED (cstatus ?own) \<and> WEXITSTATUS (cstatus ?own) = 0 \<longleftrightarrow> e = Exited 0"
    using exited_zero [OF assms(2)] by (simp add: own_child_def)
  consider "\<not> wait_ok Y" | "wait_ok Y" "children s = [] \<or> ends_after Y = 0"
    | c cs k where "wait_ok Y" "children s = c # cs" "ends_after Y = Suc k"
    by (cases "children s"; cases "ends_after Y") auto
  then show ?thesis
  proof cases
    case 1
    then show ?thesis unfolding fk by (simp add: wait_result_def wait_child_def split: list.split)
  next
    case 2
    then have "with_own Y ?own (children s) = ?own # children s" by (auto simp: with_own_def)
    with 2 ok own show ?thesis unfolding fk by (simp add: wait_result_def wait_child_def)
  next
    case 3
    with assms(3) have "child_ok c" by simp
    with status_zero [OF this] 3 show ?thesis
      unfolding fk by (simp add: wait_result_def wait_child_def child_ok_def with_own_def)
  qed
qed

section \<open>Properties\<close>

definition demo_procs :: procs where
  "demo_procs =
     \<lparr>system_res = (\<lambda>_. 0), fork_res = 42,
      execv = (\<lambda>f c. if f = Some ''/bin/echo'' then Some (Exited 0, [104, 105, 10]) else None),
      dup2_ok = True, open_res = (\<lambda>f F. if 3 \<in> F then - 1 else 3), ends_after = 0, wait_ok = True\<rparr>"

lemma demo_procs_laws: "procs_laws demo_procs"
  by (auto simp: procs_laws_def demo_procs_def split: if_splits)

definition lone_process :: process where
  "lone_process = \<lparr>children = [], pfds = {0, 1, 2}, pfiles = Map.empty, pstdout = []\<rparr>"

text \<open>
  C37: Every outcome of \<open>do_exec\<close>. When no process can be created or \<open>wait\<close> fails, the result is
  false; in the second case the child is left over. When the process has no other child, or none
  that ends before the command, the result is true exactly when the command could be run with the
  given arguments and exited with status 0 (a command that cannot be run and one killed by a
  signal give false), its output is on the standard output, and it is not left over. When an
  older child ends first, the result is true exactly when that one exited with status 0, whatever
  becomes of the command, which is left over.
\<close>

theorem do_exec_correct:
  assumes "procs_laws Y" "args \<noteq> []" "length junk = Suc (length args)" "\<forall>c \<in> set (children s). child_ok c"
  shows "do_exec Y junk (int (length args)) args s =
    (let (e, out) = outcome Y args; own = own_child Y e out Stdout in
     Inr (if fork_res Y = - 1 then (False, s)
          else if \<not> wait_ok Y then (False, s\<lparr>children := with_own Y own (children s)\<rparr>)
          else if children s = [] \<or> ends_after Y = 0
          then (execv Y (Some (hd args)) (map Some args @ [NULL]) = Some (Exited 0, out),
                s\<lparr>pstdout := pstdout s @ out\<rparr>)
          else (cstatus (hd (children s)) = wait_status (Exited 0),
                deliver (hd (children s)) (s\<lparr>children := tl (with_own Y own (children s))\<rparr>))))"
proof (cases "fork_res Y = - 1")
  case True
  then show ?thesis using collect_command_ok [OF assms(3)] by (simp add: do_exec_def split: prod.split)
next
  case False
  obtain e out where o: "outcome Y args = (e, out)" by force
  have f: "0 < fork_res Y" using assms(1) False by (auto simp: procs_laws_def)
  have v: "valid_ending e" using outcome_valid [OF assms(1), of args] o by simp
  have run: "e = Exited 0 \<longleftrightarrow> execv Y (Some (hd args)) (map Some args @ [NULL]) = Some (Exited 0, out)"
    using o by (cases "execv Y (Some (hd args)) (map Some args @ [NULL])") (auto simp: outcome_def)
  have "deliver (own_child Y e out Stdout) s = s\<lparr>pstdout := pstdout s @ out\<rparr>"
    by (simp add: deliver_def own_child_def)
  then show ?thesis
    using collect_command_ok [OF assms(3)] child_exec_ok [OF assms(2), of Y Stdout] False o run
    by (simp add: do_exec_def wait_result_eq [OF f v assms(4)] Let_def)
qed

theorem do_exec_correct_witness:
  "do_exec demo_procs [None, None] 1 [''/bin/echo''] lone_process =
     Inr (True, lone_process\<lparr>pstdout := [104, 105, 10]\<rparr>)"
  using do_exec_correct [OF demo_procs_laws, of "[''/bin/echo'']" "[None, None]" lone_process]
  by (auto simp: demo_procs_def lone_process_def outcome_def)



text \<open>
  When \<open>system\<close> returns the status with which the shell ended, the test for zero in
  \<open>do_system\<close> is the test for a regular exit with status 0 that the other two functions make.
\<close>

lemma do_system_status:
  assumes "valid_ending e" "system_res Y cmd = uint (wait_status e)"
  shows "do_system Y cmd \<longleftrightarrow> WIFEXITED (wait_status e) \<and> WEXITSTATUS (wait_status e) = 0"
proof -
  have "wait_status e = 0 \<longleftrightarrow> e = Exited 0"
  proof
    assume "wait_status e = 0"
    then have "WIFEXITED (wait_status e) \<and> WEXITSTATUS (wait_status e) = 0"
      by (simp add: WIFEXITED_def WEXITSTATUS_def)
    with exited_zero [OF assms(1)] show "e = Exited 0" by simp
  qed (simp add: wait_status_def)
  with exited_zero [OF assms(1)] show ?thesis by (simp add: do_system_def assms(2) uint_0_iff)
qed

end
