(* ===== verification/Threading.thy ===== *)
theory Threading
  imports Prelude
begin

text \<open>
  Threads that hold a mutex for a while: \<open>examples/threading/threading.{h,c}\<close>. A thread is
  a program counter in \<open>threadfunc\<close> and the pointer it was given; one step runs it to its next
  blocking call. The threads, the caller that starts them and the joiner that releases their
  data (as the header documents) take steps in any order. Threads are named by numbers that
  are not used again.
\<close>

section \<open>Data\<close>

record thread_data =
  td_mutex :: nat
  wait_to_obtain_ms :: int
  wait_to_release_ms :: int
  thread_complete_success :: bool

text \<open>Where a thread is in \<open>threadfunc\<close>: the call or statement it executes next.\<close>

datatype tpc = At_Start | At_Lock | At_Hold | At_Unlock | At_Success | Returned

record tsys =
  tdata :: "addr \<rightharpoonup> thread_data"
  owner :: "nat \<rightharpoonup> nat"             \<comment> \<open>which thread holds a mutex\<close>
  pcs :: "nat \<rightharpoonup> tpc \<times> ptr"         \<comment> \<open>threads not joined yet, with their \<open>thread_param\<close>\<close>

definition data_at :: "tsys \<Rightarrow> ptr \<Rightarrow> thread_data res" where
  "data_at s p =
     (case p of None \<Rightarrow> Inl Null_Deref
      | Some a \<Rightarrow> (case tdata s a of None \<Rightarrow> Inl Use_After_Free | Some d \<Rightarrow> Inr d))"

text \<open>
  The argument of \<open>usleep\<close>: a product of type \<open>int\<close>, converted to the unsigned
  \<open>useconds_t\<close>.
\<close>

definition usleep_arg :: "int \<Rightarrow> uint32 res" where
  "usleep_arg ms =
     (if - (2 ^ 31) \<le> ms * 1000 \<and> ms * 1000 < 2 ^ 31 then Inr (word_of_int (ms * 1000))
      else Inl Signed_Overflow)"

section \<open>Operations\<close>

definition goto :: "nat \<Rightarrow> tpc \<Rightarrow> ptr \<Rightarrow> tsys \<Rightarrow> tsys" where
  "goto t pc p s = s\<lparr>pcs := (pcs s)(t \<mapsto> (pc, p))\<rparr>"

text \<open>
  One step of thread \<open>t\<close>; \<open>res\<close> is what the \<open>pthread\<close> call it makes returns. \<open>None\<close>: the thread
  cannot move, because it waits for the mutex or has returned.
\<close>

definition threadfunc :: "int \<Rightarrow> nat \<Rightarrow> tsys \<Rightarrow> tsys option res" where
  "threadfunc res t s =
     (case pcs s t of
        None \<Rightarrow> Inr None
      | Some (pc, p) \<Rightarrow>
         (case pc of
            At_Start \<Rightarrow>
              if p = NULL then Inr (Some (goto t Returned p s))
              else res_bind (data_at s p) (\<lambda>d. res_bind (usleep_arg (wait_to_obtain_ms d)) (\<lambda>_.
                     Inr (Some (goto t At_Lock p s))))
          | At_Lock \<Rightarrow>
              res_bind (data_at s p) (\<lambda>d.
                if res \<noteq> 0 then Inr (Some (goto t Returned p s))
                else if owner s (td_mutex d) = None
                then Inr (Some (goto t At_Hold p (s\<lparr>owner := (owner s)(td_mutex d \<mapsto> t)\<rparr>)))
                else Inr None)
          | At_Hold \<Rightarrow>
              res_bind (data_at s p) (\<lambda>d. res_bind (usleep_arg (wait_to_release_ms d)) (\<lambda>_.
                Inr (Some (goto t At_Unlock p s))))
          | At_Unlock \<Rightarrow>
              res_bind (data_at s p) (\<lambda>d.
                if res \<noteq> 0 then Inr (Some (goto t Returned p s))
                else Inr (Some (goto t At_Success p (s\<lparr>owner := (owner s)(td_mutex d := None)\<rparr>))))
          | At_Success \<Rightarrow>
              res_bind (data_at s p) (\<lambda>d.
                Inr (Some (goto t Returned p
                  (s\<lparr>tdata := (tdata s)(the p \<mapsto> d\<lparr>thread_complete_success := True\<rparr>)\<rparr>))))
          | Returned \<Rightarrow> Inr None))"

text \<open>
  \<open>calloc_res\<close> and \<open>create_res\<close> are the results of \<open>calloc\<close> and \<open>pthread_create\<close> (\<open>None\<close>: an error
  code). Returns the result, the thread stored through \<open>thread\<close>, and the state.
\<close>

definition start_thread_obtaining_mutex ::
  "ptr \<Rightarrow> nat option \<Rightarrow> nat \<Rightarrow> int \<Rightarrow> int \<Rightarrow> tsys \<Rightarrow> bool \<times> nat option \<times> tsys" where
  "start_thread_obtaining_mutex calloc_res create_res m obtain_ms release_ms s =
     (case calloc_res of
        None \<Rightarrow> (False, None, s)
      | Some a \<Rightarrow>
          let d = \<lparr>td_mutex = m, wait_to_obtain_ms = obtain_ms, wait_to_release_ms = release_ms,
                   thread_complete_success = False\<rparr>;
              s1 = s\<lparr>tdata := (tdata s)(a \<mapsto> d)\<rparr>
          in case create_res of
               None \<Rightarrow> (False, None, s1\<lparr>tdata := (tdata s1)(a := None)\<rparr>)
             | Some t \<Rightarrow> (True, Some t, goto t At_Start (Some a) s1))"

text \<open>The joiner: \<open>pthread_join\<close> on a thread that has returned, then \<open>free\<close> of its result.\<close>

definition join_and_free :: "nat \<Rightarrow> addr \<Rightarrow> tsys \<Rightarrow> tsys" where
  "join_and_free t a s = s\<lparr>pcs := (pcs s)(t := None), tdata := (tdata s)(a := None)\<rparr>"

section \<open>Steps\<close>

text \<open>Waits in milliseconds for which the argument of \<open>usleep\<close> stays in range.\<close>

definition fits :: "int \<Rightarrow> bool" where
  "fits ms \<longleftrightarrow> 0 \<le> ms \<and> ms \<le> 2147483"

definition new_thread :: "nat \<Rightarrow> tsys \<Rightarrow> bool" where
  "new_thread t s \<longleftrightarrow> t \<notin> dom (pcs s) \<and> t \<notin> ran (owner s)"

text \<open>\<open>faults\<close>: may the \<open>pthread\<close> calls inside the threads fail?\<close>

inductive tstep :: "bool \<Rightarrow> tsys \<Rightarrow> tsys \<Rightarrow> bool" for faults where
  start: "tstep faults s s'"
    if "\<forall>a. calloc_res = Some a \<longrightarrow> tdata s a = None" "\<forall>t. create_res = Some t \<longrightarrow> new_thread t s"
      "fits obtain_ms" "fits release_ms"
      "start_thread_obtaining_mutex calloc_res create_res m obtain_ms release_ms s = (ok, th, s')"
| run: "tstep faults s s'" if "threadfunc r t s = Inr (Some s')" "r = 0 \<or> faults"
| join: "tstep faults s (join_and_free t a s)" if "pcs s t = Some (Returned, Some a)"

definition no_threads :: tsys where
  "no_threads = \<lparr>tdata = Map.empty, owner = Map.empty, pcs = Map.empty\<rparr>"

abbreviation reachable :: "bool \<Rightarrow> tsys \<Rightarrow> bool" where
  "reachable faults s \<equiv> (tstep faults)\<^sup>*\<^sup>* no_threads s"

section \<open>Invariant\<close>

text \<open>
  What a thread at a program point may own and report: exactly its mutex while it holds it,
  nothing before and after, and success only when it has given the mutex back.
\<close>

definition owns_only :: "(nat \<rightharpoonup> nat) \<Rightarrow> nat \<Rightarrow> nat \<Rightarrow> bool" where
  "owns_only ow t m \<longleftrightarrow> (\<forall>k. ow k = Some t \<longleftrightarrow> k = m)"

definition owns_none :: "(nat \<rightharpoonup> nat) \<Rightarrow> nat \<Rightarrow> bool" where
  "owns_none ow t \<longleftrightarrow> (\<forall>k. ow k \<noteq> Some t)"

fun at_point :: "bool \<Rightarrow> (nat \<rightharpoonup> nat) \<Rightarrow> nat \<Rightarrow> tpc \<Rightarrow> thread_data \<Rightarrow> bool" where
  "at_point faults ow t At_Hold d \<longleftrightarrow> \<not> thread_complete_success d \<and> owns_only ow t (td_mutex d)"
| "at_point faults ow t At_Unlock d \<longleftrightarrow> \<not> thread_complete_success d \<and> owns_only ow t (td_mutex d)"
| "at_point faults ow t Returned d \<longleftrightarrow>
     (thread_complete_success d \<or> faults) \<and> (thread_complete_success d \<longrightarrow> owns_none ow t)"
| "at_point faults ow t pc d \<longleftrightarrow> \<not> thread_complete_success d \<and> owns_none ow t"

definition thread_ok :: "bool \<Rightarrow> tsys \<Rightarrow> nat \<Rightarrow> tpc \<Rightarrow> ptr \<Rightarrow> bool" where
  "thread_ok faults s t pc p \<longleftrightarrow>
     (\<exists>a d. p = Some a \<and> tdata s a = Some d \<and> fits (wait_to_obtain_ms d) \<and> fits (wait_to_release_ms d) \<and>
        at_point faults (owner s) t pc d)"

definition tinv :: "bool \<Rightarrow> tsys \<Rightarrow> bool" where
  "tinv faults s \<longleftrightarrow>
     finite (dom (pcs s)) \<and>
     (\<forall>t pc p. pcs s t = Some (pc, p) \<longrightarrow> thread_ok faults s t pc p) \<and>
     (\<forall>t u pc pc' a. pcs s t = Some (pc, Some a) \<and> pcs s u = Some (pc', Some a) \<longrightarrow> t = u) \<and>
     (\<forall>a \<in> dom (tdata s). \<exists>t pc. pcs s t = Some (pc, Some a)) \<and>
     (\<not> faults \<longrightarrow> ran (owner s) \<subseteq> dom (pcs s))"

lemma at_point_cong:
  assumes "\<And>k. ow' k = Some t \<longleftrightarrow> ow k = Some t"
  shows "at_point faults ow' t pc d = at_point faults ow t pc d"
  using assms by (cases pc) (simp_all add: owns_only_def owns_none_def)

lemma tinv_parts:
  assumes "tinv faults s"
  shows "finite (dom (pcs s))" "\<And>t pc p. pcs s t = Some (pc, p) \<Longrightarrow> thread_ok faults s t pc p"
    "\<And>t u pc pc' a. pcs s t = Some (pc, Some a) \<Longrightarrow> pcs s u = Some (pc', Some a) \<Longrightarrow> t = u"
    "\<And>a. a \<in> dom (tdata s) \<Longrightarrow> \<exists>t pc. pcs s t = Some (pc, Some a)"
    "\<not> faults \<Longrightarrow> ran (owner s) \<subseteq> dom (pcs s)"
  using assms unfolding tinv_def by blast+

lemma tinvD:
  assumes "tinv faults s" "pcs s t = Some (pc, p)"
  obtains a d where "p = Some a" "tdata s a = Some d" "fits (wait_to_obtain_ms d)"
    "fits (wait_to_release_ms d)" "at_point faults (owner s) t pc d"
  using tinv_parts(2) [OF assms] unfolding thread_ok_def by blast

text \<open>A thread moves on: what it changes concerns itself only.\<close>

lemma tinv_move:
  assumes inv: "tinv faults s" and t: "pcs s t = Some (pc, Some a)" and d: "tdata s a = Some d"
    and ow: "\<And>u k. u \<noteq> t \<Longrightarrow> ow' k = Some u \<longleftrightarrow> owner s k = Some u"
    and d': "fits (wait_to_obtain_ms d')" "fits (wait_to_release_ms d')" "at_point faults ow' t pc' d'"
  shows "tinv faults (s\<lparr>owner := ow', tdata := (tdata s)(a \<mapsto> d'), pcs := (pcs s)(t \<mapsto> (pc', Some a))\<rparr>)"
    (is "tinv faults ?s")
proof -
  have ok: "thread_ok faults ?s u pc1 p" if u: "pcs ?s u = Some (pc1, p)" for u pc1 p
  proof (cases "u = t")
    case True
    with u d' show ?thesis by (auto simp: thread_ok_def)
  next
    case False
    with u have us: "pcs s u = Some (pc1, p)" by simp
    from tinvD [OF inv us] obtain b e where b: "p = Some b" "tdata s b = Some e"
      "fits (wait_to_obtain_ms e)" "fits (wait_to_release_ms e)" "at_point faults (owner s) u pc1 e" .
    have "b \<noteq> a" using tinv_parts(3) [OF inv t, of u] us False b(1) by auto
    moreover have "at_point faults ow' u pc1 e" using b(5) at_point_cong [of ow' u] ow False by blast
    ultimately show ?thesis using b by (auto simp: thread_ok_def)
  qed
  have ex: "\<exists>u pc. pcs ?s u = Some (pc, Some b)" if "b \<in> dom (tdata ?s)" for b
  proof (cases "b = a")
    case True
    then show ?thesis by auto
  next
    case False
    with that obtain u pc1 where "pcs s u = Some (pc1, Some b)"
      using tinv_parts(4) [OF inv, of b] by (auto simp: dom_def)
    moreover from this False t have "u \<noteq> t" by auto
    ultimately show ?thesis by auto
  qed
  have inj: "u = v" if "pcs ?s u = Some (pc1, Some b)" "pcs ?s v = Some (pc2, Some b)" for u v pc1 pc2 b
  proof -
    have "\<exists>pc. pcs s w = Some (pc, Some b)" if "pcs ?s w = Some (pc1, Some b)" for w pc1
      using that t by (auto split: if_splits)
    with that show ?thesis using tinv_parts(3) [OF inv] by blast
  qed
  have rn: "ran ow' \<subseteq> insert t (ran (owner s))"
  proof
    fix u assume "u \<in> ran ow'"
    then obtain k where "ow' k = Some u" by (auto simp: ran_def)
    then show "u \<in> insert t (ran (owner s))" using ow [of u k] by (auto simp: ran_def)
  qed
  have fin: "finite (dom (pcs ?s))" using tinv_parts(1) [OF inv] by simp
  have "ran (owner ?s) \<subseteq> dom (pcs ?s)" if "\<not> faults"
    using rn tinv_parts(5) [OF inv that] by auto
  with fin ok ex inj show ?thesis unfolding tinv_def by blast
qed

lemma usleep_arg_fits: "fits ms \<Longrightarrow> usleep_arg ms = Inr (word_of_int (ms * 1000))"
  by (simp add: usleep_arg_def fits_def)

text \<open>A thread of the system never fails, and moves unless it waits for an owned mutex.\<close>

lemma threadfunc_step:
  assumes inv: "tinv faults s" and t: "pcs s t = Some (pc, p)" and r: "r = 0 \<or> faults"
  shows "(case threadfunc r t s of
      Inl e \<Rightarrow> False
    | Inr None \<Rightarrow> pc = Returned \<or> pc = At_Lock \<and> (\<exists>d. data_at s p = Inr d \<and> owner s (td_mutex d) \<noteq> None)
    | Inr (Some s') \<Rightarrow> tinv faults s' \<and> (\<exists>pc'. pcs s' = (pcs s)(t \<mapsto> (pc', p)) \<and>
        (pc, pc') \<in> {(At_Start, At_Lock), (At_Lock, At_Hold), (At_Lock, Returned), (At_Hold, At_Unlock),
          (At_Unlock, At_Success), (At_Unlock, Returned), (At_Success, Returned)}))"
proof -
  from tinvD [OF inv t] obtain a d where a: "p = Some a" "tdata s a = Some d"
    "fits (wait_to_obtain_ms d)" "fits (wait_to_release_ms d)" "at_point faults (owner s) t pc d" .
  have da: "data_at s p = Inr d" using a by (simp add: data_at_def)
  have t': "pcs s t = Some (pc, Some a)" using t a(1) by simp
  have mv: "tinv faults (s\<lparr>owner := ow', tdata := (tdata s)(a \<mapsto> d'), pcs := (pcs s)(t \<mapsto> (pc', p))\<rparr>)"
    if "\<And>u k. u \<noteq> t \<Longrightarrow> ow' k = Some u \<longleftrightarrow> owner s k = Some u" "at_point faults ow' t pc' d'"
      "fits (wait_to_obtain_ms d')" "fits (wait_to_release_ms d')" for ow' d' pc'
    using tinv_move [OF inv t' a(2), of ow' d' pc'] that a(1) by simp
  have same: "s\<lparr>owner := owner s, tdata := (tdata s)(a \<mapsto> d), pcs := P\<rparr> = s\<lparr>pcs := P\<rparr>"
    "s\<lparr>owner := ow', tdata := (tdata s)(a \<mapsto> d), pcs := P\<rparr> = s\<lparr>owner := ow', pcs := P\<rparr>"
    "s\<lparr>owner := owner s, tdata := D, pcs := P\<rparr> = s\<lparr>tdata := D, pcs := P\<rparr>" for ow' P D
    using a(2) by (simp_all add: fun_upd_idem)
  have stay: "tinv faults (s\<lparr>pcs := (pcs s)(t \<mapsto> (pc', p))\<rparr>)" if "at_point faults (owner s) t pc' d" for pc'
    using mv [of "owner s" pc' d] that a(3,4) unfolding same by simp
  show ?thesis
  proof (cases pc)
    case At_Start
    then show ?thesis
      using t a stay [of At_Lock] da by (simp add: threadfunc_def usleep_arg_fits goto_def)
  next
    case At_Lock
    let ?ow = "(owner s)(td_mutex d \<mapsto> t)"
    have "tinv faults (s\<lparr>owner := ?ow, pcs := (pcs s)(t \<mapsto> (At_Hold, p))\<rparr>)" if "owner s (td_mutex d) = None"
      using mv [of ?ow At_Hold d] that a At_Lock unfolding same by (auto simp: owns_only_def owns_none_def)
    moreover have "tinv faults (s\<lparr>pcs := (pcs s)(t \<mapsto> (Returned, p))\<rparr>)" if faults
      using stay [of Returned] that a(5) At_Lock by simp
    ultimately show ?thesis
      using t At_Lock da r by (auto simp: threadfunc_def goto_def)
  next
    case At_Hold
    then show ?thesis
      using t a stay [of At_Unlock] da by (simp add: threadfunc_def usleep_arg_fits goto_def)
  next
    case At_Unlock
    let ?ow = "(owner s)(td_mutex d := None)"
    have m: "owner s (td_mutex d) = Some t" using a(5) At_Unlock by (simp add: owns_only_def)
    have "?ow k = Some u \<longleftrightarrow> owner s k = Some u" if "u \<noteq> t" for u k using m that by simp
    moreover have "owns_none ?ow t" using a(5) At_Unlock by (simp add: owns_only_def owns_none_def)
    ultimately have "tinv faults (s\<lparr>owner := ?ow, pcs := (pcs s)(t \<mapsto> (At_Success, p))\<rparr>)"
      using mv [of ?ow At_Success d] a At_Unlock unfolding same by simp
    moreover have "tinv faults (s\<lparr>pcs := (pcs s)(t \<mapsto> (Returned, p))\<rparr>)" if faults
      using stay [of Returned] that a(5) At_Unlock by simp
    ultimately show ?thesis
      using t At_Unlock da r by (auto simp: threadfunc_def goto_def)
  next
    case At_Success
    let ?d = "d\<lparr>thread_complete_success := True\<rparr>"
    have "tinv faults (s\<lparr>tdata := (tdata s)(a \<mapsto> ?d), pcs := (pcs s)(t \<mapsto> (Returned, p))\<rparr>)"
      using mv [of "owner s" Returned ?d] a At_Success unfolding same by simp
    then show ?thesis
      using t At_Success da a(1) by (simp add: threadfunc_def goto_def)
  next
    case Returned
    then show ?thesis using t by (simp add: threadfunc_def)
  qed
qed

text \<open>A failed start leaves nothing behind.\<close>

lemma start_thread_failed:
  assumes "\<forall>a. c = Some a \<longrightarrow> tdata s a = None" "c = NULL \<or> r = NULL"
  shows "start_thread_obtaining_mutex c r m w1 w2 s = (False, None, s)"
  using assms
  by (auto simp: start_thread_obtaining_mutex_def Let_def fun_upd_idem split: option.split)

lemma tinv_start:
  assumes inv: "tinv faults s" and fresh: "\<forall>a. c = Some a \<longrightarrow> tdata s a = None" "\<forall>t. r = Some t \<longrightarrow> new_thread t s"
    and w: "fits w1" "fits w2" and run: "start_thread_obtaining_mutex c r m w1 w2 s = (ok, th, s')"
  shows "tinv faults s'"
proof (cases "c = NULL \<or> r = NULL")
  case True
  with run fresh(1) have "s' = s" by (simp add: start_thread_failed)
  with inv show ?thesis by simp
next
  case False
  then obtain a t where at: "c = Some a" "r = Some t" by auto
  let ?d = "\<lparr>td_mutex = m, wait_to_obtain_ms = w1, wait_to_release_ms = w2, thread_complete_success = False\<rparr>"
  have s': "s' = s\<lparr>tdata := (tdata s)(a \<mapsto> ?d), pcs := (pcs s)(t \<mapsto> (At_Start, Some a))\<rparr>"
    using run by (simp add: at start_thread_obtaining_mutex_def goto_def)
  have a: "tdata s a = None" and t: "pcs s t = None" "owns_none (owner s) t"
    using fresh by (auto simp: at new_thread_def owns_none_def ran_def)
  have old: "p \<noteq> Some a \<and> thread_ok faults s' u pc p" if "pcs s u = Some (pc, p)" for u pc p
    using tinv_parts(2) [OF inv that] a by (auto simp: thread_ok_def s')
  have ok: "thread_ok faults s' u pc p" if "pcs s' u = Some (pc, p)" for u pc p
    using that old [of u pc p] t(2) w by (cases "u = t") (auto simp: s' thread_ok_def)
  have inj: "u = v" if "pcs s' u = Some (pc, Some b)" "pcs s' v = Some (pc', Some b)" for u v pc pc' b
    using that old tinv_parts(3) [OF inv, of u pc b v pc'] by (auto simp: s' split: if_splits)
  have ex: "\<exists>u pc. pcs s' u = Some (pc, Some b)" if b: "b \<in> dom (tdata s')" for b
  proof (cases "b = a")
    case True
    then show ?thesis by (auto simp: s')
  next
    case False
    then obtain u pc where "pcs s u = Some (pc, Some b)"
      using b tinv_parts(4) [OF inv, of b] by (auto simp: s' dom_def)
    moreover from this t(1) have "u \<noteq> t" by auto
    ultimately show ?thesis by (auto simp: s')
  qed
  have "finite (dom (pcs s'))" "\<not> faults \<Longrightarrow> ran (owner s') \<subseteq> dom (pcs s')"
    using tinv_parts(1,5) [OF inv] by (auto simp: s')
  with ok inj ex show ?thesis unfolding tinv_def by blast
qed

lemma tinv_join:
  assumes inv: "tinv faults s" and t: "pcs s t = Some (Returned, Some a)"
  shows "tinv faults (join_and_free t a s)" (is "tinv faults ?s")
proof -
  have other: "p \<noteq> Some a" if "pcs s u = Some (pc, p)" "u \<noteq> t" for u pc p
    using tinv_parts(3) [OF inv t, of u pc] that by auto
  have ok: "thread_ok faults ?s u pc p" if u: "pcs ?s u = Some (pc, p)" for u pc p
  proof -
    have us: "pcs s u = Some (pc, p)" "u \<noteq> t" using u by (auto simp: join_and_free_def split: if_splits)
    from tinvD [OF inv us(1)] obtain b d where "p = Some b" "tdata s b = Some d"
      "fits (wait_to_obtain_ms d)" "fits (wait_to_release_ms d)" "at_point faults (owner s) u pc d" .
    with other [OF us] show ?thesis by (auto simp: thread_ok_def join_and_free_def)
  qed
  have inj: "u = v" if "pcs ?s u = Some (pc, Some b)" "pcs ?s v = Some (pc', Some b)" for u v pc pc' b
    using that tinv_parts(3) [OF inv, of u pc b v pc'] by (auto simp: join_and_free_def split: if_splits)
  have ex: "\<exists>u pc. pcs ?s u = Some (pc, Some b)" if b: "b \<in> dom (tdata ?s)" for b
  proof -
    obtain u pc where u: "pcs s u = Some (pc, Some b)" "b \<noteq> a"
      using b tinv_parts(4) [OF inv, of b] by (auto simp: join_and_free_def dom_def split: if_splits)
    then have "u \<noteq> t" using t by auto
    with u show ?thesis by (auto simp: join_and_free_def)
  qed
  have "ran (owner ?s) \<subseteq> dom (pcs ?s)" if nf: "\<not> faults"
  proof -
    from tinvD [OF inv t] obtain d where "at_point faults (owner s) t Returned d" by metis
    then have "t \<notin> ran (owner s)" using nf by (auto simp: owns_none_def ran_def)
    then show ?thesis using tinv_parts(5) [OF inv nf] by (auto simp: join_and_free_def)
  qed
  moreover have "finite (dom (pcs ?s))" using tinv_parts(1) [OF inv] by (simp add: join_and_free_def)
  ultimately show ?thesis using ok inj ex unfolding tinv_def by blast
qed

lemma tinv_tstep: "tstep faults s s' \<Longrightarrow> tinv faults s \<Longrightarrow> tinv faults s'"
proof (induction rule: tstep.induct)
  case (start c s r w1 w2 m ok th s')
  then show ?case by (rule tinv_start [rotated])
next
  case (run r t s s')
  obtain pc p where "pcs s t = Some (pc, p)"
    using run(1) by (cases "pcs s t") (auto simp: threadfunc_def)
  from threadfunc_step [OF run(3) this run(2)] run(1) show ?case by simp
next
  case (join s t a)
  then show ?case by (intro tinv_join)
qed

lemma tinv_reachable:
  assumes "reachable faults s"
  shows "tinv faults s"
  using assms
proof (induction rule: rtranclp_induct)
  case base
  show ?case by (simp add: tinv_def no_threads_def)
next
  case (step s s')
  then show ?case using tinv_tstep by blast
qed

section \<open>Completion\<close>

text \<open>Threads run in any order, none of their calls failing.\<close>

definition trun :: "tsys \<Rightarrow> tsys \<Rightarrow> bool" where
  "trun s s' \<longleftrightarrow> (\<exists>t. threadfunc 0 t s = Inr (Some s'))"

fun rank :: "tpc \<Rightarrow> nat" where
  "rank At_Start = 5" | "rank At_Lock = 4" | "rank At_Hold = 3" | "rank At_Unlock = 2"
| "rank At_Success = 1" | "rank Returned = 0"

definition work :: "tsys \<Rightarrow> nat" where
  "work s = (\<Sum>t \<in> dom (pcs s). rank (fst (the (pcs s t))))"

definition all_returned :: "tsys \<Rightarrow> bool" where
  "all_returned s \<longleftrightarrow> (\<forall>t pc p. pcs s t = Some (pc, p) \<longrightarrow> pc = Returned)"

lemma trun_step:
  assumes "tinv faults s" "trun s s'"
  shows "tinv faults s' \<and> work s' < work s \<and> dom (pcs s') = dom (pcs s)"
proof -
  obtain t where t: "threadfunc 0 t s = Inr (Some s')" using assms(2) by (auto simp: trun_def)
  then obtain pc p where p: "pcs s t = Some (pc, p)"
    by (cases "pcs s t") (auto simp: threadfunc_def)
  from threadfunc_step [OF assms(1) p, of 0] t obtain pc' where
    i: "tinv faults s'" and s': "pcs s' = (pcs s)(t \<mapsto> (pc', p))" and lt: "rank pc' < rank pc" by auto
  have d: "dom (pcs s') = dom (pcs s)" using p by (auto simp: s')
  have fin: "finite (dom (pcs s))" using tinv_parts(1) [OF assms(1)] .
  have "work s' < work s"
    unfolding work_def d
  proof (rule sum_strict_mono_ex1 [OF fin])
    show "\<forall>u \<in> dom (pcs s). rank (fst (the (pcs s' u))) \<le> rank (fst (the (pcs s u)))"
      using p lt by (auto simp: s')
    show "\<exists>u \<in> dom (pcs s). rank (fst (the (pcs s' u))) < rank (fst (the (pcs s u)))"
      using p lt by (intro bexI [of _ t]) (auto simp: s')
  qed
  with i d show ?thesis by simp
qed

text \<open>A thread that waits for a mutex waits for one that can move.\<close>

lemma trun_progress:
  assumes inv: "tinv False s" and "\<not> all_returned s"
  shows "\<exists>s'. trun s s'"
proof -
  have moves: "\<exists>s'. trun s s'" if t: "pcs s t = Some (pc, p)" and "pc \<noteq> Returned" "pc \<noteq> At_Lock" for t pc p
    using threadfunc_step [OF inv t, of 0] that by (auto simp: trun_def split: sum.splits option.splits)
  obtain t pc p where t: "pcs s t = Some (pc, p)" "pc \<noteq> Returned"
    using assms(2) by (auto simp: all_returned_def)
  show ?thesis
  proof (rule ccontr)
    assume no: "\<nexists>s'. trun s s'"
    then have "pc = At_Lock" using moves [OF t(1)] t(2) by blast
    with threadfunc_step [OF inv t(1), of 0] no t(2) obtain m u where u: "owner s m = Some u"
      by (auto simp: trun_def split: sum.splits option.splits)
    then have "u \<in> dom (pcs s)" using tinv_parts(5) [OF inv] by (auto simp: ran_def)
    then obtain pc' p' where u': "pcs s u = Some (pc', p')" by (auto simp: dom_def)
    from tinvD [OF inv u'] obtain d where "at_point False (owner s) u pc' d" by metis
    with u have "pc' = At_Hold \<or> pc' = At_Unlock" by (cases pc') (auto simp: owns_none_def)
    then show False using moves [OF u'] no by auto
  qed
qed

lemma trun_completes:
  assumes "tinv False s"
  shows "\<exists>s'. trun\<^sup>*\<^sup>* s s' \<and> tinv False s' \<and> all_returned s' \<and> dom (pcs s') = dom (pcs s)"
  using assms
proof (induction s rule: measure_induct_rule [of work])
  case (less s)
  show ?case
  proof (cases "all_returned s")
    case True
    with less.prems show ?thesis by auto
  next
    case False
    from trun_progress [OF less.prems False] obtain s1 where "trun s s1" ..
    with trun_step [OF less.prems] less.IH [of s1] show ?thesis
      by (metis converse_rtranclp_into_rtranclp)
  qed
qed

section \<open>Properties\<close>

text \<open>Two threads that compete for one mutex, started one after the other.\<close>

definition two_threads :: tsys where
  "two_threads =
     (let start = (\<lambda>a t s. snd (snd (start_thread_obtaining_mutex (Some a) (Some t) 0 5 10 s)))
      in start 2 8 (start 1 7 no_threads))"

lemma two_threads_reachable: "reachable faults two_threads"
proof -
  let ?s = "snd (snd (start_thread_obtaining_mutex (Some 1) (Some 7) 0 5 10 no_threads))"
  have "tstep faults no_threads ?s"
    by (rule tstep.start [of "Some 1" _ "Some 7" 5 10 0 True "Some 7"])
      (auto simp: new_thread_def no_threads_def fits_def start_thread_obtaining_mutex_def)
  moreover have "tstep faults ?s two_threads"
    by (rule tstep.start [of "Some 2" _ "Some 8" 5 10 0 True "Some 8"])
      (auto simp: new_thread_def no_threads_def fits_def start_thread_obtaining_mutex_def
        two_threads_def goto_def)
  ultimately show ?thesis by (meson rtranclp.rtrancl_into_rtrancl rtranclp.rtrancl_refl)
qed

text \<open>
  C21: However the threads are started, scheduled and joined, and even when calls inside
  them fail, two threads between their successful lock and their unlock never work with the same
  mutex.
\<close>

theorem mutex_exclusive:
  assumes "reachable faults s"
    "pcs s t = Some (pc, p)" "pc = At_Hold \<or> pc = At_Unlock" "data_at s p = Inr d"
    "pcs s u = Some (pc', p')" "pc' = At_Hold \<or> pc' = At_Unlock" "data_at s p' = Inr d'"
    "td_mutex d = td_mutex d'"
  shows "t = u"
proof -
  note inv = tinv_reachable [OF assms(1)]
  have own: "owner s (td_mutex e) = Some v"
    if "pcs s v = Some (c, q)" "c = At_Hold \<or> c = At_Unlock" "data_at s q = Inr e" for v c q e
    using tinv_parts(2) [OF inv that(1)] that(2,3)
    by (auto simp: thread_ok_def data_at_def owns_only_def)
  from own [OF assms(2-4)] own [OF assms(5-7)] assms(8) show ?thesis by simp
qed

theorem mutex_exclusive_witness:
  "\<exists>s. reachable False s \<and> (\<exists>p d. pcs s 7 = Some (At_Hold, p) \<and> data_at s p = Inr d \<and>
     (\<forall>u p' d'. pcs s u = Some (At_Hold, p') \<and> data_at s p' = Inr d' \<and> td_mutex d' = td_mutex d \<longrightarrow> u = 7))"
proof -
  define s1 where "s1 = goto 7 At_Lock (Some 1) two_threads"
  define s2 where "s2 = goto 7 At_Hold (Some 1) (s1\<lparr>owner := (owner s1)(0 \<mapsto> 7)\<rparr>)"
  have "threadfunc 0 7 two_threads = Inr (Some s1)" "threadfunc 0 7 s1 = Inr (Some s2)"
    by (simp_all add: s2_def s1_def two_threads_def no_threads_def start_thread_obtaining_mutex_def
        threadfunc_def data_at_def goto_def usleep_arg_def)
  then have "tstep False two_threads s1" "tstep False s1 s2" by (auto intro: tstep.run)
  then have r: "reachable False s2"
    using two_threads_reachable [of False] by (meson rtranclp.rtrancl_into_rtrancl)
  have p: "pcs s2 7 = Some (At_Hold, Some 1)" "data_at s2 (Some 1) = Inr (the (tdata s2 1))"
    by (simp_all add: s2_def s1_def two_threads_def no_threads_def start_thread_obtaining_mutex_def
        data_at_def goto_def)
  show ?thesis
    using r p mutex_exclusive [OF r _ _ _ p(1) _ p(2)] by blast
qed

text \<open>What the end of a run of the threads looks like: everyone has succeeded, no mutex is held.\<close>

lemma all_returned_ok:
  assumes "tinv False s" "all_returned s"
  shows "owner s = Map.empty \<and> (\<forall>t pc p. pcs s t = Some (pc, p) \<longrightarrow>
    pc = Returned \<and> (\<exists>d. data_at s p = Inr d \<and> thread_complete_success d))"
proof -
  have ret: "pc = Returned \<and> (\<exists>d. data_at s p = Inr d \<and> thread_complete_success d) \<and> owns_none (owner s) t"
    if t: "pcs s t = Some (pc, p)" for t pc p
  proof -
    have "pc = Returned" using assms(2) t unfolding all_returned_def by blast
    then show ?thesis using tinv_parts(2) [OF assms(1) t] by (auto simp: thread_ok_def data_at_def)
  qed
  have "owner s m = None" for m
  proof (rule ccontr)
    assume "owner s m \<noteq> None"
    then obtain u where u: "owner s m = Some u" by auto
    then have "u \<in> dom (pcs s)" using tinv_parts(5) [OF assms(1)] by (auto simp: ran_def)
    with ret u show False by (fastforce simp: owns_none_def)
  qed
  then have "owner s = Map.empty" by auto
  with ret show ?thesis by blast
qed

lemma truns_inv:
  assumes "trun\<^sup>*\<^sup>* s s'" "tinv faults s"
  shows "tinv faults s' \<and> dom (pcs s') = dom (pcs s)"
  using assms by (induction rule: rtranclp_induct) (use trun_step in blast)+

text \<open>
  C22: From any reachable state in which no call inside a thread has failed, every
  schedule of the threads ends and ends well: there is no infinite run, every step of every run
  brings the threads nearer to their end, and in a state in which no thread can move all
  threads have returned, have reported success and have released their mutex.
\<close>

theorem threads_all_succeed:
  assumes "reachable False s"
  shows "(\<nexists>f. f 0 = s \<and> (\<forall>n. trun (f n) (f (Suc n)))) \<and>
    (\<forall>s1 s2. trun\<^sup>*\<^sup>* s s1 \<longrightarrow> trun s1 s2 \<longrightarrow> work s2 < work s1) \<and>
    (\<forall>s'. trun\<^sup>*\<^sup>* s s' \<longrightarrow> (\<nexists>s''. trun s' s'') \<longrightarrow>
       dom (pcs s') = dom (pcs s) \<and> owner s' = Map.empty \<and>
       (\<forall>t pc p. pcs s' t = Some (pc, p) \<longrightarrow>
          pc = Returned \<and> (\<exists>d. data_at s' p = Inr d \<and> thread_complete_success d)))"
proof (intro conjI allI impI)
  note inv = tinv_reachable [OF assms]
  show "work s2 < work s1" if "trun\<^sup>*\<^sup>* s s1" "trun s1 s2" for s1 s2
    using truns_inv [OF that(1) inv] trun_step that(2) by blast
  show "\<nexists>f. f 0 = s \<and> (\<forall>n. trun (f n) (f (Suc n)))"
  proof
    assume "\<exists>f. f 0 = s \<and> (\<forall>n. trun (f n) (f (Suc n)))"
    then obtain f where f: "f 0 = s" "\<And>n. trun (f n) (f (Suc n))" by blast
    have "trun\<^sup>*\<^sup>* s (f n)" for n
      by (induction n) (use f in \<open>auto intro: rtranclp.rtrancl_into_rtrancl\<close>)
    then have "work (f (Suc n)) < work (f n)" for n
      using truns_inv [OF _ inv] trun_step f(2) by blast
    then show False
      using wf_iff_no_infinite_down_chain [of "measure work"] by (auto simp: in_measure)
  qed
  fix s' assume s': "trun\<^sup>*\<^sup>* s s'" "\<nexists>s''. trun s' s''"
  note i = truns_inv [OF s'(1) inv]
  then have "all_returned s'" using trun_progress s'(2) by blast
  with i all_returned_ok [of s'] show "dom (pcs s') = dom (pcs s)" "owner s' = Map.empty"
    "\<And>t pc p. pcs s' t = Some (pc, p) \<Longrightarrow> pc = Returned"
    "\<And>t pc p. pcs s' t = Some (pc, p) \<Longrightarrow> \<exists>d. data_at s' p = Inr d \<and> thread_complete_success d"
    by blast+
qed

theorem threads_all_succeed_witness:
  "\<exists>s'. trun\<^sup>*\<^sup>* two_threads s' \<and> dom (pcs s') = {7, 8} \<and> owner s' = Map.empty \<and>
     (\<forall>t pc p. pcs s' t = Some (pc, p) \<longrightarrow> pc = Returned)"
proof -
  have d: "dom (pcs two_threads) = {7, 8}"
    by (auto simp: two_threads_def no_threads_def start_thread_obtaining_mutex_def goto_def split: if_splits)
  from trun_completes [OF tinv_reachable [OF two_threads_reachable]] obtain s' where
    s': "trun\<^sup>*\<^sup>* two_threads s'" "all_returned s'" "tinv False s'" by blast
  have "\<nexists>s''. trun s' s''"
  proof
    assume "\<exists>s''. trun s' s''"
    then obtain s'' t where "threadfunc 0 t s' = Inr (Some s'')" by (auto simp: trun_def)
    moreover from this obtain pc p where "pcs s' t = Some (pc, p)"
      by (cases "pcs s' t") (auto simp: threadfunc_def)
    moreover from this s'(2) have "pc = Returned" unfolding all_returned_def by blast
    ultimately show False by (simp add: threadfunc_def)
  qed
  with threads_all_succeed [OF two_threads_reachable] s'(1) have
    "dom (pcs s') = dom (pcs two_threads)" "owner s' = Map.empty"
    "\<forall>t pc p. pcs s' t = Some (pc, p) \<longrightarrow> pc = Returned" by simp_all
  with s'(1) d show ?thesis by (intro exI [of _ s']) simp
qed

text \<open>
  The wait in microseconds is the given number of milliseconds times 1000 exactly for
  waits of at most 2147483 milliseconds; a longer wait overflows the \<open>int\<close> product, and a negative
  one, where it does not overflow, is a wait of more than half an hour.
\<close>

lemma usleep_arg_cases:
  "case usleep_arg ms of
     Inl e \<Rightarrow> e = Signed_Overflow \<and> (ms < - 2147483 \<or> 2147483 < ms)
   | Inr us \<Rightarrow> - 2147483 \<le> ms \<and> ms \<le> 2147483 \<and>
       uint us = (if 0 \<le> ms then ms * 1000 else 4294967296 + ms * 1000)"
proof (cases "- 2147483 \<le> ms \<and> ms \<le> 2147483")
  case True
  have "(ms * 1000) mod 4294967296 = (if 0 \<le> ms then ms * 1000 else 4294967296 + ms * 1000)"
  proof (cases "0 \<le> ms")
    case False
    have "(ms * 1000) mod 4294967296 = (4294967296 + ms * 1000) mod 4294967296" by simp
    also have "\<dots> = 4294967296 + ms * 1000" using True False by (intro mod_pos_pos_trivial) auto
    finally show ?thesis using False by simp
  qed (use True in simp)
  moreover have "uint (word_of_int (ms * 1000) :: uint32) = (ms * 1000) mod 4294967296"
    by (simp only: uint_word_of_int) simp
  moreover have "usleep_arg ms = Inr (word_of_int (ms * 1000))" using True by (simp add: usleep_arg_def)
  ultimately show ?thesis using True by (simp only: sum.case)
next
  case False
  then show ?thesis by (auto simp: usleep_arg_def)
qed

end
