(* ===== verification/Writer.thy ===== *)
theory Writer
  imports Prelude "HOL-Library.Sublist"
begin

text \<open>
  The program \<open>finder-app/writer.c\<close>: it writes its second argument to the file named by its
  first. What the system does is the parameter \<open>W\<close>; text written through \<open>stdio\<close> reaches
  the file at the latest when the stream is closed, and \<open>fclose\<close> may fail to deliver the rest.
  Messages to the system log are left out.
\<close>

type_synonym files = "string \<rightharpoonup> byte list"

record writer_env =
  w_fopen :: "string \<Rightarrow> files \<Rightarrow> bool"        \<comment> \<open>the file can be opened for writing\<close>
  w_fwrite :: "byte list \<Rightarrow> nat"              \<comment> \<open>number of bytes \<open>fwrite\<close> accepts\<close>
  w_flushed :: "byte list \<Rightarrow> nat"             \<comment> \<open>of those, how many have arrived after \<open>fclose\<close>\<close>

definition writer_env_laws :: "writer_env \<Rightarrow> bool" where
  "writer_env_laws W \<longleftrightarrow> (\<forall>bs. w_fwrite W bs \<le> length bs \<and> w_flushed W bs \<le> length bs)"

text \<open>A string argument as bytes; it has no zero byte, so \<open>strlen\<close> is its length.\<close>

definition c_string :: "string \<Rightarrow> byte list" where
  "c_string s = map of_char s"

text \<open>\<open>main\<close>: the exit status and the files afterwards.\<close>

definition writer_main :: "writer_env \<Rightarrow> string list \<Rightarrow> files \<Rightarrow> int \<times> files" where
  "writer_main W argv fs =
     (if length argv \<noteq> 3 then (1, fs)
      else
        let file_path = argv ! 1; write_str = c_string (argv ! 2) in
        if \<not> w_fopen W file_path fs then (1, fs)
        else
          let opened = fs(file_path \<mapsto> []);
              str_len = length write_str;
              accepted = w_fwrite W write_str;
              closed = opened(file_path \<mapsto> take (w_flushed W (take accepted write_str)) (take accepted write_str))
          in if str_len \<noteq> accepted then (1, closed) else (0, closed))"

text \<open>The system delivers what it has accepted.\<close>

definition delivers :: "writer_env \<Rightarrow> bool" where
  "delivers W \<longleftrightarrow> (\<forall>bs. w_flushed W bs = length bs)"

section \<open>Properties\<close>

text \<open>
  C40: Exit status and files of \<open>writer\<close> in every case. Without two arguments, or when the file
  cannot be opened, the status is 1 and no file has changed. Otherwise no other file has
  changed, and the file holds as much of what \<open>fwrite\<close> accepted as \<open>fclose\<close> delivers, a prefix of
  the string and nothing of what the file held before; the status is 0 exactly when \<open>fwrite\<close>
  accepted the whole string, also where closing loses the rest. With status 0 on a system that
  delivers what it accepts the file holds the string.
\<close>

theorem writer_correct:
  assumes "writer_env_laws W"
  shows "case writer_main W argv fs of (status, fs') \<Rightarrow>
    (length argv \<noteq> 3 \<or> \<not> w_fopen W (argv ! 1) fs \<longrightarrow> status = 1 \<and> fs' = fs) \<and>
    (length argv = 3 \<and> w_fopen W (argv ! 1) fs \<longrightarrow>
      (let str = c_string (argv ! 2); accepted = take (w_fwrite W str) str;
           content = take (w_flushed W accepted) accepted in
       status = (if accepted = str then 0 else 1) \<and>
       fs' = fs(argv ! 1 \<mapsto> content) \<and> prefix content str \<and>
       length content = w_flushed W accepted \<and>
       (delivers W \<longrightarrow> (content = str \<longleftrightarrow> status = 0))))"
proof (cases "length argv = 3 \<and> w_fopen W (argv ! 1) fs")
  case False
  then show ?thesis by (auto simp: writer_main_def Let_def)
next
  case True
  define str where "str = c_string (argv ! 2)"
  define acc where "acc = take (w_fwrite W str) str"
  define content where "content = take (w_flushed W acc) acc"
  have laws: "w_fwrite W str \<le> length str" "w_flushed W acc \<le> length acc"
    using assms unfolding writer_env_laws_def by blast+
  have all: "acc = str \<longleftrightarrow> length str = w_fwrite W str"
    using laws(1) by (auto simp: acc_def take_all_iff)
  have run: "writer_main W argv fs = (if acc = str then 0 else 1, fs(argv ! 1 \<mapsto> content))"
    using True unfolding writer_main_def Let_def
    by (simp add: all str_def [symmetric] acc_def [symmetric] content_def)
  have "prefix content str"
    unfolding content_def acc_def by (metis prefix_order.trans take_is_prefix)
  moreover have "length content = w_flushed W acc" using laws(2) by (simp add: content_def)
  moreover have "content = acc" if "delivers W"
    using that unfolding delivers_def content_def by simp
  ultimately show ?thesis
    using True unfolding run Let_def prod.case
    by (simp add: str_def [symmetric] acc_def [symmetric] content_def [symmetric])
qed

theorem writer_correct_witness:
  "writer_main \<lparr>w_fopen = \<lambda>_ _. True, w_fwrite = length, w_flushed = length\<rparr>
     [''writer'', ''f'', ''hi''] [''f'' \<mapsto> [1, 2, 3]] = (0, [''f'' \<mapsto> [104, 105]]) \<and>
   writer_main \<lparr>w_fopen = \<lambda>_ _. True, w_fwrite = length, w_flushed = \<lambda>_. 0\<rparr>
     [''writer'', ''f'', ''hi''] [''f'' \<mapsto> [1, 2, 3]] = (0, [''f'' \<mapsto> []])"
  using writer_correct [of "\<lparr>w_fopen = \<lambda>_ _. True, w_fwrite = length, w_flushed = length\<rparr>"
      "[''writer'', ''f'', ''hi'']" "[''f'' \<mapsto> [1, 2, 3]]"]
    writer_correct [of "\<lparr>w_fopen = \<lambda>_ _. True, w_fwrite = length, w_flushed = \<lambda>_. 0\<rparr>"
      "[''writer'', ''f'', ''hi'']" "[''f'' \<mapsto> [1, 2, 3]]"]
  by (simp add: writer_env_laws_def delivers_def c_string_def split: prod.splits)

end
