(* ===== verification/Spec2Isabelle.thy ===== *)
theory Spec2Isabelle
  imports Device_Conns Plain_File Server_Spec Driver_Linear Shutdown Queue_Families Queue_Debug System_Calls
    Threading Writer
begin

text \<open>
  Verification of the programs of an embedded Linux course: a character device driver that
  remembers the last ten commands written to it, a socket server that stores the lines its
  clients send in that device and answers with its contents, and three smaller programs.

  \<^bold>\<open>Parts and how they interact.\<close> The server's main thread (\<open>server/aesdsocket.c\<close>) accepts
  connections, starts a thread for each, keeps the clients in a tail queue (\<open>server/queue.h\<close>)
  and joins the threads that are done. A connection thread (\<open>server/client_flow.c\<close>) collects the
  bytes it receives in a chain of fragments (\<open>server/packet_fragment.c\<close>); each complete line is
  either a seek command, passed to the device by an \<open>ioctl\<close>, or is written to the device, under a
  lock shared by all threads; then the device is read and sent back. The device is the kernel
  module \<open>aesd-char-driver/main.c\<close> on top of a circular buffer of write operations
  (\<open>aesd-circular-buffer.c\<close>). Independent of these are \<open>examples/systemcalls\<close>,
  \<open>examples/threading\<close> and \<open>finder-app/writer.c\<close>.

  \<^bold>\<open>Theories.\<close>
  \<^item> \<open>Prelude\<close>: machine types, the errors of C (\<open>c_error\<close>), results as a sum with \<open>res_bind\<close> and
    \<open>c_assert\<close>, and positions in a concatenation (\<open>locate\<close>, \<open>global_pos\<close>), the reference
    definitions of the two searches.
  \<^item> \<open>Circular_Buffer\<close>: \<open>struct aesd_circular_buffer\<close> with its six functions, at the widths of the
    code (8-bit offsets, 64-bit sizes). The locale \<open>write_log\<close> is what the driver relies on (a
    bounded log with search by position); it is interpreted on the ring. Shown: insertion is
    insertion into a log of ten entries, the searches agree with \<open>locate\<close> and \<open>global_pos\<close>.
  \<^item> \<open>Kernel_Env\<close>: the kernel services the driver calls, as a parameter \<open>K\<close> with their documented
    laws (\<open>kernel_laws\<close>) and a concrete kernel that satisfies them.
  \<^item> \<open>Char_Driver\<close>: \<open>main.c\<close>, one definition per handler; \<open>aesd_write\<close> is cut into its append,
    commit and exit phases. \<open>Driver_Spec\<close>: the abstract device (\<open>dev_spec\<close>: commands and a
    pending rest) and the driver's invariant (every entry owns its block, nothing else is
    allocated). \<open>Driver_Write\<close>, \<open>Driver_Read\<close>, \<open>Driver_Module\<close>: each operation refines its
    abstract counterpart on every branch. \<open>Driver_Trace\<close>: the handlers as a step relation; in
    every history no call can crash, the invariant holds, and the device holds exactly the ten
    newest commands.
  \<^item> \<open>Driver_Concurrency\<close>: the handlers cut into the pieces between which another processor can run:
    a piece per kernel call and per block under the semaphore, with a program counter that carries
    the local variables. Run alone, the pieces are the handlers (nine are enough for any call).
    \<open>Driver_Linear\<close>: any number of calls under way at once, every piece with any kernel that obeys
    the laws, so that waits may be interrupted and allocations fail at any place. An invariant ties
    the semaphore to the calls that hold it and every block to its owner, a ring entry or the
    local variable of a call; it gives that the calls are linearizable, that no piece can crash or
    lose a block, and that some call can always move. Beside the log of the points where the calls
    took effect, the system notes for each call the file it began with and the bytes it took from
    the program, so that every event is tied to what the program asked for and to what it got
    (\<open>outcome\<close>). Each call has a \<open>struct file\<close>
    of its own; calls of several threads on one, which race for its position, are left out.
  \<^item> \<open>Packet_Fragment\<close>: the chain of fragments as a heap structure.
  \<^item> \<open>Client_Flow\<close>: \<open>client_flow.c\<close> with the C library functions it uses; \<open>Client_Spec\<close>: the
    thread handles exactly the lines of the stream, in order (\<open>serve\<close>, \<open>packet_spec\<close>), for every
    way the network cuts the stream. \<open>Client_Concurrency\<close>: the threads interleave at their lock
    operations and system calls; packets are stored whole, replies are snapshots, some
    thread can always move (\<open>conn_progress\<close>), and a thread alone does what \<open>packet_spec\<close> says.
  \<^item> \<open>Device_File\<close>: the composition of server and driver. The \<open>stdio\<close> calls of a connection run as
    calls of \<open>aesd_read\<close>, \<open>aesd_write\<close> and \<open>aesd_ioctl\<close> with the bytes in user memory. With a
    kernel that refuses nothing (\<open>kernel_serves\<close>) a packet handled this way does what
    \<open>packet_spec\<close> says, and a connection thread sends exactly what the driver delivers.
    \<open>Device_Conns\<close>: the interleaved threads of \<open>Client_Concurrency\<close> with the driver behind every
    access. An abstraction function maps its states to the abstract ones, every step is a step
    there, and where the kernel serves its callers every step there can be taken here; so the
    driver is left as the packets in the order of the lock leave it, and no thread blocks the rest.
    A write the driver refuses is a step too (\<open>d_write_refused\<close>): the code does not look at the
    result, and the packet is lost (\<open>refused_write_lost\<close>); the bounds of the theorems exclude it.
    \<open>Plain_File\<close>: the packet handling of the build on an ordinary file, where every packet that is
    no seek command is answered with the whole file, and a seek command is neither stored nor
    followed by a rewind.
  \<^item> \<open>Queue_Memory\<close>: what the four families of macros of \<open>queue.h\<close> share: a memory of heads and
    elements, the loops of the iteration and search macros, and the contracts as locales: \<open>walk\<close>
    (elements that can be visited), \<open>plain_loop\<close> and \<open>safe_loop\<close> (loop bodies), \<open>two_way\<close>
    (visiting backwards), \<open>elem_queue\<close> and \<open>op_queue\<close> (insertion and removal). \<open>Tail_Queue\<close>,
    \<open>Stailq\<close>, \<open>Slist\<close>, \<open>List_Queue\<close>: the \<open>TAILQ\<close>, \<open>STAILQ\<close>, \<open>SLIST\<close> and \<open>LIST\<close> macros. A
    representation predicate per family (\<open>tailq\<close>, \<open>stailq\<close>, \<open>slist\<close>, \<open>dlist\<close>) relates a head to
    the list of its elements; each macro does its operation on that list and touches nothing
    else; the contracts are interpreted on the macros. \<open>Queue_Families\<close>: \<open>TAILQ\<close> and \<open>STAILQ\<close>
    agree on every sequence of operations. \<open>Queue_Debug\<close>: the macros of a debugging build, with
    traces, trashed links and checks; they do to the elements what the release build does, and
    trap the use of a removed element.
  \<^item> \<open>Socket_Server\<close>: \<open>aesdsocket.c\<close>; \<open>accept\<close> and \<open>pthread_join\<close> may wait for ever, and
    then the main thread does (\<open>No_Return\<close>). \<open>do_work\<close> is what the connection threads do while the
    main thread waits. \<open>Server_Spec\<close>: the server holds exactly what its clients
    need (\<open>srv_inv\<close>), the interpretation of \<open>safe_loop\<close> on the body of
    \<open>join_completed_clients\<close>, one whole connection across the components, and a shutdown that
    leaves nothing behind, no character block and no lock either (\<open>schars\<close> and \<open>slock\<close> are as at the
    start), or waits for a thread that does not end. \<open>Shutdown\<close>: the joining of clients with \<open>cancel\<close> set, interleaved with
    the threads of \<open>Client_Concurrency\<close>. Which calls act on cancellation is a parameter; under the
    condition stated the main thread always gets to the end, and with the cancellation points POSIX
    demands it may wait forever, because a cancelled thread takes the lock it holds with it.
  \<^item> \<open>System_Calls\<close>, \<open>Threading\<close>, \<open>Writer\<close>: running commands with their status words, threads and a
    mutex under every schedule, and the writer program.

  \<^bold>\<open>State.\<close> C structures are records, pointers are optional addresses into maps of live blocks, so
  that reading a freed block, freeing twice and running out of a block are values of
  \<open>c_error\<close>; asserts are branches. Descriptors, streams and threads are sets, so that leaks show.
  Sizes and offsets of the driver are words; lengths inside the server, which are bounded by
  its buffers and available memory, are natural numbers.

  \<^bold>\<open>Rounds.\<close> Loops over heap structures take a number of rounds and give \<open>No_Return\<close> when it does not
  suffice; the theorems state how many are enough: as many as a chain has fragments, as a queue
  has elements, one more than the chunks received, one more than the bytes stored for a reply. All other loops are total functions. The main
  loop of the server takes a list of rounds, one for each call of \<open>accept\<close>, and ends when a stop signal
  is among them; when the list is over without one, or a call of \<open>accept\<close> or \<open>pthread_join\<close> does not
  return, the result is \<open>No_Return\<close>.

  \<^bold>\<open>What the theorems assume.\<close> Kernel, C library and operating system behave as documented
  (\<open>kernel_laws\<close>, \<open>libc_laws\<close>, \<open>os_laws\<close>, \<open>procs_laws\<close>); each set of laws has a concrete instance
  used in the witnesses. The theories of the server use the abstract device, which the driver
  theories show the driver to implement and \<open>Device_File\<close> puts in its place. Where the code does not handle a failure (no
  memory for a fragment, no thread, a refused socket option), the theorem names the condition,
  and what happens otherwise is stated by a theorem or lemma of its own.

  \<^bold>\<open>Not modelled.\<close> Messages to logs and the debugging output of the driver; the timer code, which is
  commented out; the C++ declarations of \<open>queue.h\<close>; the \<open>unlink\<close> of the data file in the build on
  an ordinary file; the constant functions of \<open>examples/autotest-validate\<close>; the shell scripts.
  In \<open>Socket_Server\<close> the threads run one after the other while the main thread waits, each to its end
  or to a call of \<open>recv\<close> that waits, where a thread holds no lock and no character block; their
  interleaving is the subject of \<open>Client_Concurrency\<close> and \<open>Device_Conns\<close>, and a thread cancelled
  with the lock in its hands that of \<open>Shutdown\<close>. \<open>Client_Flow\<close> takes a data file that accepts every
  write; the refusal of a write by the driver is a step of \<open>Device_Conns\<close>. Unsynchronised
  access to \<open>peer_fd\<close> by the two threads is taken as atomic.
\<close>

end
